(* ===== verification/Ants_Prelude.thy ===== *)
theory Ants_Prelude
  imports Main "HOL-Library.Multiset" "HOL-Library.Monad_Syntax" "HOL-Library.Word"
begin

text \<open>
  The vocabulary every component shares: Rust's fixed-width integers read as \<open>int\<close> with the
  range check or the wrap-around written out, the panic result (an option whose \<open>None\<close> is a
  panic), bounds-checked indexing, and generic lemmas on sorted lists and multisets.

  Rust compiles \<open>a + b\<close> on signed integers in two ways: with overflow checks (the default of a
  debug build) an overflow panics, without them (the default of a release build) it wraps. The
  arithmetic below takes the build's choice as its first argument \<open>oc\<close> (overflow checks), so a
  theorem that does not fix \<open>oc\<close> holds in both builds. Atomic \<open>fetch_add\<close> always wraps.
\<close>

named_theorems range_simps \<open>facts that discharge integer range side conditions\<close>

section \<open>Machine integers\<close>

type_synonym i32 = int
type_synonym i64 = int
type_synonym usize = nat

abbreviation i32_max :: i32 where "i32_max \<equiv> 2147483647"
abbreviation i32_min :: i32 where "i32_min \<equiv> - 2147483648"

definition in_i32 :: "int \<Rightarrow> bool" where
  "in_i32 x \<longleftrightarrow> - 2147483648 \<le> x \<and> x < 2147483648"

definition in_i64 :: "int \<Rightarrow> bool" where
  "in_i64 x \<longleftrightarrow> - 9223372036854775808 \<le> x \<and> x < 9223372036854775808"

definition wrap_i32 :: "int \<Rightarrow> i32" where
  "wrap_i32 x = (x + 2147483648) mod 4294967296 - 2147483648"

definition wrap_i64 :: "int \<Rightarrow> i64" where
  "wrap_i64 x = (x + 9223372036854775808) mod 18446744073709551616 - 9223372036854775808"

definition arith_i32 :: "bool \<Rightarrow> int \<Rightarrow> i32 option" where
  "arith_i32 oc x = (if in_i32 x then Some x else if oc then None else Some (wrap_i32 x))"

definition arith_i64 :: "bool \<Rightarrow> int \<Rightarrow> i64 option" where
  "arith_i64 oc x = (if in_i64 x then Some x else if oc then None else Some (wrap_i64 x))"

definition usize_of_i32 :: "i32 \<Rightarrow> usize" where
  "usize_of_i32 x = nat (x mod 18446744073709551616)"

text \<open>The wrapped value is the two's complement reading of the low bits.\<close>

lemma wrap_i32_word: "wrap_i32 x = sint (word_of_int x :: 32 word)"
  by (simp add: wrap_i32_def sint_sbintrunc' signed_take_bit_eq_take_bit_shift take_bit_eq_mod)

lemma wrap_i64_word: "wrap_i64 x = sint (word_of_int x :: 64 word)"
  by (simp add: wrap_i64_def sint_sbintrunc' signed_take_bit_eq_take_bit_shift take_bit_eq_mod)

lemma wrap_i32_in [simp]: "in_i32 x \<Longrightarrow> wrap_i32 x = x"
  by (simp add: in_i32_def wrap_i32_def)

lemma in_i32_wrap [simp]: "in_i32 (wrap_i32 x)"
  by (simp add: in_i32_def wrap_i32_def)

lemma wrap_i32_add: "wrap_i32 (wrap_i32 x + y) = wrap_i32 (x + y)"
proof -
  have "(wrap_i32 x + y + 2147483648) mod 4294967296
      = ((x + 2147483648) mod 4294967296 + y) mod 4294967296"
    by (simp add: wrap_i32_def algebra_simps)
  also have "\<dots> = (x + 2147483648 + y) mod 4294967296"
    by (simp add: mod_add_left_eq)
  finally show ?thesis by (simp add: wrap_i32_def algebra_simps)
qed

lemma arith_i32_in [simp]: "in_i32 x \<Longrightarrow> arith_i32 oc x = Some x"
  by (simp add: arith_i32_def)

lemma arith_i64_in [simp]: "in_i64 x \<Longrightarrow> arith_i64 oc x = Some x"
  by (simp add: arith_i64_def)

lemma arith_i32_wraps [simp]: "arith_i32 False x = Some (wrap_i32 x)"
  by (simp add: arith_i32_def)

lemma arith_i32_panics: "\<not> in_i32 x \<Longrightarrow> arith_i32 True x = None"
  by (simp add: arith_i32_def)

lemma usize_of_i32_nonneg [simp]: "0 \<le> x \<Longrightarrow> in_i32 x \<Longrightarrow> usize_of_i32 x = nat x"
  by (simp add: usize_of_i32_def in_i32_def)

declare in_i32_def [range_simps] in_i64_def [range_simps]

section \<open>Truncating division\<close>

text \<open>Rust's \<open>/\<close> and \<open>%\<close> on signed integers truncate towards zero.\<close>

definition trunc_div :: "int \<Rightarrow> int \<Rightarrow> int" where
  "trunc_div a b = sgn a * sgn b * (\<bar>a\<bar> div \<bar>b\<bar>)"

definition trunc_mod :: "int \<Rightarrow> int \<Rightarrow> int" where
  "trunc_mod a b = a - b * trunc_div a b"

lemma trunc_div_bounds:
  assumes "b \<noteq> 0"
  shows "\<bar>trunc_div a b\<bar> = \<bar>a\<bar> div \<bar>b\<bar>"
  using assms by (cases "a = 0") (simp_all add: trunc_div_def abs_mult abs_sgn_eq pos_imp_zdiv_nonneg_iff)

lemma trunc_div_abs_le: "b \<noteq> 0 \<Longrightarrow> \<bar>trunc_div a b\<bar> \<le> \<bar>a\<bar>"
  using zdiv_mono2 [of "\<bar>a\<bar>" 1 "\<bar>b\<bar>"] by (simp add: trunc_div_bounds)

lemma trunc_div_mult: "k \<noteq> 0 \<Longrightarrow> trunc_div (x * k) k = x"
proof -
  assume k: "k \<noteq> 0"
  then have "\<bar>x * k\<bar> div \<bar>k\<bar> = \<bar>x\<bar>" by (simp add: abs_mult)
  moreover have "sgn (x * k) * sgn k = sgn x"
    using k by (simp add: sgn_mult mult.assoc sgn_mult_self_eq)
  ultimately show ?thesis by (simp add: trunc_div_def mult_sgn_abs)
qed

lemma trunc_mod_nonneg [simp]: "0 \<le> a \<Longrightarrow> 0 < b \<Longrightarrow> trunc_mod a b = a mod b"
  by (cases "a = 0") (simp_all add: trunc_mod_def trunc_div_def minus_mult_div_eq_mod)

definition rem_i32 :: "i32 \<Rightarrow> i32 \<Rightarrow> i32 option" where
  "rem_i32 a b = (if b = 0 \<or> (a = i32_min \<and> b = - 1) then None else Some (trunc_mod a b))"

definition sub_usize :: "bool \<Rightarrow> usize \<Rightarrow> usize \<Rightarrow> usize option" where
  "sub_usize oc a b =
     (if b \<le> a then Some (a - b) else if oc then None else Some (a + 18446744073709551616 - b))"

definition mod_usize :: "usize \<Rightarrow> usize \<Rightarrow> usize option" where
  "mod_usize a b = (if b = 0 then None else Some (a mod b))"

lemma sub_usize_le [simp]: "b \<le> a \<Longrightarrow> sub_usize oc a b = Some (a - b)"
  by (simp add: sub_usize_def)

lemma mod_usize_pos [simp]: "0 < b \<Longrightarrow> mod_usize a b = Some (a mod b)"
  by (simp add: mod_usize_def)

text \<open>Positions of a ring: the next occupied slot after the last one is slot zero.\<close>

lemma ring_pos:
  "h < n \<Longrightarrow> i \<le> n \<Longrightarrow> (h + i) mod n = (if h + i < n then h + i else h + i - (n :: nat))"
  by (simp add: mod_if)

lemma ring_pos_Suc:
  "h < n \<Longrightarrow> i < n \<Longrightarrow> Suc (h + i) mod n = (if Suc (h + i) < n then Suc (h + i) else Suc (h + i) - n)"
  using ring_pos [of h n "Suc i"] by simp

lemma ring_pos_inj:
  "h < n \<Longrightarrow> i < n \<Longrightarrow> j < n \<Longrightarrow> (h + i) mod n = (h + j) mod n \<longleftrightarrow> i = (j :: nat)"
  by (auto simp: ring_pos split: if_splits)

section \<open>Bounds-checked indexing\<close>

definition idx :: "'a list \<Rightarrow> nat \<Rightarrow> 'a option" where
  "idx xs i = (if i < length xs then Some (xs ! i) else None)"

lemma idx_in [simp]: "i < length xs \<Longrightarrow> idx xs i = Some (xs ! i)"
  by (simp add: idx_def)

lemma idx_out: "length xs \<le> i \<Longrightarrow> idx xs i = None"
  by (simp add: idx_def)

definition set_idx :: "'a list \<Rightarrow> nat \<Rightarrow> 'a \<Rightarrow> 'a list option" where
  "set_idx xs i x = (if i < length xs then Some (xs[i := x]) else None)"

lemma set_idx_in [simp]: "i < length xs \<Longrightarrow> set_idx xs i x = Some (xs[i := x])"
  by (simp add: set_idx_def)

lemma length_filter_clear:
  "i < length xs \<Longrightarrow> xs ! i \<noteq> None \<Longrightarrow>
     length (filter (\<lambda>x. x \<noteq> None) (xs[i := None])) < length (filter (\<lambda>x. x \<noteq> None) xs)"
proof (induction xs arbitrary: i)
  case (Cons x xs)
  then show ?case by (cases i) auto
qed simp

lemma map_filter_append: "List.map_filter f (xs @ ys) = List.map_filter f xs @ List.map_filter f ys"
  by (simp add: List.map_filter_def)

lemma map_filter_id_map: "List.map_filter id (map f xs) = List.map_filter f xs"
  by (induction xs) (simp_all split: option.split)

lemma in_remove1D: "x \<in> set (remove1 y xs) \<Longrightarrow> x \<in> set xs"
  by (rule subsetD [OF set_remove1_subset])

section \<open>Sorted lists split at a threshold\<close>

text \<open>
  A list is sorted by a key; the elements whose key is at most \<open>e\<close> then form a prefix.
\<close>

lemma sorted_key_nth_mono:
  "sorted (map f xs) \<Longrightarrow> i \<le> j \<Longrightarrow> j < length xs \<Longrightarrow> f (xs ! i) \<le> f (xs ! j)"
  by (simp add: sorted_iff_nth_mono)

lemma takeWhile_sorted_filter:
  "sorted (map f xs) \<Longrightarrow> takeWhile (\<lambda>x. f x \<le> (e :: int)) xs = filter (\<lambda>x. f x \<le> e) xs"
  by (induction xs) (fastforce intro!: filter_False [symmetric] dest: order_trans)+

lemma dropWhile_sorted_filter:
  "sorted (map f xs) \<Longrightarrow> dropWhile (\<lambda>x. f x \<le> (e :: int)) xs = filter (\<lambda>x. e < f x) xs"
  by (induction xs) (fastforce intro!: filter_True [symmetric] dest: less_le_trans)+

lemma split_point_takeWhile:
  assumes "k \<le> length xs"
    and "\<And>i. i < k \<Longrightarrow> P (xs ! i)"
    and "k < length xs \<Longrightarrow> \<not> P (xs ! k)"
  shows "takeWhile P xs = take k xs" and "dropWhile P xs = drop k xs"
proof -
  show "takeWhile P xs = take k xs"
    by (metis assms leI order_le_less takeWhile_eq_take_P_nth take_all_iff)
  then show "dropWhile P xs = drop k xs"
    by (metis append_take_drop_id same_append_eq takeWhile_dropWhile_id)
qed

section \<open>Multisets\<close>

lemma mset_take_drop: "mset (take k xs) + mset (drop k xs) = mset xs"
  by (metis append_take_drop_id mset_append)

lemma mset_butlast_last: "xs \<noteq> [] \<Longrightarrow> mset xs = add_mset (last xs) (mset (butlast xs))"
  by (induction xs rule: rev_induct) simp_all

lemma count_one_le: "count M x \<le> Suc 0 \<Longrightarrow> x \<in># M \<Longrightarrow> count M x = Suc 0"
  by (simp add: Suc_leI le_antisym)

text \<open>Results mapped over a sum.\<close>

lemma map_sum_eq_Inr [simp]: "map_sum f g r = Inr y \<longleftrightarrow> (\<exists>x. r = Inr x \<and> y = g x)"
  by (cases r) auto

lemma map_sum_eq_Inl [simp]: "map_sum f g r = Inl y \<longleftrightarrow> (\<exists>x. r = Inl x \<and> y = f x)"
  by (cases r) auto

end
