(* ===== verification/Interleaving.thy ===== *)
theory Interleaving
  imports Ants_Prelude
begin

text \<open>
  Interleaved threads over shared state. A thread is its program counter (with its local variables);
  \<open>moves s p\<close> lists what one atomic step of a thread at \<open>p\<close> can do from the shared state \<open>s\<close>: the new
  shared state and the program counters the thread leaves behind (its own next one, one more for a
  thread it spawns, none when it ends; the empty list of moves means that it is blocked). The
  threads of the system form a multiset; any of them may move next, and the environment may start
  a thread at an \<open>entry\<close> at any time.
\<close>

type_synonym ('s, 'p) moves = "'s \<Rightarrow> 'p \<Rightarrow> ('s \<times> 'p list) list"

inductive reachable ::
  "('s, 'p) moves \<Rightarrow> 's \<Rightarrow> 'p multiset \<Rightarrow> ('p \<Rightarrow> bool) \<Rightarrow> 's \<Rightarrow> 'p multiset \<Rightarrow> bool"
  for moves s0 M0 entry where
  start: "reachable moves s0 M0 entry s0 M0"
| enter: "reachable moves s0 M0 entry s M \<Longrightarrow> entry p \<Longrightarrow>
    reachable moves s0 M0 entry s (add_mset p M)"
| move: "reachable moves s0 M0 entry s (add_mset p M) \<Longrightarrow> (s', ps) \<in> set (moves s p) \<Longrightarrow>
    reachable moves s0 M0 entry s' (mset ps + M)"

lemma reachable_mono:
  assumes "reachable moves s0 M0 entry s M" and "\<And>p. entry p \<Longrightarrow> entry' p"
    and "\<And>t p. set (moves t p) \<subseteq> set (moves' t p)"
  shows "reachable moves' s0 M0 entry' s M"
  using assms(1)
proof (induction rule: reachable.induct)
  case start
  show ?case by (rule reachable.start)
next
  case (enter s M p)
  then show ?case using assms(2) by (blast intro: reachable.enter)
next
  case (move s p M s' ps)
  then show ?case using assms(3) by (blast intro: reachable.move)
qed

text \<open>
  A schedule names, step by step, the thread that moves (by its position) and which of its moves it
  takes; \<open>play\<close> runs it. Whatever a schedule reaches is reachable.
\<close>

fun play :: "('s, 'p) moves \<Rightarrow> 's \<Rightarrow> 'p list \<Rightarrow> (nat \<times> nat) list \<Rightarrow> ('s \<times> 'p list) option" where
  "play moves s ps [] = Some (s, ps)"
| "play moves s ps ((i, j) # schedule) =
     (if i < length ps \<and> j < length (moves s (ps ! i))
      then play moves (fst (moves s (ps ! i) ! j)) (snd (moves s (ps ! i) ! j) @ take i ps @ drop (Suc i) ps) schedule
      else None)"

lemma reachable_enter_all:
  "reachable moves s0 M0 entry s M \<Longrightarrow> list_all entry ps \<Longrightarrow> reachable moves s0 M0 entry s (mset ps + M)"
  by (induction ps) (auto intro: reachable.enter)

lemma play_step:
  assumes "play moves s ps ((i, j) # schedule) = Some (s', ps')"
  shows "\<exists>s1 qs N. mset ps = add_mset (ps ! i) N \<and> (s1, qs) \<in> set (moves s (ps ! i))
    \<and> (\<exists>rs. mset rs = mset qs + N \<and> play moves s1 rs schedule = Some (s', ps'))"
proof -
  let ?m = "moves s (ps ! i) ! j"
  have i: "i < length ps" and j: "j < length (moves s (ps ! i))"
    and rest: "play moves (fst ?m) (snd ?m @ take i ps @ drop (Suc i) ps) schedule = Some (s', ps')"
    using assms by (auto split: if_splits)
  have "mset ps = add_mset (ps ! i) (mset (take i ps @ drop (Suc i) ps))"
    using id_take_nth_drop [OF i] by (metis mset.simps(2) mset_append union_mset_add_mset_right)
  moreover have "(fst ?m, snd ?m) \<in> set (moves s (ps ! i))" using nth_mem [OF j] by simp
  moreover have "mset (snd ?m @ take i ps @ drop (Suc i) ps) = mset (snd ?m) + mset (take i ps @ drop (Suc i) ps)" by simp
  ultimately show ?thesis using rest by blast
qed

lemma play_reachable:
  "reachable moves s0 M0 entry s (mset ps) \<Longrightarrow> play moves s ps schedule = Some (s', ps') \<Longrightarrow>
    reachable moves s0 M0 entry s' (mset ps')"
proof (induction schedule arbitrary: s ps)
  case (Cons c schedule)
  obtain i j where c: "c = (i, j)" by (cases c)
  from play_step [OF Cons.prems(2) [unfolded c]] obtain s1 qs N where step: "mset ps = add_mset (ps ! i) N"
    "(s1, qs) \<in> set (moves s (ps ! i))" and rest: "\<exists>rs. mset rs = mset qs + N \<and> play moves s1 rs schedule = Some (s', ps')"
    by blast
  from reachable.move [OF Cons.prems(1) [unfolded step(1)] step(2)] rest Cons.IH show ?case by metis
qed simp

lemma reachable_trans:
  assumes "reachable moves s0 M0 entry s1 M1" and "reachable moves s1 M1 entry s2 M2"
  shows "reachable moves s0 M0 entry s2 M2"
  using assms(2,1) by (induction rule: reachable.induct) (auto intro: reachable.intros)

text \<open>A thread that can never move stays.\<close>

lemma stuck_stays:
  assumes "reachable moves s0 M0 entry s M" and "p \<in># M0" and "\<And>t. moves t p = []"
  shows "p \<in># M"
  using assms(1)
proof (induction rule: reachable.induct)
  case start
  show ?case by (rule assms(2))
next
  case (enter s M q)
  then show ?case by simp
next
  case (move s q M s' ps)
  then have "q \<noteq> p" using assms(3) by auto
  with move.IH show ?case by auto
qed

section \<open>Totals over the threads\<close>

definition total :: "('p \<Rightarrow> 'a :: comm_monoid_add) \<Rightarrow> 'p multiset \<Rightarrow> 'a" where
  "total f M = (\<Sum>p \<in># M. f p)"

lemma total_empty [simp]: "total f {#} = 0"
  by (simp add: total_def)

lemma total_add [simp]: "total f (add_mset p M) = f p + total f M"
  by (simp add: total_def)

lemma total_plus [simp]: "total f (M + N) = total f M + total f N"
  by (simp add: total_def)

lemma total_mset [simp]: "total f (mset ps) = sum_list (map f ps)"
  by (induction ps) simp_all

lemma total_zero: "(\<And>p. p \<in># M \<Longrightarrow> f p = 0) \<Longrightarrow> total f M = 0"
  by (induction M) simp_all

lemma total_cong: "(\<And>p. p \<in># M \<Longrightarrow> f p = g p) \<Longrightarrow> total f M = total g M"
  by (induction M) simp_all

lemma total_add_fun: "total (\<lambda>p. f p + g p) M = total f M + total g M"
  by (induction M) (simp_all add: algebra_simps)

lemma total_nat_zeroD: "total f M = (0 :: nat) \<Longrightarrow> p \<in># M \<Longrightarrow> f p = 0"
  by (induction M) auto

lemma total_nat_ge: "p \<in># M \<Longrightarrow> f p \<le> (total f M :: nat)"
  by (induction M) auto

lemma total_mset_mem: "p \<in># M \<Longrightarrow> x \<in># f p \<Longrightarrow> x \<in># total f M"
  by (induction M) auto

lemma total_int: "total (\<lambda>p. int (f p)) M = int (total f M)"
  by (induction M) simp_all

section \<open>Invariants by accounting\<close>

text \<open>
  A ledger assigns every program counter an amount \<open>f p\<close>; \<open>book s x\<close> says that the shared state
  agrees with the total \<open>x\<close> over all threads. It suffices to check every move against an arbitrary
  rest of the system. \<open>known\<close> are facts about reachable systems that are already established.
\<close>

locale ledger =
  fixes moves :: "('s, 'p) moves" and s0 :: 's and M0 :: "'p multiset" and entry :: "'p \<Rightarrow> bool"
    and known :: "'s \<Rightarrow> 'p multiset \<Rightarrow> bool"
    and f :: "'p \<Rightarrow> 'a :: comm_monoid_add"
    and book :: "'s \<Rightarrow> 'a \<Rightarrow> bool"
  assumes known: "reachable moves s0 M0 entry s M \<Longrightarrow> known s M"
    and book_start: "book s0 (total f M0)"
    and book_enter: "entry p \<Longrightarrow> book s x \<Longrightarrow> book s (f p + x)"
    and book_move: "known s (add_mset p M) \<Longrightarrow> (s', ps) \<in> set (moves s p) \<Longrightarrow>
      book s (f p + total f M) \<Longrightarrow> book s' (sum_list (map f ps) + total f M)"
begin

lemma balanced: "reachable moves s0 M0 entry s M \<Longrightarrow> book s (total f M)"
proof (induction rule: reachable.induct)
  case start
  show ?case by (rule book_start)
next
  case (enter s M p)
  then show ?case by (simp add: book_enter)
next
  case (move s p M s' ps)
  then show ?case using book_move [OF known [OF move.hyps(1)] move.hyps(2)] by simp
qed

end

text \<open>An invariant of the shared state and of every single thread.\<close>

locale thread_invariant =
  fixes moves :: "('s, 'p) moves" and s0 :: 's and M0 :: "'p multiset" and entry :: "'p \<Rightarrow> bool"
    and known :: "'s \<Rightarrow> 'p multiset \<Rightarrow> bool"
    and good :: "'s \<Rightarrow> bool" and fine :: "'p \<Rightarrow> bool"
  assumes known: "reachable moves s0 M0 entry s M \<Longrightarrow> known s M"
    and good_start: "good s0" and fine_start: "\<And>p. p \<in># M0 \<Longrightarrow> fine p"
    and fine_enter: "entry p \<Longrightarrow> fine p"
    and preserved: "known s (add_mset p M) \<Longrightarrow> good s \<Longrightarrow> fine p \<Longrightarrow> (s', ps) \<in> set (moves s p) \<Longrightarrow>
      good s' \<and> list_all fine ps"
begin

lemma invariant: "reachable moves s0 M0 entry s M \<Longrightarrow> good s \<and> (\<forall>p \<in># M. fine p)"
proof (induction rule: reachable.induct)
  case start
  then show ?case using good_start fine_start by simp
next
  case (enter s M p)
  then show ?case using fine_enter by simp
next
  case (move s p M s' ps)
  then have "good s' \<and> list_all fine ps"
    using preserved [OF known [OF move.hyps(1)] _ _ move.hyps(2)] by simp
  with move.IH show ?case by (auto simp: list_all_iff)
qed

end

section \<open>Bounds on the number of steps\<close>

text \<open>
  A run with its bill: the threads that entered, and the number of steps that the counted threads made.
\<close>

inductive metered ::
  "('s, 'p) moves \<Rightarrow> 's \<Rightarrow> 'p multiset \<Rightarrow> ('p \<Rightarrow> bool) \<Rightarrow> ('p \<Rightarrow> bool) \<Rightarrow> 's \<Rightarrow> 'p multiset \<Rightarrow> 'p multiset \<Rightarrow> nat \<Rightarrow> bool"
  for moves s0 M0 entry counted where
  start: "metered moves s0 M0 entry counted s0 M0 {#} 0"
| enter: "metered moves s0 M0 entry counted s M E n \<Longrightarrow> entry p \<Longrightarrow>
    metered moves s0 M0 entry counted s (add_mset p M) (add_mset p E) n"
| move: "metered moves s0 M0 entry counted s (add_mset p M) E n \<Longrightarrow> (s', ps) \<in> set (moves s p) \<Longrightarrow>
    metered moves s0 M0 entry counted s' (mset ps + M) E (n + (if counted p then 1 else 0))"

lemma metered_reachable: "metered moves s0 M0 entry counted s M E n \<Longrightarrow> reachable moves s0 M0 entry s M"
  by (induction rule: metered.induct) (auto intro: reachable.intros)

lemma reachable_metered:
  assumes "reachable moves s0 M0 entry s M"
  obtains E n where "metered moves s0 M0 entry counted s M E n"
proof -
  from assms have "\<exists>E n. metered moves s0 M0 entry counted s M E n"
  proof (induction rule: reachable.induct)
    case start
    show ?case by (intro exI, rule metered.start)
  next
    case (enter s M p)
    then obtain E n where "metered moves s0 M0 entry counted s M E n" by blast
    from metered.enter [OF this enter.hyps(2)] show ?case by blast
  next
    case (move s p M s' ps)
    then obtain E n where "metered moves s0 M0 entry counted s (add_mset p M) E n" by blast
    from metered.move [OF this move.hyps(2)] show ?case by blast
  qed
  then show thesis using that by blast
qed

lemma metered_enter_all:
  "metered moves s0 M0 entry counted s M E n \<Longrightarrow> list_all entry ps \<Longrightarrow>
    metered moves s0 M0 entry counted s (mset ps + M) (mset ps + E) n"
  by (induction ps) (auto intro: metered.enter)

lemma play_metered:
  "metered moves s0 M0 entry counted s (mset ps) E n \<Longrightarrow> play moves s ps schedule = Some (s', ps') \<Longrightarrow>
    \<exists>n'. metered moves s0 M0 entry counted s' (mset ps') E n'"
proof (induction schedule arbitrary: s ps n)
  case (Cons c schedule)
  obtain i j where c: "c = (i, j)" by (cases c)
  from play_step [OF Cons.prems(2) [unfolded c]] obtain s1 qs N where step: "mset ps = add_mset (ps ! i) N"
    "(s1, qs) \<in> set (moves s (ps ! i))" and rest: "\<exists>rs. mset rs = mset qs + N \<and> play moves s1 rs schedule = Some (s', ps')"
    by blast
  from metered.move [OF Cons.prems(1) [unfolded step(1)] step(2)] rest Cons.IH show ?case by metis
qed auto

text \<open>
  Every thread has a credit and the shared state stores some. A step of a counted thread uses one up, no
  step makes any; so the counted steps are paid for by the threads that entered.
\<close>

locale potential =
  fixes moves :: "('s, 'p) moves" and s0 :: 's and M0 :: "'p multiset" and entry :: "'p \<Rightarrow> bool"
    and known :: "'s \<Rightarrow> 'p multiset \<Rightarrow> bool"
    and credit :: "'p \<Rightarrow> nat" and stored :: "'s \<Rightarrow> nat" and counted :: "'p \<Rightarrow> bool"
  assumes known: "reachable moves s0 M0 entry s M \<Longrightarrow> known s M"
    and amortised: "known s (add_mset p M) \<Longrightarrow> (s', ps) \<in> set (moves s p) \<Longrightarrow>
      stored s' + sum_list (map credit ps) + (if counted p then 1 else 0) \<le> stored s + credit p"
begin

lemma paid:
  "metered moves s0 M0 entry counted s M E n \<Longrightarrow>
    n + stored s + total credit M \<le> stored s0 + total credit M0 + total credit E"
proof (induction rule: metered.induct)
  case (move s p M E n s' ps)
  then show ?case using amortised [OF known [OF metered_reachable [OF move.hyps(1)]] move.hyps(2)] by simp
qed simp_all

end

end
