(* ===== verification/Spin_Lock.thy ===== *)
theory Spin_Lock
  imports Interleaving
begin

text \<open>
  The spin lock (src/src/pkg/sync/spinlock.rs): a thread that calls \<open>lock\<close> tries a
  compare-exchange, yields \<open>backoff\<close> times when it fails and doubles \<open>backoff\<close> up to 16; the guard's
  owner reads and writes the data and unlocks when the guard is dropped. The interleaving semantics
  gives every atomic access and every access to the data its own step. The client of the lock
  applies a function to the data, as one read and one write under the guard.
\<close>

definition MAX_BACKOFF :: nat where "MAX_BACKOFF = 16"

record 'd spin_lock =
  state :: nat
  data :: 'd

definition spin_lock_new :: "'d \<Rightarrow> 'd spin_lock" where
  "spin_lock_new d = \<lparr>state = 0, data = d\<rparr>"

datatype 'd lock_pc =
    TryLock nat "'d \<Rightarrow> 'd"
  | Yielding nat nat "'d \<Rightarrow> 'd"
  | Guard "'d \<Rightarrow> 'd"
  | GuardRead "'d \<Rightarrow> 'd" 'd
  | GuardWritten "'d \<Rightarrow> 'd"
  | Unlocked "'d \<Rightarrow> 'd"

definition next_backoff :: "nat \<Rightarrow> nat" where
  "next_backoff backoff = (if backoff < MAX_BACKOFF then 2 * backoff else backoff)"

fun lock_moves :: "('d spin_lock, 'd lock_pc) moves" where
  "lock_moves l (TryLock backoff f) =
     (if state l = 0 then [(l\<lparr>state := 1\<rparr>, [Guard f])] else [(l, [Yielding backoff backoff f])])"
| "lock_moves l (Yielding n backoff f) =
     (if n = 0 then [(l, [TryLock (next_backoff backoff) f])] else [(l, [Yielding (n - 1) backoff f])])"
| "lock_moves l (Guard f) = [(l, [GuardRead f (data l)])]"
| "lock_moves l (GuardRead f seen) = [(l\<lparr>data := f seen\<rparr>, [GuardWritten f])]"
| "lock_moves l (GuardWritten f) = [(l\<lparr>state := 0\<rparr>, [Unlocked f])]"
| "lock_moves l (Unlocked f) = []"

text \<open>A call of \<open>lock\<close> starts with a back-off of one.\<close>

fun lock_entry :: "'d lock_pc \<Rightarrow> bool" where
  "lock_entry (TryLock backoff f) \<longleftrightarrow> backoff = 1"
| "lock_entry _ \<longleftrightarrow> False"

abbreviation lock_reachable :: "'d \<Rightarrow> 'd spin_lock \<Rightarrow> 'd lock_pc multiset \<Rightarrow> bool" where
  "lock_reachable d \<equiv> reachable lock_moves (spin_lock_new d) {#} lock_entry"

section \<open>Mutual exclusion\<close>

fun has_guard :: "'d lock_pc \<Rightarrow> nat" where
  "has_guard (Guard f) = 1"
| "has_guard (GuardRead f seen) = 1"
| "has_guard (GuardWritten f) = 1"
| "has_guard _ = 0"

interpretation guards: ledger lock_moves "spin_lock_new d" "{#}" lock_entry "\<lambda>_ _. True" has_guard
    "\<lambda>l n. n = (if state l = 0 then 0 else 1) \<and> state l \<le> 1" for d
proof (unfold_locales, goal_cases)
  case (3 p s x)
  then show ?case by (cases p) auto
next
  case (4 s p M s' ps)
  then show ?case by (cases p) (auto split: if_splits)
qed (simp_all add: spin_lock_new_def)

section \<open>Back-off\<close>

fun backoff_ok :: "'d lock_pc \<Rightarrow> bool" where
  "backoff_ok (TryLock backoff f) \<longleftrightarrow> backoff \<in> {1, 2, 4, 8, 16}"
| "backoff_ok (Yielding n backoff f) \<longleftrightarrow> backoff \<in> {1, 2, 4, 8, 16} \<and> n \<le> backoff"
| "backoff_ok _ \<longleftrightarrow> True"

interpretation backoff: thread_invariant lock_moves "spin_lock_new d" "{#}" lock_entry
    "\<lambda>_ _. True" "\<lambda>_. True" backoff_ok for d
proof (unfold_locales, goal_cases)
  case (4 p)
  then show ?case by (cases p) auto
next
  case (5 s p M s' ps)
  then show ?case by (cases p) (auto split: if_splits simp: next_backoff_def MAX_BACKOFF_def)
qed simp_all

section \<open>No update is lost\<close>

text \<open>
  For a client that adds numbers: what every thread has already added to the data.
\<close>

fun added :: "int lock_pc \<Rightarrow> int" where
  "added (GuardWritten f) = f 0"
| "added (Unlocked f) = f 0"
| "added _ = 0"

definition is_add :: "(int \<Rightarrow> int) \<Rightarrow> bool" where
  "is_add f \<longleftrightarrow> (\<exists>k. f = (\<lambda>x. x + k))"

fun adds :: "int lock_pc \<Rightarrow> bool" where
  "adds (TryLock b f) \<longleftrightarrow> is_add f"
| "adds (Yielding n b f) \<longleftrightarrow> is_add f"
| "adds (Guard f) \<longleftrightarrow> is_add f"
| "adds (GuardRead f seen) \<longleftrightarrow> is_add f"
| "adds (GuardWritten f) \<longleftrightarrow> is_add f"
| "adds (Unlocked f) \<longleftrightarrow> is_add f"

definition add_entry :: "int lock_pc \<Rightarrow> bool" where
  "add_entry p \<longleftrightarrow> lock_entry p \<and> adds p"

text \<open>A thread that has read the data under the guard has read its current value.\<close>

fun stale_read :: "int spin_lock \<Rightarrow> int lock_pc \<Rightarrow> bool" where
  "stale_read l (GuardRead f seen) \<longleftrightarrow> seen \<noteq> data l"
| "stale_read l _ \<longleftrightarrow> False"

lemma no_update_lost:
  assumes "reachable lock_moves (spin_lock_new 0) {#} add_entry l M"
  shows "data l = total added M \<and> (\<forall>p \<in># M. adds p) \<and> (\<forall>p \<in># M. \<not> stale_read l p)
    \<and> total has_guard M = (if state l = 0 then 0 else 1)"
  using assms
proof (induction rule: reachable.induct)
  case start
  then show ?case by (simp add: spin_lock_new_def)
next
  case (enter l M p)
  then show ?case by (cases p) (auto simp: add_entry_def)
next
  case (move l p M l' ps)
  have IH: "data l = added p + total added M" "adds p" "\<forall>q \<in># M. adds q" "\<not> stale_read l p"
    "\<forall>q \<in># M. \<not> stale_read l q" "has_guard p + total has_guard M = (if state l = 0 then 0 else 1)"
    using move.IH by simp_all
  have alone: "\<forall>q \<in># M. \<not> stale_read l' q" if "has_guard p = 1"
  proof
    fix q assume q: "q \<in># M"
    have "total has_guard M = 0" using IH(6) that by (simp split: if_splits)
    then have "has_guard q = 0" using q by (rule total_nat_zeroD)
    then show "\<not> stale_read l' q" by (cases q) simp_all
  qed
  have same: "\<forall>q \<in># M. \<not> stale_read l' q" if "data l' = data l"
  proof
    fix q assume "q \<in># M"
    then show "\<not> stale_read l' q" using IH(5) that by (cases q) auto
  qed
  show ?case
  proof (cases p)
    case (GuardRead f seen)
    then obtain k where "f = (\<lambda>x. x + k)" "seen = data l" using IH(2,4) by (auto simp: is_add_def)
    then show ?thesis
      using GuardRead move.hyps(2) IH alone by simp
  next
    case (TryLock b f)
    then have "data l' = data l" using move.hyps(2) by (auto split: if_splits)
    with TryLock show ?thesis
      using move.hyps(2) IH same by (auto split: if_splits)
  next
    case (Yielding n b f)
    with move.hyps(2) IH show ?thesis by (auto split: if_splits)
  next
    case (Guard f)
    with move.hyps(2) IH show ?thesis by auto
  next
    case (GuardWritten f)
    then have "data l' = data l" using move.hyps(2) by simp
    with GuardWritten show ?thesis using move.hyps(2) IH same by (auto split: if_splits)
  next
    case (Unlocked f)
    with move.hyps(2) show ?thesis by simp
  qed
qed

text \<open>The lock can always be taken when it is free, and only then.\<close>

lemma try_lock_free: "lock_moves l (TryLock b f) = [(l', [Guard f])] \<longleftrightarrow> state l = 0 \<and> l' = l\<lparr>state := 1\<rparr>"
  by auto

section \<open>Properties\<close>

text \<open>C30: The spin lock excludes: however its threads interleave, at most one holds a guard, its state is
  taken exactly when one does, and a thread that has to wait yields at most \<open>MAX_BACKOFF\<close> times before it
  tries again.\<close>

theorem spin_lock_excludes:
  assumes "lock_reachable d l M"
  shows "total has_guard M = (if state l = 0 then 0 else 1)
    \<and> (\<forall>n backoff f. Yielding n backoff f \<in># M \<longrightarrow> n \<le> backoff \<and> backoff \<le> MAX_BACKOFF)"
proof -
  have "backoff_ok p" if "p \<in># M" for p using backoff.invariant [OF assms] that by blast
  then have "n \<le> backoff \<and> backoff \<le> MAX_BACKOFF" if "Yielding n backoff f \<in># M" for n backoff f
    using that by (fastforce simp: MAX_BACKOFF_def)
  with guards.balanced [OF assms] show ?thesis by blast
qed

lemma demo_lock_reachable:
  "lock_reachable (0 :: nat) \<lparr>state = 1, data = 0\<rparr> (mset [Yielding 1 1 (\<lambda>x. x + 2), Guard (\<lambda>x. x + 1)])"
proof (rule play_reachable)
  show "lock_reachable (0 :: nat) (spin_lock_new 0) (mset [TryLock 1 (\<lambda>x. x + 1), TryLock 1 (\<lambda>x. x + 2)])"
    using reachable_enter_all [OF reachable.start, of lock_entry "[TryLock 1 (\<lambda>x. x + 1), TryLock 1 (\<lambda>x. x + 2)]"
        lock_moves "spin_lock_new (0 :: nat)" "{#}"]
    by simp
  show "play lock_moves (spin_lock_new 0) [TryLock 1 (\<lambda>x. x + 1), TryLock 1 (\<lambda>x. x + 2)] [(0, 0), (1, 0)]
    = Some (\<lparr>state = 1, data = 0 :: nat\<rparr>, [Yielding 1 1 (\<lambda>x. x + 2), Guard (\<lambda>x. x + 1)])"
    by (simp add: spin_lock_new_def)
qed

theorem spin_lock_excludes_witness:
  "total has_guard (mset [Yielding 1 1 (\<lambda>x :: nat. x + 2), Guard (\<lambda>x. x + 1)]) = 1 \<and> (1 :: nat) \<le> MAX_BACKOFF"
  using spin_lock_excludes [OF demo_lock_reachable] by auto

text \<open>No update under the lock is lost: when threads that each add a number to the guarded data have
  all left the lock, the data is the sum of the numbers.\<close>

lemma spin_lock_loses_no_update:
  assumes "reachable lock_moves (spin_lock_new 0) {#} add_entry l M" and "\<forall>p \<in># M. \<exists>f. p = Unlocked f"
  shows "state l = 0 \<and> data l = (\<Sum>p \<in># M. added p)"
proof -
  have "total has_guard M = 0" using assms(2) by (intro total_zero) auto
  with no_update_lost [OF assms(1)] show ?thesis by (simp add: total_def split: if_splits)
qed

lemma spin_lock_loses_no_update_example:
  "state \<lparr>state = 0, data = 5 :: int\<rparr> = 0
    \<and> data \<lparr>state = 0, data = 5 :: int\<rparr> = (\<Sum>p \<in># mset [Unlocked (\<lambda>x. x + 3), Unlocked (\<lambda>x. x + 2)]. added p)"
proof (rule spin_lock_loses_no_update)
  show "reachable lock_moves (spin_lock_new 0) {#} add_entry \<lparr>state = 0, data = 5\<rparr>
    (mset [Unlocked (\<lambda>x. x + 3), Unlocked (\<lambda>x. x + 2)])"
  proof (rule play_reachable)
    show "reachable lock_moves (spin_lock_new 0) {#} add_entry (spin_lock_new 0)
      (mset [TryLock 1 (\<lambda>x. x + 2), TryLock 1 (\<lambda>x. x + 3)])"
      using reachable_enter_all [OF reachable.start, of add_entry "[TryLock 1 (\<lambda>x. x + 2), TryLock 1 (\<lambda>x. x + 3)]"
          lock_moves "spin_lock_new 0" "{#}"]
      by (auto simp: add_entry_def is_add_def)
    show "play lock_moves (spin_lock_new 0) [TryLock 1 (\<lambda>x. x + 2), TryLock 1 (\<lambda>x. x + 3)]
        (replicate 4 (0, 0) @ (1, 0) # replicate 3 (0, 0)) = Some (\<lparr>state = 0, data = 5 :: int\<rparr>, [Unlocked (\<lambda>x. x + 3), Unlocked (\<lambda>x. x + 2)])"
      by (simp add: spin_lock_new_def numeral_eq_Suc)
  qed
qed simp

end
