(* ===== verification/Ants_Error.thy ===== *)
theory Ants_Error
  imports Ants_Prelude
begin

text \<open>
  The crate root (src/src/lib.rs): the error type with its \<open>Display\<close> text, the pool state
  constants, the default capacity, and the choice of the worker channel's capacity.
\<close>

section \<open>Errors\<close>

datatype error =
    LackPoolFunc
  | InvalidPoolExpiry
  | PoolClosed
  | PoolOverload
  | InvalidPreAllocSize
  | Timeout
  | InvalidPoolIndex
  | InvalidLoadBalancingStrategy
  | InvalidMultiPoolSize
  | QueueIsFull
  | Canceled
  | DeadlineExceeded
  | Pools string

fun error_to_string :: "error \<Rightarrow> string" where
  "error_to_string LackPoolFunc = ''must provide function for pool''"
| "error_to_string InvalidPoolExpiry = ''invalid expiry for pool''"
| "error_to_string PoolClosed = ''this pool has been closed''"
| "error_to_string PoolOverload = ''too many goroutines blocked on submit or Nonblocking is set''"
| "error_to_string InvalidPreAllocSize = ''can not set up a negative capacity under PreAlloc mode''"
| "error_to_string Timeout = ''operation timed out''"
| "error_to_string InvalidPoolIndex = ''invalid pool index''"
| "error_to_string InvalidLoadBalancingStrategy = ''invalid load-balancing strategy''"
| "error_to_string InvalidMultiPoolSize = ''invalid size for multiple pool''"
| "error_to_string QueueIsFull = ''the queue is full''"
| "error_to_string Canceled = ''context canceled''"
| "error_to_string DeadlineExceeded = ''context deadline exceeded''"
| "error_to_string (Pools detail) = detail"

lemma error_to_string_inj:
  "error_to_string e = error_to_string f \<Longrightarrow> (\<forall>d. e \<noteq> Pools d) \<Longrightarrow> (\<forall>d. f \<noteq> Pools d) \<Longrightarrow> e = f"
  by (cases e; cases f) simp_all

text \<open>The characters an error text may not end in: the separator of aggregated errors.\<close>

lemma error_to_string_nonempty: "\<forall>d. e \<noteq> Pools d \<Longrightarrow> error_to_string e \<noteq> []"
  by (cases e) simp_all

lemma error_to_string_last:
  "\<forall>d. e \<noteq> Pools d \<Longrightarrow> last (error_to_string e) \<noteq> CHR '' ''"
  by (cases e) simp_all

section \<open>Constants\<close>

definition OPENED :: i32 where "OPENED = 0"
definition CLOSED :: i32 where "CLOSED = 1"

definition DEFAULT_ANTS_POOL_SIZE :: i32 where "DEFAULT_ANTS_POOL_SIZE = i32_max"

lemma OPENED_ne_CLOSED [simp]: "OPENED \<noteq> CLOSED" "CLOSED \<noteq> OPENED"
  by (simp_all add: OPENED_def CLOSED_def)

section \<open>The worker channel\<close>

text \<open>
  \<open>available_parallelism\<close> is the platform's answer: \<open>None\<close> when it cannot be queried, which the
  code reads as one processor. The \<open>OnceLock\<close> only caches the result.
\<close>

definition worker_chan_cap :: "nat option \<Rightarrow> nat" where
  "worker_chan_cap available_parallelism =
     (let parallelism = (case available_parallelism of None \<Rightarrow> 1 | Some n \<Rightarrow> n)
      in if parallelism = 1 then 0 else 1)"

lemma worker_chan_cap_le_1: "worker_chan_cap p \<le> 1"
  by (simp add: worker_chan_cap_def Let_def)

end
