(* ===== verification/Go_Time.thy ===== *)
theory Go_Time
  imports Ants_Error
begin

text \<open>
  Go's signed nanosecond duration (src/src/deps/gotime.rs): the newtype \<open>Duration(i64)\<close> with its
  constructors, its arithmetic and its conversion to the unsigned standard duration.
  \<open>SystemTime::now\<close> is an input of the model: its distance to the epoch and on which side it lies.
\<close>

datatype duration = Duration (as_nanos: i64)

text \<open>\<open>Duration\<close> derives its order from the nanosecond count.\<close>

instantiation duration :: linorder
begin

definition less_eq_duration :: "duration \<Rightarrow> duration \<Rightarrow> bool" where
  "less_eq_duration a b \<longleftrightarrow> as_nanos a \<le> as_nanos b"

definition less_duration :: "duration \<Rightarrow> duration \<Rightarrow> bool" where
  "less_duration a b \<longleftrightarrow> as_nanos a < as_nanos b"

instance
  by standard (auto simp: less_eq_duration_def less_duration_def duration.expand)

end

definition ZERO :: duration where "ZERO = Duration 0"
definition NANOSECOND :: duration where "NANOSECOND = Duration 1"
definition MICROSECOND :: duration where "MICROSECOND = Duration 1000"
definition MILLISECOND :: duration where "MILLISECOND = Duration 1000000"
definition SECOND :: duration where "SECOND = Duration 1000000000"

definition DEFAULT_CLEAN_INTERVAL_TIME :: duration where
  "DEFAULT_CLEAN_INTERVAL_TIME = SECOND"

definition from_nanos :: "i64 \<Rightarrow> duration" where
  "from_nanos nanos = Duration nanos"

definition from_millis :: "bool \<Rightarrow> i64 \<Rightarrow> duration option" where
  "from_millis oc millis = map_option Duration (arith_i64 oc (millis * 1000000))"

definition from_secs :: "bool \<Rightarrow> i64 \<Rightarrow> duration option" where
  "from_secs oc secs = map_option Duration (arith_i64 oc (secs * 1000000000))"

text \<open>The standard duration is an unsigned count; a value that is not positive becomes zero.\<close>

definition to_std :: "duration \<Rightarrow> nat" where
  "to_std d = (if as_nanos d \<le> 0 then 0 else nat (as_nanos d))"

definition duration_add :: "bool \<Rightarrow> duration \<Rightarrow> duration \<Rightarrow> duration option" where
  "duration_add oc a b = map_option Duration (arith_i64 oc (as_nanos a + as_nanos b))"


text \<open>Rust's \<open>/\<close> panics on a zero divisor and on \<open>MIN / -1\<close>.\<close>

definition duration_div :: "duration \<Rightarrow> i64 \<Rightarrow> duration option" where
  "duration_div a k =
     (if k = 0 then None
      else if \<not> in_i64 (trunc_div (as_nanos a) k) then None
      else Some (Duration (trunc_div (as_nanos a) k)))"

text \<open>
  \<open>now_unix_nano\<close>: \<open>Inr d\<close> is a clock \<open>d\<close> nanoseconds after the epoch, \<open>Inl d\<close> one before it; the
  casts to \<open>i64\<close> keep the low bits, the negation is checked.
\<close>

definition now_unix_nano :: "bool \<Rightarrow> nat + nat \<Rightarrow> i64 option" where
  "now_unix_nano oc clock =
     (case clock of
        Inr delta \<Rightarrow> Some (wrap_i64 (int delta))
      | Inl before \<Rightarrow> arith_i64 oc (- wrap_i64 (int before)))"

text \<open>
  \<open>sleep\<close> from the instant \<open>start\<close> on: the operating system wakes the thread \<open>late\<close> nanoseconds
  after the time is over, never before.
\<close>

definition sleep :: "duration \<Rightarrow> nat \<Rightarrow> nat \<Rightarrow> nat" where
  "sleep d start late = start + to_std d + late"

section \<open>Facts\<close>

lemma sleep_at_least: "0 \<le> as_nanos d \<Longrightarrow> int start + as_nanos d \<le> int (sleep d start late)"
  by (simp add: sleep_def to_std_def)

lemma duration_div_total:
  assumes "in_i64 (as_nanos a)" and "k \<noteq> 0" and "k \<noteq> - 1"
  shows "duration_div a k = Some (Duration (trunc_div (as_nanos a) k))"
proof -
  have "in_i64 (trunc_div (as_nanos a) k)"
  proof (cases "as_nanos a = - 9223372036854775808")
    case False
    with assms(1) trunc_div_abs_le [OF assms(2), of "as_nanos a"] show ?thesis
      by (auto simp: in_i64_def)
  next
    case True
    show ?thesis
    proof (cases "0 < k")
      case True
      then have "trunc_div (as_nanos a) k = - (9223372036854775808 div k)"
        by (simp add: trunc_div_def \<open>as_nanos a = _\<close>)
      moreover have "0 \<le> 9223372036854775808 div k" "9223372036854775808 div k \<le> 9223372036854775808"
        using True zdiv_mono2 [of 9223372036854775808 1 k]
        by (simp_all add: pos_imp_zdiv_nonneg_iff)
      ultimately show ?thesis by (simp add: in_i64_def)
    next
      case False
      with assms(2,3) have "2 \<le> \<bar>k\<bar>" by simp
      then have "\<bar>as_nanos a\<bar> div \<bar>k\<bar> \<le> \<bar>as_nanos a\<bar> div 2"
        by (intro zdiv_mono2) simp_all
      with True trunc_div_bounds [OF assms(2), of "as_nanos a"] show ?thesis
        by (auto simp: in_i64_def)
    qed
  qed
  with assms(2) show ?thesis by (simp add: duration_div_def)
qed

lemma to_std_mono: "a \<le> b \<Longrightarrow> to_std a \<le> to_std b"
  by (auto simp: to_std_def less_eq_duration_def)

lemma to_std_from_nanos: "0 \<le> n \<Longrightarrow> int (to_std (from_nanos n)) = n"
  by (simp add: to_std_def from_nanos_def)

lemma from_secs_millis:
  "in_i64 (s * 1000000000) \<Longrightarrow> from_secs oc s = from_millis oc (s * 1000)"
  by (simp add: from_secs_def from_millis_def mult.commute [of s])

section \<open>Properties\<close>



end
