(* ===== verification/Worker_Queue.thy ===== *)
theory Worker_Queue
  imports Go_Time
begin

text \<open>
  The contract of a container of idle workers (trait \<open>WorkerQueue\<close> of src/src/worker_queue.rs).
  The operations are parameters; \<open>parked q\<close> lists the workers the queue holds, the one inserted
  first in front. Every operation returns an option whose \<open>None\<close> is a panic. \<open>refresh\<close> reads the
  wall clock (\<open>now\<close>) and the workers' last-use times (\<open>lu\<close>), which are atomics outside the queue.
  \<open>searchable q\<close> bounds the size for which the 32-bit indices of the binary search are exact.
\<close>

locale worker_queue =
  fixes len :: "'q \<Rightarrow> usize"
    and is_empty :: "'q \<Rightarrow> bool"
    and insert :: "'w \<Rightarrow> 'q \<Rightarrow> (error + 'q) option"
    and detach :: "'q \<Rightarrow> ('w option \<times> 'q) option"
    and refresh :: "bool \<Rightarrow> ('w \<Rightarrow> i64) \<Rightarrow> i64 \<Rightarrow> duration \<Rightarrow> 'q \<Rightarrow> ('w list \<times> 'q) option"
    and reset :: "'q \<Rightarrow> ('w list \<times> 'q) option"
    and parked :: "'q \<Rightarrow> 'w list"
    and inv :: "'q \<Rightarrow> bool"
    and searchable :: "'q \<Rightarrow> bool"
  assumes len_parked: "inv q \<Longrightarrow> len q = length (parked q)"
    and is_empty_parked: "inv q \<Longrightarrow> is_empty q = (parked q = [])"
    and insert_law: "inv q \<Longrightarrow> insert w q = Some (Inl QueueIsFull)
        \<or> (\<exists>q'. insert w q = Some (Inr q') \<and> inv q' \<and> parked q' = parked q @ [w])"
    and detach_empty: "inv q \<Longrightarrow> parked q = [] \<Longrightarrow> detach q = Some (None, q)"
    and detach_law: "inv q \<Longrightarrow> parked q \<noteq> [] \<Longrightarrow>
        \<exists>w q'. detach q = Some (Some w, q') \<and> inv q'
          \<and> mset (parked q) = add_mset w (mset (parked q'))"
    and refresh_law: "inv q \<Longrightarrow> searchable q \<Longrightarrow> in_i64 (now - as_nanos d) \<Longrightarrow>
        \<exists>ex k q'. refresh oc lu now d q = Some (ex, q') \<and> inv q' \<and> k \<le> length (parked q)
          \<and> mset ex = mset (take k (parked q)) \<and> parked q' = drop k (parked q)
          \<and> (0 < k \<longrightarrow> lu (parked q ! (k - 1)) \<le> now - as_nanos d)
          \<and> (k < length (parked q) \<longrightarrow> now - as_nanos d < lu (parked q ! k))"
    and reset_law: "inv q \<Longrightarrow>
        \<exists>fin q'. reset q = Some (fin, q') \<and> inv q' \<and> parked q' = [] \<and> mset fin = mset (parked q)"
begin

lemma insert_Inr:
  assumes "inv q" and "insert w q = Some (Inr q')"
  shows "inv q' \<and> parked q' = parked q @ [w]"
  using insert_law [OF assms(1), of w] assms(2) by auto

lemma insert_Inl: "inv q \<Longrightarrow> insert w q = Some (Inl e) \<Longrightarrow> e = QueueIsFull"
  using insert_law [of q w] by auto

lemma insert_total: "inv q \<Longrightarrow> insert w q \<noteq> None"
  using insert_law [of q w] by auto

lemma detach_total: "inv q \<Longrightarrow> detach q \<noteq> None"
  using detach_empty [of q] detach_law [of q] by (cases "parked q = []") auto

lemma detach_Some:
  assumes "inv q" and "detach q = Some (Some w, q')"
  shows "inv q' \<and> mset (parked q) = add_mset w (mset (parked q'))"
proof (cases "parked q = []")
  case True
  with assms detach_empty [of q] show ?thesis by simp
next
  case False
  with assms detach_law [of q] show ?thesis by auto
qed

lemma detach_None:
  assumes "inv q" and "detach q = Some (None, q')"
  shows "parked q = [] \<and> q' = q"
proof (cases "parked q = []")
  case True
  with assms detach_empty [of q] show ?thesis by simp
next
  case False
  with assms detach_law [of q] show ?thesis by auto
qed

lemma refresh_conserves:
  assumes "inv q" and "searchable q" and "in_i64 (now - as_nanos d)"
    and "refresh oc lu now d q = Some (ex, q')"
  shows "inv q' \<and> mset (parked q) = mset ex + mset (parked q')"
  using refresh_law [OF assms(1-3), of oc lu] assms(4) by (auto simp: mset_take_drop)

lemma reset_Some:
  assumes "inv q" and "reset q = Some (fin, q')"
  shows "inv q' \<and> parked q' = [] \<and> mset fin = mset (parked q)"
  using reset_law [OF assms(1)] assms(2) by auto

text \<open>
  With the workers sorted by their last use, \<open>refresh\<close> removes exactly the expired ones.
\<close>

lemma refresh_exact:
  assumes inv: "inv q" and s: "searchable q" and r: "in_i64 (now - as_nanos d)"
    and srt: "sorted (map lu (parked q))"
  shows "\<exists>ex q'. refresh oc lu now d q = Some (ex, q') \<and> inv q'
    \<and> mset ex = filter_mset (\<lambda>w. lu w \<le> now - as_nanos d) (mset (parked q))
    \<and> parked q' = filter (\<lambda>w. now - as_nanos d < lu w) (parked q)"
proof -
  let ?xs = "parked q" and ?e = "now - as_nanos d"
  obtain ex k q' where ref: "refresh oc lu now d q = Some (ex, q')" "inv q'" "k \<le> length ?xs"
      "mset ex = mset (take k ?xs)" "parked q' = drop k ?xs"
    and left: "0 < k \<longrightarrow> lu (?xs ! (k - 1)) \<le> ?e"
    and right: "k < length ?xs \<longrightarrow> ?e < lu (?xs ! k)"
    using refresh_law [OF inv s r] by blast
  have pre: "lu (?xs ! i) \<le> ?e" if "i < k" for i
  proof -
    have "i \<le> k - 1" "k - 1 < length ?xs" using that ref(3) by auto
    then have "lu (?xs ! i) \<le> lu (?xs ! (k - 1))" by (rule sorted_key_nth_mono [OF srt])
    also have "\<dots> \<le> ?e" using left that by simp
    finally show ?thesis .
  qed
  have "takeWhile (\<lambda>w. lu w \<le> ?e) ?xs = take k ?xs" and "dropWhile (\<lambda>w. lu w \<le> ?e) ?xs = drop k ?xs"
    using split_point_takeWhile [of k ?xs "\<lambda>w. lu w \<le> ?e"] ref(3) pre right by auto
  then show ?thesis
    using ref takeWhile_sorted_filter [OF srt, of ?e] dropWhile_sorted_filter [OF srt, of ?e]
    by (auto simp flip: mset_filter)
qed

text \<open>Parking the most recently used worker keeps the queue sorted.\<close>

lemma insert_keeps_sorted:
  assumes "inv q" and "insert w q = Some (Inr q')"
    and "sorted (map lu (parked q))" and "\<forall>v \<in> set (parked q). lu v \<le> lu w"
  shows "sorted (map lu (parked q'))"
  using insert_Inr [OF assms(1,2)] assms(3,4) by (simp add: sorted_append)

end

text \<open>The two orders in which a queue hands its workers out again.\<close>

locale lifo_queue = worker_queue +
  assumes detach_last: "inv q \<Longrightarrow> detach q = Some (Some w, q') \<Longrightarrow> parked q = parked q' @ [w]"
begin

lemma insert_detach:
  assumes "inv q" and "insert w q = Some (Inr q')"
  shows "\<exists>q''. detach q' = Some (Some w, q'') \<and> inv q'' \<and> parked q'' = parked q"
proof -
  have q': "inv q'" "parked q' = parked q @ [w]"
    using insert_Inr [OF assms] by auto
  then obtain v q'' where d: "detach q' = Some (Some v, q'')" "inv q''"
    using detach_law [of q'] by auto
  have "parked q' = parked q'' @ [v]"
    using detach_last [OF q'(1) d(1)] .
  with q'(2) d show ?thesis by auto
qed

lemma detach_keeps_sorted:
  "inv q \<Longrightarrow> detach q = Some (Some w, q') \<Longrightarrow> sorted (map lu (parked q))
    \<Longrightarrow> sorted (map lu (parked q'))"
  using detach_last [of q w q'] by (simp add: sorted_append)

end

locale fifo_queue = worker_queue +
  assumes detach_first: "inv q \<Longrightarrow> detach q = Some (Some w, q') \<Longrightarrow> parked q = w # parked q'"
begin

lemma detach_keeps_sorted:
  "inv q \<Longrightarrow> detach q = Some (Some w, q') \<Longrightarrow> sorted (map lu (parked q))
    \<Longrightarrow> sorted (map lu (parked q'))"
  using detach_first [of q w q'] by simp

lemma insert_detach_nonempty:
  assumes "inv q" and "insert w q = Some (Inr q')" and "parked q = v # vs"
  shows "\<exists>q''. detach q' = Some (Some v, q'') \<and> inv q'' \<and> parked q'' = vs @ [w]"
proof -
  have q': "inv q'" "parked q' = v # vs @ [w]"
    using insert_Inr [OF assms(1,2)] assms(3) by auto
  then obtain u q'' where d: "detach q' = Some (Some u, q'')" "inv q''"
    using detach_law [of q'] by auto
  with detach_first [OF q'(1) d(1)] q'(2) show ?thesis by auto
qed

end

end
