(* ===== verification/Worker_Stack.thy ===== *)
theory Worker_Stack
  imports Worker_Queue
begin

text \<open>
  The default worker queue (src/src/worker_stack.rs): a LIFO stack that grows on demand. Workers
  are values of \<open>'w\<close>; \<open>lu\<close> is their \<open>last_used_time\<close>. The search loop is a partial function: its
  \<open>None\<close> is a panic or a loop that does not return, and \<open>stack_search_returns\<close> excludes both.
\<close>

section \<open>Operations\<close>

record 'w worker_stack =
  stack_items :: "'w list"

definition stack_new :: "i32 \<Rightarrow> 'w worker_stack" where
  "stack_new capacity = \<lparr>stack_items = []\<rparr>"

text \<open>\<open>self.items[mid as usize]\<close>: a negative \<open>mid\<close> is past the end of every vector.\<close>

definition stack_at :: "'w list \<Rightarrow> i32 \<Rightarrow> 'w option" where
  "stack_at items mid = (if mid < 0 then None else idx items (usize_of_i32 mid))"

partial_function (option) stack_search ::
  "bool \<Rightarrow> ('w \<Rightarrow> i64) \<Rightarrow> 'w list \<Rightarrow> i32 \<Rightarrow> i32 \<Rightarrow> i64 \<Rightarrow> i32 option" where
  "stack_search oc lu items l r expiry_time =
     (if l \<le> r then
        Option.bind (arith_i32 oc (r - l)) (\<lambda>width.
        Option.bind (arith_i32 oc (l + width div 2)) (\<lambda>mid.
        Option.bind (stack_at items mid) (\<lambda>w.
          if expiry_time < lu w
          then Option.bind (arith_i32 oc (mid - 1)) (\<lambda>r'.
                 stack_search oc lu items l r' expiry_time)
          else Option.bind (arith_i32 oc (mid + 1)) (\<lambda>l'.
                 stack_search oc lu items l' r expiry_time))))
      else Some r)"

definition stack_binary_search ::
  "bool \<Rightarrow> ('w \<Rightarrow> i64) \<Rightarrow> 'w worker_stack \<Rightarrow> i32 \<Rightarrow> i32 \<Rightarrow> i64 \<Rightarrow> i32 option" where
  "stack_binary_search oc lu s l r expiry_time = stack_search oc lu (stack_items s) l r expiry_time"

definition stack_len :: "'w worker_stack \<Rightarrow> usize" where
  "stack_len s = length (stack_items s)"

definition stack_is_empty :: "'w worker_stack \<Rightarrow> bool" where
  "stack_is_empty s = (stack_items s = [])"

definition stack_insert :: "'w \<Rightarrow> 'w worker_stack \<Rightarrow> (error + 'w worker_stack) option" where
  "stack_insert w s = Some (Inr (s\<lparr>stack_items := stack_items s @ [w]\<rparr>))"

definition stack_detach :: "'w worker_stack \<Rightarrow> ('w option \<times> 'w worker_stack) option" where
  "stack_detach s =
     (if stack_items s = [] then Some (None, s)
      else Some (Some (last (stack_items s)), s\<lparr>stack_items := butlast (stack_items s)\<rparr>))"

text \<open>\<open>drain(..n)\<close> panics past the end; \<open>n as i32\<close> keeps the low bits of the length.\<close>

definition stack_refresh ::
  "bool \<Rightarrow> ('w \<Rightarrow> i64) \<Rightarrow> i64 \<Rightarrow> duration \<Rightarrow> 'w worker_stack \<Rightarrow> ('w list \<times> 'w worker_stack) option"
where
  "stack_refresh oc lu now duration s =
     (let n = stack_len s in
      if n = 0 then Some ([], s)
      else do {
        expiry_time \<leftarrow> arith_i64 oc (now - as_nanos duration);
        r \<leftarrow> arith_i32 oc (wrap_i32 (int n) - 1);
        index \<leftarrow> stack_binary_search oc lu s 0 r expiry_time;
        if index = - 1 then Some ([], s)
        else do {
          k \<leftarrow> arith_i32 oc (index + 1);
          if 0 \<le> k \<and> nat k \<le> n
          then Some (take (nat k) (stack_items s), s\<lparr>stack_items := drop (nat k) (stack_items s)\<rparr>)
          else None
        }
      })"

text \<open>\<open>reset\<close> tells every worker to finish, in the order of the items, and clears the stack.\<close>

definition stack_reset :: "'w worker_stack \<Rightarrow> ('w list \<times> 'w worker_stack) option" where
  "stack_reset s = Some (stack_items s, s\<lparr>stack_items := []\<rparr>)"

section \<open>The binary search\<close>

text \<open>
  On any array, sorted or not, the search returns a boundary: the element at the result is at or
  before the threshold and the next one is after it.
\<close>

lemma stack_search_returns:
  assumes "0 \<le> l" and "r < int (length items)" and "l \<le> r + 1" and "int (length items) \<le> i32_max"
  shows "\<exists>k. stack_search oc lu items l r e = Some k \<and> l - 1 \<le> k \<and> k \<le> r
    \<and> (l \<le> k \<longrightarrow> lu (items ! nat k) \<le> e) \<and> (k < r \<longrightarrow> e < lu (items ! nat (k + 1)))"
  using assms
proof (induction "nat (r - l + 1)" arbitrary: l r rule: less_induct)
  case less
  show ?case
  proof (cases "l \<le> r")
    case False
    with less.prems show ?thesis by (simp add: stack_search.simps [of _ _ _ l])
  next
    case True
    define m where "m = l + (r - l) div 2"
    have m: "l \<le> m" "m \<le> r" using True by (simp_all add: m_def)
    have ranges: "in_i32 (r - l)" "in_i32 m" "in_i32 (m - 1)" "in_i32 (m + 1)"
      using less.prems m by (simp_all add: in_i32_def)
    have at: "stack_at items m = Some (items ! nat m)"
      using less.prems m ranges by (simp add: stack_at_def nat_less_iff)
    have unfolded: "stack_search oc lu items l r e =
      (if e < lu (items ! nat m) then stack_search oc lu items l (m - 1) e
       else stack_search oc lu items (m + 1) r e)"
      using True ranges at by (subst stack_search.simps) (simp flip: m_def)
    show ?thesis
    proof (cases "e < lu (items ! nat m)")
      case c: True
      obtain k where "stack_search oc lu items l (m - 1) e = Some k" "l - 1 \<le> k" "k \<le> m - 1"
        "l \<le> k \<longrightarrow> lu (items ! nat k) \<le> e" "k < m - 1 \<longrightarrow> e < lu (items ! nat (k + 1))"
        using less.hyps [of "m - 1" l] less.prems m by auto
      moreover have "e < lu (items ! nat (k + 1))" if "k = m - 1"
        using c that by simp
      ultimately show ?thesis using c m unfolded by fastforce
    next
      case c: False
      obtain k where "stack_search oc lu items (m + 1) r e = Some k" "m \<le> k" "k \<le> r"
        "m + 1 \<le> k \<longrightarrow> lu (items ! nat k) \<le> e" "k < r \<longrightarrow> e < lu (items ! nat (k + 1))"
        using less.hyps [of r "m + 1"] less.prems m by auto
      moreover have "lu (items ! nat k) \<le> e"
        using c calculation(2,4) by (cases "k = m") auto
      ultimately show ?thesis using c m unfolded by (intro exI [of _ k]) simp
    qed
  qed
qed

text \<open>Over a whole array the boundary is a split point.\<close>

lemma stack_search_split:
  assumes "int (length items) \<le> i32_max"
  shows "\<exists>k. stack_search oc lu items 0 (int (length items) - 1) e = Some (int k - 1)
    \<and> k \<le> length items \<and> (0 < k \<longrightarrow> lu (items ! (k - 1)) \<le> e)
    \<and> (k < length items \<longrightarrow> e < lu (items ! k))"
proof -
  let ?n = "length items"
  have "\<exists>r. stack_search oc lu items 0 (int ?n - 1) e = Some r \<and> 0 - 1 \<le> r \<and> r \<le> int ?n - 1
    \<and> (0 \<le> r \<longrightarrow> lu (items ! nat r) \<le> e) \<and> (r < int ?n - 1 \<longrightarrow> e < lu (items ! nat (r + 1)))"
    by (rule stack_search_returns) (use assms in simp_all)
  then obtain r where r: "stack_search oc lu items 0 (int ?n - 1) e = Some r"
    "- 1 \<le> r" "r \<le> int ?n - 1" "0 \<le> r \<longrightarrow> lu (items ! nat r) \<le> e"
    "r < int ?n - 1 \<longrightarrow> e < lu (items ! nat (r + 1))"
    by auto
  define k where "k = nat (r + 1)"
  have "r = int k - 1" using r(2) by (simp add: k_def)
  with r show ?thesis by (intro exI [of _ k]) (auto simp: nat_diff_distrib')
qed

section \<open>The contract\<close>

definition stack_searchable :: "'w worker_stack \<Rightarrow> bool" where
  "stack_searchable s \<longleftrightarrow> int (length (stack_items s)) \<le> i32_max"

lemma stack_refresh_split:
  assumes "stack_searchable s" and "in_i64 (now - as_nanos d)"
  shows "\<exists>k. stack_refresh oc lu now d s =
      Some (take k (stack_items s), s\<lparr>stack_items := drop k (stack_items s)\<rparr>)
    \<and> k \<le> length (stack_items s)
    \<and> (0 < k \<longrightarrow> lu (stack_items s ! (k - 1)) \<le> now - as_nanos d)
    \<and> (k < length (stack_items s) \<longrightarrow> now - as_nanos d < lu (stack_items s ! k))"
proof (cases "stack_items s = []")
  case True
  then show ?thesis by (intro exI [of _ 0]) (simp add: stack_refresh_def stack_len_def Let_def)
next
  case False
  let ?n = "length (stack_items s)"
  have range: "in_i32 (int ?n)" "in_i32 (int ?n - 1)"
    using assms(1) by (simp_all add: stack_searchable_def in_i32_def)
  obtain k where k: "stack_search oc lu (stack_items s) 0 (int ?n - 1) (now - as_nanos d) = Some (int k - 1)"
      "k \<le> ?n" "0 < k \<longrightarrow> lu (stack_items s ! (k - 1)) \<le> now - as_nanos d"
      "k < ?n \<longrightarrow> now - as_nanos d < lu (stack_items s ! k)"
    using stack_search_split [of "stack_items s" oc lu "now - as_nanos d"] assms(1)
    by (auto simp: stack_searchable_def)
  have "in_i32 (int k)" using k(2) range(1) by (simp add: in_i32_def)
  with k range assms(2) False show ?thesis
    by (intro exI [of _ k])
      (simp add: stack_refresh_def stack_len_def stack_binary_search_def Let_def)
qed

interpretation stack: lifo_queue stack_len stack_is_empty stack_insert stack_detach
    stack_refresh stack_reset stack_items "\<lambda>_. True" stack_searchable
proof (unfold_locales, goal_cases)
  case (6 q now d oc lu)
  then show ?case using stack_refresh_split [of q now d oc lu] by fastforce
qed (auto simp: stack_len_def stack_is_empty_def stack_insert_def stack_detach_def stack_reset_def
       split: if_splits intro!: exI simp: mset_butlast_last)

section \<open>Properties\<close>

text \<open>C28: The stack's binary search is correct: on workers sorted by their last use, with the whole
  stack as its range, it returns (without an overflow in either build) the index of the last expired
  worker, or minus one: exactly the workers up to that index were last used at or before the threshold.\<close>

theorem stack_binary_search_correct:
  assumes "stack_searchable s" and "sorted (map lu (stack_items s))"
  shows "\<exists>k \<le> stack_len s. stack_binary_search oc lu s 0 (int (stack_len s) - 1) e = Some (int k - 1)
    \<and> (\<forall>i < stack_len s. lu (stack_items s ! i) \<le> e \<longleftrightarrow> i < k)"
proof -
  let ?xs = "stack_items s"
  obtain k where k: "stack_search oc lu ?xs 0 (int (length ?xs) - 1) e = Some (int k - 1)" "k \<le> length ?xs"
    and left: "0 < k \<longrightarrow> lu (?xs ! (k - 1)) \<le> e" and right: "k < length ?xs \<longrightarrow> e < lu (?xs ! k)"
    using stack_search_split [of ?xs oc lu e] assms(1) by (auto simp: stack_searchable_def)
  have "lu (?xs ! i) \<le> e \<longleftrightarrow> i < k" if "i < length ?xs" for i
  proof (cases "i < k")
    case True
    then have "lu (?xs ! i) \<le> lu (?xs ! (k - 1))"
      using sorted_key_nth_mono [OF assms(2), of i "k - 1"] k(2) by simp
    also have "\<dots> \<le> e" using left True by simp
    finally show ?thesis using True by simp
  next
    case False
    then have "e < lu (?xs ! k)" "lu (?xs ! k) \<le> lu (?xs ! i)"
      using sorted_key_nth_mono [OF assms(2), of k i] right that by simp_all
    with False show ?thesis by simp
  qed
  with k show ?thesis by (auto simp: stack_binary_search_def stack_len_def)
qed

definition demo_stack :: "int worker_stack" where
  "demo_stack = \<lparr>stack_items = [10, 20, 30, 40]\<rparr>"

theorem stack_binary_search_correct_witness:
  "\<exists>k \<le> stack_len demo_stack. stack_binary_search True id demo_stack 0 (int (stack_len demo_stack) - 1) 25 = Some (int k - 1)
    \<and> (\<forall>i < stack_len demo_stack. id (stack_items demo_stack ! i) \<le> 25 \<longleftrightarrow> i < k)"
  by (rule stack_binary_search_correct) (simp_all add: stack_searchable_def demo_stack_def)

end
