(* ===== verification/Loop_Queue.thy ===== *)
theory Loop_Queue
  imports Worker_Stack
begin

text \<open>
  The pre-allocated worker queue (src/src/worker_loop_queue.rs): a fixed-capacity ring. \<open>lq_rep q xs\<close>
  says that the ring \<open>q\<close> holds the workers \<open>xs\<close>, the next one to leave first; every operation is
  shown to act on \<open>xs\<close> as a bounded FIFO queue. The ring's binary search is shown to be the stack's
  search on \<open>xs\<close>, which carries the facts of the stack over.
\<close>

section \<open>Operations\<close>

record 'w loop_queue =
  items :: "'w option list"
  head :: usize
  tail :: usize
  cap :: usize
  is_full :: bool

definition lq_new :: "i32 \<Rightarrow> 'w loop_queue option" where
  "lq_new n =
     (if n \<le> 0 then None
      else Some \<lparr>items = replicate (usize_of_i32 n) None, head = 0, tail = 0,
                 cap = usize_of_i32 n, is_full = False\<rparr>)"

definition lq_is_empty :: "'w loop_queue \<Rightarrow> bool" where
  "lq_is_empty q \<longleftrightarrow> head q = tail q \<and> \<not> is_full q"

definition lq_len :: "'w loop_queue \<Rightarrow> usize" where
  "lq_len q =
     (if cap q = 0 \<or> lq_is_empty q then 0
      else if head q = tail q \<and> is_full q then cap q
      else if head q < tail q then tail q - head q
      else cap q - head q + tail q)"

definition lq_last_used :: "('w \<Rightarrow> i64) \<Rightarrow> 'w loop_queue \<Rightarrow> usize \<Rightarrow> i64 option" where
  "lq_last_used lu q index =
     map_option (\<lambda>slot. case slot of None \<Rightarrow> 0 | Some w \<Rightarrow> lu w) (idx (items q) index)"

partial_function (option) lq_search ::
  "bool \<Rightarrow> ('w \<Rightarrow> i64) \<Rightarrow> 'w loop_queue \<Rightarrow> i64 \<Rightarrow> i32 \<Rightarrow> i32 \<Rightarrow> i32 option" where
  "lq_search oc lu q expiry_time l r =
     (if l \<le> r then
        Option.bind (arith_i32 oc (r - l)) (\<lambda>width.
        Option.bind (arith_i32 oc (l + width div 2)) (\<lambda>mid.
        Option.bind (mod_usize (usize_of_i32 mid + head q) (length (items q))) (\<lambda>tmid.
        Option.bind (lq_last_used lu q tmid) (\<lambda>t.
          if expiry_time < t
          then Option.bind (arith_i32 oc (mid - 1)) (\<lambda>r'. lq_search oc lu q expiry_time l r')
          else Option.bind (arith_i32 oc (mid + 1)) (\<lambda>l'. lq_search oc lu q expiry_time l' r)))))
      else Some r)"

definition lq_binary_search :: "bool \<Rightarrow> ('w \<Rightarrow> i64) \<Rightarrow> 'w loop_queue \<Rightarrow> i64 \<Rightarrow> i32 option" where
  "lq_binary_search oc lu q expiry_time =
     (let n = length (items q) in
      if lq_is_empty q then Some (- 1)
      else do {
        first \<leftarrow> lq_last_used lu q (head q);
        if expiry_time < first then Some (- 1)
        else do {
          a \<leftarrow> sub_usize oc (tail q + n) 1;
          b \<leftarrow> sub_usize oc a (head q);
          m \<leftarrow> mod_usize b n;
          r \<leftarrow> lq_search oc lu q expiry_time 0 (wrap_i32 (int m));
          s \<leftarrow> arith_i32 oc (r + wrap_i32 (int (head q)));
          t \<leftarrow> arith_i32 oc (s + wrap_i32 (int n));
          rem_i32 t (wrap_i32 (int n))
        }
      })"

definition lq_insert :: "'w \<Rightarrow> 'w loop_queue \<Rightarrow> (error + 'w loop_queue) option" where
  "lq_insert w q =
     (if is_full q then Some (Inl QueueIsFull)
      else do {
        slots \<leftarrow> set_idx (items q) (tail q) (Some w);
        t \<leftarrow> mod_usize (tail q + 1) (cap q);
        Some (Inr (q\<lparr>items := slots, tail := t, is_full := (if t = head q then True else is_full q)\<rparr>))
      })"

definition lq_detach :: "'w loop_queue \<Rightarrow> ('w option \<times> 'w loop_queue) option" where
  "lq_detach q =
     (if lq_is_empty q then Some (None, q)
      else do {
        worker \<leftarrow> idx (items q) (head q);
        h \<leftarrow> mod_usize (head q + 1) (cap q);
        Some (worker, q\<lparr>items := (items q)[head q := None], head := h, is_full := False\<rparr>)
      })"

text \<open>
  \<open>take_slots a b slots\<close> is the loop over \<open>items[a..b]\<close> that takes every slot: the workers found,
  in order, and the slots with that range emptied. A range outside the vector panics.
\<close>

definition take_slots :: "usize \<Rightarrow> usize \<Rightarrow> 'w option list \<Rightarrow> ('w list \<times> 'w option list) option" where
  "take_slots a b slots =
     (if a \<le> b \<and> b \<le> length slots
      then Some (List.map_filter id (take (b - a) (drop a slots)),
                 take a slots @ replicate (b - a) None @ drop b slots)
      else None)"

text \<open>
  The workers up to the true position \<open>index\<close>: one segment, or the segment that starts at zero
  followed by the one that starts at the head.
\<close>

definition lq_take_expired :: "'w loop_queue \<Rightarrow> usize \<Rightarrow> ('w list \<times> 'w option list) option" where
  "lq_take_expired q index =
     (if head q \<le> index then take_slots (head q) (index + 1) (items q)
      else do {
        (front, slots) \<leftarrow> take_slots 0 (index + 1) (items q);
        (back, slots) \<leftarrow> take_slots (head q) (length slots) slots;
        Some (front @ back, slots)
      })"

definition lq_refresh ::
  "bool \<Rightarrow> ('w \<Rightarrow> i64) \<Rightarrow> i64 \<Rightarrow> duration \<Rightarrow> 'w loop_queue \<Rightarrow> ('w list \<times> 'w loop_queue) option" where
  "lq_refresh oc lu now duration q = do {
     expiry_time \<leftarrow> arith_i64 oc (now - as_nanos duration);
     found \<leftarrow> lq_binary_search oc lu q expiry_time;
     if found = - 1 then Some ([], q)
     else do {
       let index = usize_of_i32 found;
       (expiry, slots) \<leftarrow> lq_take_expired q index;
       h \<leftarrow> mod_usize (index + 1) (cap q);
       Some (expiry, q\<lparr>items := slots, head := h,
                        is_full := (if expiry \<noteq> [] then False else is_full q)\<rparr>)
     }
   }"

text \<open>
  \<open>reset\<close> detaches until no worker comes out, telling each one to finish. Every worker that comes
  out empties a slot, so the loop ends whatever the ring holds.
\<close>

definition occupied :: "'w loop_queue \<Rightarrow> nat" where
  "occupied q = length (filter (\<lambda>slot. slot \<noteq> None) (items q))"

lemma lq_detach_occupied:
  "lq_detach q = Some (Some w, q') \<Longrightarrow> occupied q' < occupied q"
proof -
  assume "lq_detach q = Some (Some w, q')"
  then have "head q < length (items q)" "items q ! head q = Some w" "items q' = (items q)[head q := None]"
    by (auto simp: lq_detach_def idx_def mod_usize_def split: if_splits)
  then show ?thesis by (simp only: occupied_def length_filter_clear option.distinct not_False_eq_True)
qed

function lq_drain :: "'w loop_queue \<Rightarrow> ('w list \<times> 'w loop_queue) option" where
  "lq_drain q =
     (case lq_detach q of
        None \<Rightarrow> None
      | Some (None, q') \<Rightarrow> Some ([], q')
      | Some (Some w, q') \<Rightarrow> map_option (\<lambda>(ws, q''). (w # ws, q'')) (lq_drain q'))"
  by pat_completeness auto
termination
  by (relation "measure occupied") (auto simp: lq_detach_occupied)

declare lq_drain.simps [simp del]

definition lq_reset :: "'w loop_queue \<Rightarrow> ('w list \<times> 'w loop_queue) option" where
  "lq_reset q =
     (if lq_is_empty q then Some ([], q)
      else map_option (\<lambda>(ws, q'). (ws, q'\<lparr>head := 0, tail := 0\<rparr>)) (lq_drain q))"

section \<open>What a ring represents\<close>

definition lq_rep :: "'w loop_queue \<Rightarrow> 'w list \<Rightarrow> bool" where
  "lq_rep q xs \<longleftrightarrow> 0 < cap q \<and> length (items q) = cap q \<and> head q < cap q
     \<and> length xs \<le> cap q \<and> tail q = (head q + length xs) mod cap q
     \<and> is_full q = (length xs = cap q)
     \<and> (\<forall>i < cap q. items q ! ((head q + i) mod cap q) = (if i < length xs then Some (xs ! i) else None))"

definition lq_parked :: "'w loop_queue \<Rightarrow> 'w list" where
  "lq_parked q = map (\<lambda>i. the (items q ! ((head q + i) mod cap q))) [0..<lq_len q]"

definition lq_inv :: "'w loop_queue \<Rightarrow> bool" where
  "lq_inv q \<longleftrightarrow> int (cap q) \<le> i32_max \<and> lq_rep q (lq_parked q)"

lemma lq_repI:
  assumes "0 < cap q" "length (items q) = cap q" "head q < cap q" "length xs \<le> cap q"
    and "tail q = (head q + length xs) mod cap q" "is_full q = (length xs = cap q)"
    and "\<And>i. i < cap q \<Longrightarrow>
      items q ! ((head q + i) mod cap q) = (if i < length xs then Some (xs ! i) else None)"
  shows "lq_rep q xs"
  using assms by (simp add: lq_rep_def)

lemma lq_rep_slot:
  "lq_rep q xs \<Longrightarrow> i < cap q \<Longrightarrow>
     items q ! ((head q + i) mod cap q) = (if i < length xs then Some (xs ! i) else None)"
  by (simp only: lq_rep_def)

lemma lq_rep_tail: "lq_rep q xs \<Longrightarrow> tail q = (head q + length xs) mod cap q"
  by (simp only: lq_rep_def)

lemma lq_rep_shape:
  "lq_rep q xs \<Longrightarrow> 0 < cap q \<and> length (items q) = cap q \<and> head q < cap q \<and> length xs \<le> cap q
     \<and> tail q = (if head q + length xs < cap q then head q + length xs else head q + length xs - cap q)
     \<and> is_full q = (length xs = cap q)"
proof -
  assume rep: "lq_rep q xs"
  then have "0 < cap q" "length (items q) = cap q" "head q < cap q" "length xs \<le> cap q"
    "is_full q = (length xs = cap q)"
    unfolding lq_rep_def by blast+
  then show ?thesis
    using ring_pos [of "head q" "cap q" "length xs"] lq_rep_tail [OF rep] by simp
qed

lemma lq_rep_head_tail: "lq_rep q xs \<Longrightarrow> head q = tail q \<longleftrightarrow> length xs = 0 \<or> length xs = cap q"
  by (drule lq_rep_shape, elim conjE, cases "head q + length xs < cap q") (simp only: if_True if_False, arith)+

lemma lq_rep_empty: "lq_rep q xs \<Longrightarrow> lq_is_empty q = (xs = [])"
proof -
  assume rep: "lq_rep q xs"
  have "0 < cap q" "is_full q = (length xs = cap q)" using lq_rep_shape [OF rep] by blast+
  then show ?thesis using lq_rep_head_tail [OF rep] by (auto simp: lq_is_empty_def)
qed

lemma lq_rep_len:
  assumes rep: "lq_rep q xs"
  shows "lq_len q = length xs"
proof (cases "xs = [] \<or> length xs = cap q")
  case True
  have "is_full q = (length xs = cap q)" using lq_rep_shape [OF rep] by blast
  with True show ?thesis
    using lq_rep_empty [OF rep] lq_rep_head_tail [OF rep] by (auto simp: lq_len_def)
next
  case False
  then have "head q \<noteq> tail q" using lq_rep_head_tail [OF rep] by simp
  moreover have cap: "0 < cap q" "head q < cap q" "length xs \<le> cap q"
    using lq_rep_shape [OF rep] by blast+
  ultimately have len: "lq_len q = (if head q < tail q then tail q - head q else cap q - head q + tail q)"
    using False lq_rep_empty [OF rep] by (simp add: lq_len_def)
  have "tail q = (if head q + length xs < cap q then head q + length xs else head q + length xs - cap q)"
    using lq_rep_shape [OF rep] by blast
  with len cap False show ?thesis by (cases "head q + length xs < cap q") auto
qed

lemma lq_rep_parked:
  assumes "lq_rep q xs"
  shows "lq_parked q = xs"
  using assms lq_rep_len [OF assms] by (auto simp: lq_parked_def lq_rep_def intro!: nth_equalityI)

lemma lq_inv_rep: "lq_inv q \<Longrightarrow> lq_rep q (lq_parked q)"
  by (simp add: lq_inv_def)

lemma lq_rep_inv: "lq_rep q xs \<Longrightarrow> int (cap q) \<le> i32_max \<Longrightarrow> lq_inv q"
  using lq_rep_parked [of q xs] by (simp add: lq_inv_def)

lemma lq_rep_nth:
  "lq_rep q xs \<Longrightarrow> i < length xs \<Longrightarrow> items q ! ((head q + i) mod cap q) = Some (xs ! i)"
  by (simp add: lq_rep_def)

lemma lq_new_rep:
  "0 < n \<Longrightarrow> n \<le> i32_max \<Longrightarrow> \<exists>q. lq_new n = Some q \<and> lq_rep q [] \<and> int (cap q) = n"
  by (simp add: lq_new_def lq_rep_def in_i32_def)

section \<open>Insert and detach\<close>

lemma lq_insert_full: "lq_rep q xs \<Longrightarrow> length xs = cap q \<Longrightarrow> lq_insert w q = Some (Inl QueueIsFull)"
  by (simp add: lq_insert_def lq_rep_def)

lemma lq_insert_rep:
  assumes rep: "lq_rep q xs" and room: "length xs < cap q"
  shows "\<exists>q'. lq_insert w q = Some (Inr q') \<and> lq_rep q' (xs @ [w]) \<and> cap q' = cap q"
proof -
  have tail: "tail q < cap q" using rep by (simp add: lq_rep_def)
  have next_pos: "(tail q + 1) mod cap q = (head q + Suc (length xs)) mod cap q"
    using rep by (simp add: lq_rep_def mod_Suc_eq)
  have full: "(head q + Suc (length xs)) mod cap q = head q \<longleftrightarrow> Suc (length xs) = cap q"
    using lq_rep_shape [OF rep] room by (auto simp: ring_pos_Suc split: if_splits)
  have slot: "(head q + i) mod cap q = tail q \<longleftrightarrow> i = length xs" if "i < cap q" for i
    using rep room that by (simp add: lq_rep_def ring_pos_inj)
  let ?q = "q\<lparr>items := (items q)[tail q := Some w], tail := (tail q + 1) mod cap q,
      is_full := (if (tail q + 1) mod cap q = head q then True else is_full q)\<rparr>"
  have "lq_insert w q = Some (Inr ?q)"
    using rep room tail by (simp add: lq_insert_def lq_rep_def)
  moreover have "lq_rep ?q (xs @ [w])"
  proof (rule lq_repI)
    fix i assume "i < cap ?q"
    then have i: "i < cap q" by simp
    show "items ?q ! ((head ?q + i) mod cap ?q) = (if i < length (xs @ [w]) then Some ((xs @ [w]) ! i) else None)"
    proof (cases "i = length xs")
      case True
      then show ?thesis using slot [OF i] tail lq_rep_shape [OF rep] by simp
    next
      case False
      then have "items ?q ! ((head q + i) mod cap q) = items q ! ((head q + i) mod cap q)"
        using slot [OF i] by simp
      with False i show ?thesis using lq_rep_slot [OF rep i] by (simp add: nth_append)
    qed
  qed (use lq_rep_shape [OF rep] room full next_pos in simp_all)
  ultimately show ?thesis by auto
qed

lemma lq_detach_rep_Nil: "lq_rep q [] \<Longrightarrow> lq_detach q = Some (None, q)"
  using lq_rep_empty [of q "[]"] by (simp add: lq_detach_def)

lemma lq_detach_rep_Cons:
  assumes rep: "lq_rep q (x # xs)"
  shows "\<exists>q'. lq_detach q = Some (Some x, q') \<and> lq_rep q' xs \<and> cap q' = cap q"
proof -
  let ?n = "cap q" and ?h = "Suc (head q) mod cap q"
  let ?q = "q\<lparr>items := (items q)[head q := None], head := ?h, is_full := False\<rparr>"
  have h: "head q < ?n" "length (items q) = ?n" "length xs < ?n"
    using rep by (auto simp: lq_rep_def)
  have first: "items q ! head q = Some x"
    using lq_rep_nth [OF rep, of 0] h by simp
  have pos: "(?h + i) mod ?n = Suc (head q + i) mod ?n" for i
    using mod_add_left_eq [of "Suc (head q)" ?n i] by simp
  have last: "Suc (head q + i) mod ?n = head q \<longleftrightarrow> Suc i = ?n" if "i < ?n" for i
    using h that by (auto simp: ring_pos_Suc split: if_splits)
  have "lq_detach q = Some (Some x, ?q)"
    using h first lq_rep_empty [OF rep] by (simp add: lq_detach_def)
  moreover have "lq_rep ?q xs"
  proof (rule lq_repI)
    fix i assume "i < cap ?q"
    then have i: "i < ?n" by simp
    show "items ?q ! ((head ?q + i) mod cap ?q) = (if i < length xs then Some (xs ! i) else None)"
    proof (cases "Suc i = ?n")
      case True
      then show ?thesis using last [OF i] h by (simp add: pos)
    next
      case False
      then have "items ?q ! ((?h + i) mod ?n) = items q ! (Suc (head q + i) mod ?n)"
        using last [OF i] by (simp add: pos)
      moreover have "\<dots> = (if Suc i < length (x # xs) then Some ((x # xs) ! Suc i) else None)"
        using lq_rep_slot [OF rep, of "Suc i"] False i by simp
      ultimately show ?thesis by simp
    qed
  qed (use lq_rep_shape [OF rep] lq_rep_tail [OF rep] pos [of "length xs"] in simp_all)
  ultimately show ?thesis by auto
qed

section \<open>Reset\<close>

lemma lq_drain_rep:
  "lq_rep q xs \<Longrightarrow> \<exists>q'. lq_drain q = Some (xs, q') \<and> lq_rep q' [] \<and> cap q' = cap q"
proof (induction xs arbitrary: q)
  case Nil
  then show ?case by (simp add: lq_drain.simps [of q] lq_detach_rep_Nil)
next
  case (Cons x xs)
  obtain q1 where q1: "lq_detach q = Some (Some x, q1)" "lq_rep q1 xs" "cap q1 = cap q"
    using lq_detach_rep_Cons [OF Cons.prems] by auto
  with Cons.IH [OF q1(2)] show ?case by (auto simp: lq_drain.simps [of q])
qed

lemma lq_reset_rep:
  assumes "lq_rep q xs"
  shows "\<exists>q'. lq_reset q = Some (xs, q') \<and> lq_rep q' [] \<and> cap q' = cap q"
proof (cases "xs = []")
  case True
  with assms lq_rep_empty [OF assms] show ?thesis by (simp add: lq_reset_def)
next
  case False
  obtain q' where q': "lq_drain q = Some (xs, q')" "lq_rep q' []" "cap q' = cap q"
    using lq_drain_rep [OF assms] by auto
  have "items q' ! i = None" if "i < cap q'" for i
  proof -
    have "(head q' + (if head q' \<le> i then i - head q' else i + cap q' - head q')) mod cap q' = i"
      using q'(2) that by (auto simp: lq_rep_def ring_pos)
    moreover have "(if head q' \<le> i then i - head q' else i + cap q' - head q') < cap q'"
      using q'(2) that by (auto simp: lq_rep_def)
    ultimately show ?thesis using q'(2) by (metis lq_rep_def less_nat_zero_code list.size(3))
  qed
  then have "lq_rep (q'\<lparr>head := 0, tail := 0\<rparr>) []"
    using q'(2) by (auto simp: lq_rep_def)
  with q' False lq_rep_empty [OF assms] show ?thesis by (auto simp: lq_reset_def)
qed

section \<open>The binary search of the ring\<close>

lemma lq_last_used_rep:
  assumes "lq_rep q xs" and "i < length xs"
  shows "lq_last_used lu q ((i + head q) mod cap q) = Some (lu (xs ! i))"
  using assms lq_rep_shape [OF assms(1)] lq_rep_slot [OF assms(1), of i]
  by (simp add: lq_last_used_def add.commute)

text \<open>The ring's search on mapped positions is the stack's search on the represented list.\<close>

lemma lq_search_stack:
  assumes rep: "lq_rep q xs" and small: "int (cap q) \<le> i32_max"
    and "0 \<le> l" and "r < int (length xs)" and "l \<le> r + 1"
  shows "lq_search oc lu q e l r = stack_search oc lu xs l r e"
  using assms(3-)
proof (induction "nat (r - l + 1)" arbitrary: l r rule: less_induct)
  case less
  show ?case
  proof (cases "l \<le> r")
    case False
    then show ?thesis by (simp add: stack_search.simps [of _ _ _ l] lq_search.simps [of _ _ _ _ l])
  next
    case True
    define m where "m = l + (r - l) div 2"
    have m: "l \<le> m" "m \<le> r" using True by (simp_all add: m_def)
    have len: "length xs \<le> cap q" "length (items q) = cap q" "0 < cap q"
      using lq_rep_shape [OF rep] by blast+
    then have ranges: "in_i32 (r - l)" "in_i32 m" "in_i32 (m - 1)" "in_i32 (m + 1)"
      using less.prems m small by (simp_all add: in_i32_def)
    have i: "nat m < length xs" using less.prems m by (simp add: nat_less_iff)
    have at: "stack_at xs m = Some (xs ! nat m)"
      using less.prems m ranges i by (simp add: stack_at_def)
    have used: "lq_last_used lu q ((nat m + head q) mod cap q) = Some (lu (xs ! nat m))"
      using rep i by (rule lq_last_used_rep)
    have "lq_search oc lu q e l (m - 1) = stack_search oc lu xs l (m - 1) e"
      and "lq_search oc lu q e (m + 1) r = stack_search oc lu xs (m + 1) r e"
      using less.hyps [of "m - 1" l] less.hyps [of r "m + 1"] less.prems m by simp_all
    then show ?thesis
      using True ranges at used len less.prems m
      by (subst stack_search.simps, subst lq_search.simps) (simp flip: m_def)
  qed
qed

definition lq_searchable :: "'w loop_queue \<Rightarrow> bool" where
  "lq_searchable q \<longleftrightarrow> int (cap q) \<le> 715827883"

lemma lq_binary_search_rep:
  assumes rep: "lq_rep q xs" and small: "lq_searchable q"
  shows "\<exists>k. lq_binary_search oc lu q e =
      Some (if k = 0 then - 1 else int ((head q + (k - 1)) mod cap q))
    \<and> k \<le> length xs \<and> (0 < k \<longrightarrow> lu (xs ! (k - 1)) \<le> e) \<and> (k < length xs \<longrightarrow> e < lu (xs ! k))"
proof (cases "xs = [] \<or> e < lu (xs ! 0)")
  case True
  have "0 < cap q" "head q < cap q" using lq_rep_shape [OF rep] by blast+
  then have "lq_last_used lu q (head q) = Some (lu (xs ! 0))" if "xs \<noteq> []"
    using lq_last_used_rep [OF rep, of 0 lu] that by simp
  with True lq_rep_empty [OF rep] show ?thesis
    by (intro exI [of _ 0]) (auto simp: lq_binary_search_def Let_def)
next
  case False
  have sh: "0 < cap q" "length (items q) = cap q" "head q < cap q" "length xs \<le> cap q"
    using lq_rep_shape [OF rep] by blast+
  have ne: "0 < length xs" using False by simp
  have n: "int (cap q) \<le> 715827883" using small by (simp add: lq_searchable_def)
  have first: "lq_last_used lu q (head q) = Some (lu (xs ! 0))"
    using lq_last_used_rep [OF rep ne, of lu] sh by simp
  have right: "(tail q + cap q - 1 - head q) mod cap q = length xs - 1"
  proof -
    have "tail q = (if head q + length xs < cap q then head q + length xs else head q + length xs - cap q)"
      using lq_rep_shape [OF rep] by blast
    then have "tail q + cap q - 1 - head q = (if head q + length xs < cap q then cap q + (length xs - 1) else length xs - 1)"
      using sh ne by (cases "length xs") auto
    then show ?thesis using sh ne by auto
  qed
  have "int (length xs) \<le> i32_max" "int (cap q) \<le> i32_max" using sh n by simp_all
  then obtain k where k: "stack_search oc lu xs 0 (int (length xs) - 1) e = Some (int k - 1)"
      "k \<le> length xs" "0 < k \<longrightarrow> lu (xs ! (k - 1)) \<le> e" "k < length xs \<longrightarrow> e < lu (xs ! k)"
    using stack_search_split [of xs oc lu e] by auto
  have kpos: "0 < k" using k(4) ne False by (cases k) auto
  have search: "lq_search oc lu q e 0 (int (length xs) - 1) = Some (int k - 1)"
    using lq_search_stack [OF rep \<open>int (cap q) \<le> i32_max\<close>, of 0 "int (length xs) - 1" oc lu e] k(1) ne
    by simp
  have ranges: "in_i32 (int (length xs) - 1)" "in_i32 (int (head q))" "in_i32 (int (cap q))"
      "in_i32 (int k - 1 + int (head q))" "in_i32 (int k - 1 + int (head q) + int (cap q))"
    using sh n k(2) by (simp_all add: in_i32_def)
  have sum: "(int k - 1 + int (head q) + int (cap q)) mod int (cap q) = int ((head q + (k - 1)) mod cap q)"
  proof -
    have "int k - 1 + int (head q) + int (cap q) = int (head q + (k - 1)) + int (cap q)"
      using kpos by simp
    then show ?thesis by (simp only: mod_add_self2 of_nat_mod)
  qed
  have rem: "rem_i32 (int k - 1 + int (head q) + int (cap q)) (int (cap q))
      = Some (int ((head q + (k - 1)) mod cap q))"
    using sum kpos sh by (simp only: rem_i32_def trunc_mod_nonneg) simp
  have last: "int (length xs - Suc 0) = int (length xs) - 1" using ne by (cases xs) simp_all
  have "lq_binary_search oc lu q e = Some (int ((head q + (k - 1)) mod cap q))"
    using False lq_rep_empty [OF rep] first right search ranges rem sh ne
    by (simp add: lq_binary_search_def Let_def last)
  with kpos k show ?thesis by (intro exI [of _ k]) simp
qed

section \<open>Refresh\<close>

lemma take_slots_range:
  assumes "a \<le> b" and "b \<le> length slots"
  shows "take_slots a b slots = Some (List.map_filter (\<lambda>p. slots ! p) [a..<b],
    map (\<lambda>p. if a \<le> p \<and> p < b then None else slots ! p) [0..<length slots])"
proof -
  have "take (b - a) (drop a slots) = map ((!) slots) [a..<b]"
    using assms by (intro nth_equalityI) auto
  then have "List.map_filter id (take (b - a) (drop a slots)) = List.map_filter (\<lambda>p. slots ! p) [a..<b]"
    by (simp add: map_filter_id_map)
  moreover have "take a slots @ replicate (b - a) None @ drop b slots
      = map (\<lambda>p. if a \<le> p \<and> p < b then None else slots ! p) [0..<length slots]"
    using assms by (intro nth_equalityI) (auto simp: nth_append min_def)
  ultimately show ?thesis using assms by (simp add: take_slots_def)
qed

text \<open>The workers found at consecutive occupied positions.\<close>

lemma map_filter_slots:
  assumes "\<And>i. i < n \<Longrightarrow> slots ! (a + i) = Some (xs ! (j + i))" and "j + n \<le> length xs"
  shows "List.map_filter (\<lambda>p. slots ! p) [a..<a + n] = take n (drop j xs)"
  using assms
proof (induction n)
  case (Suc n)
  then have "List.map_filter (\<lambda>p. slots ! p) [a..<a + n] = take n (drop j xs)"
    and "slots ! (a + n) = Some (xs ! (j + n))" by simp_all
  then show ?case using Suc.prems(2)
    by (simp add: map_filter_append map_filter_simps take_Suc_conv_app_nth)
qed (simp add: map_filter_simps)

lemma lq_take_expired_rep:
  assumes rep: "lq_rep q xs" and k: "0 < k" "k \<le> length xs"
  shows "lq_take_expired q ((head q + (k - 1)) mod cap q) = Some
    (if head q + k \<le> cap q then take k xs
       else take (head q + k - cap q) (drop (cap q - head q) xs) @ take (cap q - head q) xs,
     map (\<lambda>p. if (if head q + k \<le> cap q then head q \<le> p \<and> p < head q + k
                  else p < head q + k - cap q \<or> head q \<le> p)
              then None else items q ! p) [0..<cap q])"
proof -
  let ?n = "cap q" and ?h = "head q"
  have sh: "0 < ?n" "length (items q) = ?n" "?h < ?n" "length xs \<le> ?n"
    using lq_rep_shape [OF rep] by blast+
  have slot: "items q ! (if ?h + i < ?n then ?h + i else ?h + i - ?n) = Some (xs ! i)"
    if "i < length xs" for i
    using lq_rep_nth [OF rep that] ring_pos [of ?h ?n i] sh that by simp
  show ?thesis
  proof (cases "?h + k \<le> ?n")
    case True
    then have "(?h + (k - 1)) mod ?n = ?h + k - 1" using k(1) by simp
    moreover have "List.map_filter (\<lambda>p. items q ! p) [?h..<?h + k] = take k (drop 0 xs)"
    proof (rule map_filter_slots)
      fix i assume "i < k"
      then show "items q ! (?h + i) = Some (xs ! (0 + i))" using slot [of i] k True by simp
    qed (use k in simp)
    moreover have "?h \<le> ?h + k - 1" "?h + k - 1 + 1 = ?h + k" using k(1) by simp_all
    ultimately show ?thesis
      using True sh by (simp only: lq_take_expired_def) (simp add: take_slots_range)
  next
    case False
    define j where "j = ?h + k - ?n"
    have j: "j \<le> ?h" "0 < j" "?n - ?h + j = k" using False k(2) sh by (simp_all add: j_def)
    have index: "(?h + (k - 1)) mod ?n = j - 1"
    proof -
      have "\<not> ?h + (k - 1) < ?n" "k - 1 \<le> ?n" using False sh k by simp_all
      then have "(?h + (k - 1)) mod ?n = ?h + (k - 1) - ?n" using ring_pos [OF sh(3)] by simp
      with k(1) show ?thesis by (simp add: j_def)
    qed
    have front: "List.map_filter (\<lambda>p. items q ! p) [0..<0 + j] = take j (drop (?n - ?h) xs)"
    proof (rule map_filter_slots)
      fix i assume "i < j"
      then show "items q ! (0 + i) = Some (xs ! (?n - ?h + i))"
        using slot [of "?n - ?h + i"] j k(2) sh by (simp split: if_splits)
    qed (use j k in simp)
    define slots where "slots = map (\<lambda>p. if 0 \<le> p \<and> p < j then None else items q ! p) [0..<?n]"
    have one: "take_slots 0 j (items q) = Some (take j (drop (?n - ?h) xs), slots)"
      using take_slots_range [of 0 j "items q"] front sh j by (simp add: slots_def)
    have len: "length slots = ?n" by (simp add: slots_def)
    have rear: "List.map_filter (\<lambda>p. slots ! p) [?h..<?h + (?n - ?h)] = take (?n - ?h) (drop 0 xs)"
    proof (rule map_filter_slots)
      fix i assume "i < ?n - ?h"
      then show "slots ! (?h + i) = Some (xs ! (0 + i))"
        using slot [of i] j k(2) by (simp add: slots_def less_diff_conv add.commute)
    qed (use j k in simp)
    have two: "take_slots ?h ?n slots = Some (take (?n - ?h) xs,
        map (\<lambda>p. if ?h \<le> p \<and> p < ?n then None else slots ! p) [0..<?n])"
      using take_slots_range [of ?h ?n slots] rear sh len by simp
    have "lq_take_expired q (j - 1) = Some (take j (drop (?n - ?h) xs) @ take (?n - ?h) xs,
        map (\<lambda>p. if ?h \<le> p \<and> p < ?n then None else slots ! p) [0..<?n])"
    proof -
      have "\<not> ?h \<le> j - 1" "j - 1 + 1 = j" using j by simp_all
      with one two len show ?thesis by (simp only: lq_take_expired_def) simp
    qed
    moreover have "map (\<lambda>p. if ?h \<le> p \<and> p < ?n then None else slots ! p) [0..<?n]
      = map (\<lambda>p. if p < j \<or> ?h \<le> p then None else items q ! p) [0..<?n]"
      by (auto simp: slots_def)
    ultimately show ?thesis using False index by (simp add: j_def)
  qed
qed

text \<open>The slots left after the first \<open>k\<close> workers are gone represent the rest of the list.\<close>

lemma lq_evict_rep:
  assumes rep: "lq_rep q xs" and k: "0 < k" "k \<le> length xs"
  shows "lq_rep (q\<lparr>items := map (\<lambda>p. if (if head q + k \<le> cap q then head q \<le> p \<and> p < head q + k
                     else p < head q + k - cap q \<or> head q \<le> p) then None else items q ! p) [0..<cap q],
      head := ((head q + (k - 1)) mod cap q + 1) mod cap q, is_full := False\<rparr>) (drop k xs)"
    (is "lq_rep ?q _")
proof (rule lq_repI)
  let ?n = "cap q" and ?h = "head q"
  have sh: "0 < ?n" "length (items q) = ?n" "?h < ?n" "length xs \<le> ?n"
    using lq_rep_shape [OF rep] by blast+
  have h': "head ?q = (?h + k) mod ?n"
    using k(1) mod_Suc_eq [of "?h + (k - 1)" ?n] by simp
  show "tail ?q = (head ?q + length (drop k xs)) mod cap ?q"
    using lq_rep_tail [OF rep] h' k(2) mod_add_left_eq [of "?h + k" ?n "length xs - k"] by simp
  fix i assume "i < cap ?q"
  then have i: "i < ?n" by simp
  have pos: "(head ?q + i) mod cap ?q = (?h + (k + i)) mod ?n"
    using h' by (simp add: mod_add_left_eq add.assoc)
  show "items ?q ! ((head ?q + i) mod cap ?q) = (if i < length (drop k xs) then Some (drop k xs ! i) else None)"
  proof (cases "k + i < ?n")
    case True
    have p: "(?h + (k + i)) mod ?n = (if ?h + (k + i) < ?n then ?h + (k + i) else ?h + (k + i) - ?n)"
      using ring_pos [OF sh(3), of "k + i"] True by simp
    have "items ?q ! ((?h + (k + i)) mod ?n) = items q ! ((?h + (k + i)) mod ?n)"
      unfolding p using True sh k by auto
    with pos show ?thesis using lq_rep_slot [OF rep True] k by auto
  next
    case False
    define v where "v = k + i - ?n"
    have v: "v < k" "v < ?n" "?h + (k + i) = ?h + v + ?n" using False i k sh by (simp_all add: v_def)
    then have "(?h + (k + i)) mod ?n = (?h + v) mod ?n" by (simp only: mod_add_self2)
    also have "\<dots> = (if ?h + v < ?n then ?h + v else ?h + v - ?n)" using v sh by (simp add: ring_pos)
    finally have p: "(?h + (k + i)) mod ?n = (if ?h + v < ?n then ?h + v else ?h + v - ?n)" .
    have "items ?q ! (if ?h + v < ?n then ?h + v else ?h + v - ?n) = None" using v(1,2) sh by auto
    then show ?thesis using False k sh by (simp only: pos p) simp
  qed
qed (use lq_rep_shape [OF rep] k in auto)

lemma lq_refresh_rep:
  assumes rep: "lq_rep q xs" and small: "lq_searchable q" and range: "in_i64 (now - as_nanos d)"
  shows "\<exists>k q'. lq_refresh oc lu now d q = Some
      (if head q + k \<le> cap q then take k xs
       else take (head q + k - cap q) (drop (cap q - head q) xs) @ take (cap q - head q) xs, q')
    \<and> lq_rep q' (drop k xs) \<and> cap q' = cap q \<and> k \<le> length xs
    \<and> (0 < k \<longrightarrow> lu (xs ! (k - 1)) \<le> now - as_nanos d)
    \<and> (k < length xs \<longrightarrow> now - as_nanos d < lu (xs ! k))"
proof -
  let ?e = "now - as_nanos d"
  have sh: "0 < cap q" "head q < cap q" using lq_rep_shape [OF rep] by blast+
  obtain k where k: "lq_binary_search oc lu q ?e =
        Some (if k = 0 then - 1 else int ((head q + (k - 1)) mod cap q))"
      "k \<le> length xs" "0 < k \<longrightarrow> lu (xs ! (k - 1)) \<le> ?e" "k < length xs \<longrightarrow> ?e < lu (xs ! k)"
    using lq_binary_search_rep [OF rep small, of oc lu ?e] by blast
  show ?thesis
  proof (cases "k = 0")
    case True
    with k rep range sh show ?thesis
      by (intro exI [of _ 0] exI [of _ q]) (simp add: lq_refresh_def)
  next
    case False
    let ?index = "(head q + (k - 1)) mod cap q"
    have "?index < cap q" using sh by simp
    then have "in_i32 (int ?index)" using small by (simp add: in_i32_def lq_searchable_def)
    then have index: "usize_of_i32 (int ?index) = ?index" by simp
    let ?ex = "if head q + k \<le> cap q then take k xs
       else take (head q + k - cap q) (drop (cap q - head q) xs) @ take (cap q - head q) xs"
    let ?slots = "map (\<lambda>p. if (if head q + k \<le> cap q then head q \<le> p \<and> p < head q + k
        else p < head q + k - cap q \<or> head q \<le> p) then None else items q ! p) [0..<cap q]"
    let ?q = "q\<lparr>items := ?slots, head := (?index + 1) mod cap q, is_full := False\<rparr>"
    have ne: "(if head q + k \<le> cap q then take k xs
       else take (head q + k - cap q) (drop (cap q - head q) xs) @ take (cap q - head q) xs) \<noteq> []"
      using False k(2) sh by auto
    have taken: "lq_take_expired q ?index = Some (?ex, ?slots)"
      using lq_take_expired_rep [OF rep _ k(2)] False by blast
    have "lq_binary_search oc lu q ?e = Some (int ?index)" "int ?index \<noteq> - 1" using k(1) False by simp_all
    then have "lq_refresh oc lu now d q = Some (?ex, ?q)"
      using arith_i64_in [OF range, of oc] index taken ne mod_usize_pos [OF sh(1), of "?index + 1"]
      by (simp only: lq_refresh_def Option.bind.simps Let_def prod.case if_True if_False not_False_eq_True)
    moreover have "lq_rep ?q (drop k xs)" using lq_evict_rep [OF rep _ k(2)] False by blast
    moreover have "cap ?q = cap q" by simp
    ultimately show ?thesis using k(2-4) by blast
  qed
qed

lemma mset_rotated_segments:
  "c \<le> k \<Longrightarrow> mset (take (k - c) (drop c xs) @ take c xs) = mset (take k xs)"
proof -
  assume "c \<le> k"
  then have "take k xs = take c xs @ take (k - c) (drop c xs)"
    by (metis le_add_diff_inverse take_add)
  then show ?thesis by simp
qed

section \<open>The contract\<close>

interpretation ring: fifo_queue lq_len lq_is_empty lq_insert lq_detach lq_refresh lq_reset
    lq_parked lq_inv lq_searchable
proof (unfold_locales, goal_cases)
  case (1 q)
  then show ?case using lq_rep_len lq_inv_rep by blast
next
  case (2 q)
  then show ?case using lq_rep_empty lq_inv_rep by blast
next
  case (3 q w)
  have rep: "lq_rep q (lq_parked q)" using 3 by (rule lq_inv_rep)
  show ?case
  proof (cases "length (lq_parked q) = cap q")
    case True
    with rep show ?thesis by (simp add: lq_insert_full)
  next
    case False
    then have "length (lq_parked q) < cap q" using lq_rep_shape [OF rep] by linarith
    then show ?thesis
      using lq_insert_rep [OF rep, of w] 3 lq_rep_parked lq_rep_inv by (metis lq_inv_def)
  qed
next
  case (4 q)
  then show ?case using lq_inv_rep [of q] by (simp add: lq_detach_rep_Nil)
next
  case (5 q)
  obtain x xs where xs: "lq_parked q = x # xs" using 5(2) by (cases "lq_parked q") auto
  then have "lq_rep q (x # xs)" using lq_inv_rep [OF 5(1)] by simp
  then show ?case
    using lq_detach_rep_Cons [of q x xs] 5(1) lq_rep_parked lq_rep_inv xs
    by (metis lq_inv_def mset.simps(2))
next
  case (6 q now d oc lu)
  have rep: "lq_rep q (lq_parked q)" using 6(1) by (rule lq_inv_rep)
  then have h: "head q < cap q" using lq_rep_shape by blast
  obtain k q' where k: "lq_refresh oc lu now d q = Some
      (if head q + k \<le> cap q then take k (lq_parked q)
       else take (head q + k - cap q) (drop (cap q - head q) (lq_parked q)) @ take (cap q - head q) (lq_parked q), q')"
    "lq_rep q' (drop k (lq_parked q))" "cap q' = cap q" "k \<le> length (lq_parked q)"
    "0 < k \<longrightarrow> lu (lq_parked q ! (k - 1)) \<le> now - as_nanos d"
    "k < length (lq_parked q) \<longrightarrow> now - as_nanos d < lu (lq_parked q ! k)"
    using lq_refresh_rep [OF rep 6(2,3), of oc lu] by blast
  have "lq_inv q'" "lq_parked q' = drop k (lq_parked q)"
    using lq_rep_inv [OF k(2)] lq_rep_parked [OF k(2)] k(3) 6(1) by (simp_all add: lq_inv_def)
  moreover have "mset (take (head q + k - cap q) (drop (cap q - head q) (lq_parked q)) @ take (cap q - head q) (lq_parked q))
      = mset (take k (lq_parked q))" if "\<not> head q + k \<le> cap q"
  proof -
    have "head q + k - cap q = k - (cap q - head q)" "cap q - head q \<le> k" using that h by simp_all
    then show ?thesis by (simp only: mset_rotated_segments)
  qed
  ultimately show ?case using k by (intro exI conjI) (rule k(1), auto)
next
  case (7 q)
  then show ?case
    using lq_reset_rep [OF lq_inv_rep [OF 7]] lq_rep_inv lq_rep_parked by (metis lq_inv_def)
next
  case (8 q w q')
  have "lq_parked q \<noteq> []"
    using 8 lq_detach_rep_Nil [of q] lq_inv_rep [of q] by (cases "lq_parked q") auto
  then obtain x xs where xs: "lq_parked q = x # xs" by (cases "lq_parked q") auto
  then have "lq_rep q (x # xs)" using lq_inv_rep [OF 8(1)] by simp
  then show ?case
    using lq_detach_rep_Cons [of q x xs] 8(2) lq_rep_parked xs by fastforce
qed

lemma lq_new_inv:
  fixes q :: "'w loop_queue"
  shows "lq_new n = Some q \<Longrightarrow> n \<le> i32_max \<Longrightarrow> lq_inv q \<and> lq_parked q = [] \<and> int (cap q) = n"
proof -
  assume new: "lq_new n = Some q" and n: "n \<le> i32_max"
  then have "0 < n" by (simp add: lq_new_def split: if_splits)
  then obtain p :: "'w loop_queue" where p: "lq_new n = Some p" "lq_rep p []" "int (cap p) = n"
    using lq_new_rep [OF _ n] by blast
  with new have "p = q" by simp
  with p n show ?thesis using lq_rep_inv [of q "[]"] lq_rep_parked [of q "[]"] by simp
qed

section \<open>Properties\<close>

text \<open>C26: The ring's binary search over its rotated array is the stack's binary search over the workers
  in the order they will leave.\<close>

theorem ring_search_is_stack_search:
  assumes "lq_inv q"
  shows "lq_search oc lu q e 0 (int (lq_len q) - 1)
    = stack_binary_search oc lu \<lparr>stack_items = lq_parked q\<rparr> 0 (int (lq_len q) - 1) e"
  using lq_search_stack [of q "lq_parked q" 0 "int (lq_len q) - 1" oc lu e] ring.len_parked [OF assms] assms
  by (simp add: lq_inv_def stack_binary_search_def)

definition demo_ring :: "nat loop_queue" where
  "demo_ring = \<lparr>items = [Some 3, None, Some 1, Some 2], head = 2, tail = 1, cap = 4, is_full = False\<rparr>"

lemma all_less_4: "(\<forall>i < 4. P i) \<longleftrightarrow> P 0 \<and> P 1 \<and> P 2 \<and> P (3 :: nat)"
  by (simp add: All_less_Suc numeral_eq_Suc conj_ac)

lemma demo_ring_rep: "lq_rep demo_ring [1, 2, 3]"
  by (simp add: lq_rep_def demo_ring_def all_less_4)

lemma demo_ring_inv: "lq_inv demo_ring"
  using demo_ring_rep by (rule lq_rep_inv) (simp add: demo_ring_def)

theorem ring_search_is_stack_search_witness:
  "lq_search True int demo_ring 2 0 (int (lq_len demo_ring) - 1)
    = stack_binary_search True int \<lparr>stack_items = lq_parked demo_ring\<rparr> 0 (int (lq_len demo_ring) - 1) 2"
  by (rule ring_search_is_stack_search [OF demo_ring_inv])

text \<open>C25: The ring is a bounded first-in first-out queue: it refuses a worker exactly when it is full
  and appends it otherwise, hands out the workers in the order they came, and a reset hands out all of
  them; no index is ever out of range.\<close>

theorem ring_refines_bounded_fifo:
  assumes "lq_inv q"
  shows "(if lq_len q = cap q then lq_insert w q = Some (Inl QueueIsFull)
      else \<exists>q'. lq_insert w q = Some (Inr q') \<and> lq_inv q' \<and> cap q' = cap q \<and> lq_parked q' = lq_parked q @ [w])
    \<and> (case lq_parked q of
        [] \<Rightarrow> lq_detach q = Some (None, q)
      | x # xs \<Rightarrow> \<exists>q'. lq_detach q = Some (Some x, q') \<and> lq_inv q' \<and> cap q' = cap q \<and> lq_parked q' = xs)
    \<and> (\<exists>q'. lq_reset q = Some (lq_parked q, q') \<and> lq_inv q' \<and> cap q' = cap q \<and> lq_parked q' = [])"
proof -
  let ?xs = "lq_parked q"
  have rep: "lq_rep q ?xs" and small: "int (cap q) \<le> i32_max" using assms by (simp_all add: lq_inv_def)
  have len: "lq_len q = length ?xs" "length ?xs \<le> cap q" using lq_rep_len [OF rep] lq_rep_shape [OF rep] by auto
  have kept: "lq_inv q' \<and> cap q' = cap q \<and> lq_parked q' = ys" if "lq_rep q' ys" "cap q' = cap q" for q' ys
    using that small lq_rep_inv lq_rep_parked by auto
  have "if lq_len q = cap q then lq_insert w q = Some (Inl QueueIsFull)
      else \<exists>q'. lq_insert w q = Some (Inr q') \<and> lq_inv q' \<and> cap q' = cap q \<and> lq_parked q' = ?xs @ [w]"
    using lq_insert_full [OF rep, of w] lq_insert_rep [OF rep, of w] len kept by fastforce
  moreover have "case ?xs of [] \<Rightarrow> lq_detach q = Some (None, q)
      | x # xs \<Rightarrow> \<exists>q'. lq_detach q = Some (Some x, q') \<and> lq_inv q' \<and> cap q' = cap q \<and> lq_parked q' = xs"
    using rep lq_detach_rep_Nil lq_detach_rep_Cons kept by (cases ?xs) fastforce+
  moreover have "\<exists>q'. lq_reset q = Some (?xs, q') \<and> lq_inv q' \<and> cap q' = cap q \<and> lq_parked q' = []"
    using lq_reset_rep [OF rep] kept by blast
  ultimately show ?thesis by blast
qed

theorem ring_refines_bounded_fifo_witness:
  "(if lq_len demo_ring = cap demo_ring then lq_insert 4 demo_ring = Some (Inl QueueIsFull)
      else \<exists>q'. lq_insert 4 demo_ring = Some (Inr q') \<and> lq_inv q' \<and> cap q' = cap demo_ring
        \<and> lq_parked q' = lq_parked demo_ring @ [4])
    \<and> (case lq_parked demo_ring of
        [] \<Rightarrow> lq_detach demo_ring = Some (None, demo_ring)
      | x # xs \<Rightarrow> \<exists>q'. lq_detach demo_ring = Some (Some x, q') \<and> lq_inv q' \<and> cap q' = cap demo_ring
        \<and> lq_parked q' = xs)
    \<and> (\<exists>q'. lq_reset demo_ring = Some (lq_parked demo_ring, q') \<and> lq_inv q' \<and> cap q' = cap demo_ring
        \<and> lq_parked q' = [])"
  by (rule ring_refines_bounded_fifo [OF demo_ring_inv])

text \<open>C29: The bound on the ring's size is sharp: the last line of its binary search adds a position, the
  head and the length in 32 bits, so for a full ring of more than 715827883 slots whose head is the last
  slot and whose workers have all expired, it overflows and panics in a build with overflow checks.\<close>

theorem ring_search_overflows:
  assumes "lq_inv q" and "lq_len q = cap q" and "715827883 < cap q" and "head q = cap q - 1"
    and "\<forall>w \<in> set (lq_parked q). lu w \<le> e"
  shows "lq_binary_search True lu q e = None"
proof -
  let ?n = "cap q" and ?xs = "lq_parked q"
  have rep: "lq_rep q ?xs" and small: "int ?n \<le> i32_max" using assms(1) by (simp_all add: lq_inv_def)
  have len: "length ?xs = ?n" "length (items q) = ?n" "tail q = head q"
    using lq_rep_len [OF rep] lq_rep_shape [OF rep] assms(2,4) by auto
  have nonempty: "?xs \<noteq> []" using len(1) assms(3) by auto
  then have first: "lq_last_used lu q (head q) = Some (lu (?xs ! 0))" "lu (?xs ! 0) \<le> e"
    using lq_last_used_rep [OF rep, of 0 lu] assms(5) lq_rep_shape [OF rep] by (auto simp: mod_if)
  obtain k where k: "stack_search True lu ?xs 0 (int (length ?xs) - 1) e = Some (int k - 1)" "k \<le> length ?xs"
    "k < length ?xs \<longrightarrow> e < lu (?xs ! k)"
    using stack_search_split [of ?xs True lu e] small len(1) by auto
  have "k = ?n" using k(2,3) assms(5) len(1) by (metis nth_mem le_neq_implies_less not_le)
  then have "lq_search True lu q e 0 (int ?n - 1) = Some (int ?n - 1)"
    using lq_search_stack [OF rep small, of 0 "int ?n - 1" True lu e] k(1) len(1) by simp
  then have found: "lq_search True lu q e 0 (wrap_i32 (int (?n - 1))) = Some (int ?n - 1)"
    using small assms(3) by (simp add: of_nat_diff in_i32_def)
  have pos: "sub_usize True (tail q + ?n) 1 = Some (?n - 1 + (?n - 1))" "sub_usize True (?n - 1 + (?n - 1)) (head q) = Some (?n - 1)"
    "mod_usize (?n - 1) ?n = Some (?n - 1)"
    using assms(3,4) len(3) by simp_all
  have "wrap_i32 (int (head q)) = int ?n - 1" "wrap_i32 (int ?n) = int ?n"
    using small assms(3,4) by (simp_all add: of_nat_diff in_i32_def)
  moreover have "Option.bind (arith_i32 True (int ?n - 1 + (int ?n - 1))) (\<lambda>s. arith_i32 True (s + int ?n)) = None"
    using assms(3) by (simp add: arith_i32_def in_i32_def)
  ultimately show ?thesis
    using first found pos len(2) lq_rep_empty [OF rep] nonempty
    by (simp add: lq_binary_search_def Let_def bind_eq_None_conv) (metis option.distinct(1))
qed

lemma full_ring_rep:
  "0 < n \<Longrightarrow> h < n \<Longrightarrow>
    lq_rep \<lparr>items = replicate n (Some w), head = h, tail = h, cap = n, is_full = True\<rparr> (replicate n w)"
  by (rule lq_repI) simp_all

theorem ring_search_overflows_witness:
  "lq_binary_search True int \<lparr>items = replicate 715827884 (Some 0), head = 715827883, tail = 715827883,
     cap = 715827884, is_full = True\<rparr> 0 = None"
proof -
  have rep: "lq_rep \<lparr>items = replicate 715827884 (Some 0), head = 715827883, tail = 715827883,
     cap = 715827884, is_full = True\<rparr> (replicate 715827884 (0 :: nat))"
    by (rule full_ring_rep) simp_all
  show ?thesis
    by (rule ring_search_overflows)
      (use lq_rep_inv [OF rep] lq_rep_len [OF rep] lq_rep_parked [OF rep] in simp_all)
qed

end
