(* ===== verification/Queue_Factory.thy ===== *)
theory Queue_Factory
  imports Loop_Queue
begin

text \<open>
  The queue a pool holds (src/src/worker_queue.rs): \<open>Box<dyn WorkerQueue>\<close> is one of the two
  implementations, every call goes to the one inside, and \<open>new_worker_queue\<close> chooses. The boxed
  queue satisfies the contract as well, which is what the pool relies on.
\<close>

datatype 'w any_queue = StackQ "'w worker_stack" | LoopQ "'w loop_queue"

datatype queue_type = QueueType i32

definition STACK :: queue_type where "STACK = QueueType 1"
definition LOOP_QUEUE :: queue_type where "LOOP_QUEUE = QueueType 2"

definition new_worker_queue :: "queue_type \<Rightarrow> i32 \<Rightarrow> 'w any_queue option" where
  "new_worker_queue queue_type n =
     (if queue_type = LOOP_QUEUE then map_option LoopQ (lq_new n)
      else Some (StackQ (stack_new n)))"

fun wq_len :: "'w any_queue \<Rightarrow> usize" where
  "wq_len (StackQ s) = stack_len s"
| "wq_len (LoopQ q) = lq_len q"

fun wq_is_empty :: "'w any_queue \<Rightarrow> bool" where
  "wq_is_empty (StackQ s) = stack_is_empty s"
| "wq_is_empty (LoopQ q) = lq_is_empty q"

fun wq_insert :: "'w \<Rightarrow> 'w any_queue \<Rightarrow> (error + 'w any_queue) option" where
  "wq_insert w (StackQ s) = map_option (map_sum id StackQ) (stack_insert w s)"
| "wq_insert w (LoopQ q) = map_option (map_sum id LoopQ) (lq_insert w q)"

fun wq_detach :: "'w any_queue \<Rightarrow> ('w option \<times> 'w any_queue) option" where
  "wq_detach (StackQ s) = map_option (map_prod id StackQ) (stack_detach s)"
| "wq_detach (LoopQ q) = map_option (map_prod id LoopQ) (lq_detach q)"

fun wq_refresh ::
  "bool \<Rightarrow> ('w \<Rightarrow> i64) \<Rightarrow> i64 \<Rightarrow> duration \<Rightarrow> 'w any_queue \<Rightarrow> ('w list \<times> 'w any_queue) option" where
  "wq_refresh oc lu now d (StackQ s) = map_option (map_prod id StackQ) (stack_refresh oc lu now d s)"
| "wq_refresh oc lu now d (LoopQ q) = map_option (map_prod id LoopQ) (lq_refresh oc lu now d q)"

fun wq_reset :: "'w any_queue \<Rightarrow> ('w list \<times> 'w any_queue) option" where
  "wq_reset (StackQ s) = map_option (map_prod id StackQ) (stack_reset s)"
| "wq_reset (LoopQ q) = map_option (map_prod id LoopQ) (lq_reset q)"

fun wq_parked :: "'w any_queue \<Rightarrow> 'w list" where
  "wq_parked (StackQ s) = stack_items s"
| "wq_parked (LoopQ q) = lq_parked q"

fun wq_inv :: "'w any_queue \<Rightarrow> bool" where
  "wq_inv (StackQ s) = True"
| "wq_inv (LoopQ q) = lq_inv q"

fun wq_searchable :: "'w any_queue \<Rightarrow> bool" where
  "wq_searchable (StackQ s) = stack_searchable s"
| "wq_searchable (LoopQ q) = lq_searchable q"

interpretation wq: worker_queue wq_len wq_is_empty wq_insert wq_detach wq_refresh wq_reset
    wq_parked wq_inv wq_searchable
proof (unfold_locales, goal_cases)
  case (1 q)
  then show ?case by (cases q) (auto simp: stack.len_parked ring.len_parked)
next
  case (2 q)
  then show ?case by (cases q) (auto simp: stack.is_empty_parked ring.is_empty_parked)
next
  case (3 q w)
  then show ?case
    using stack.insert_law [OF TrueI] ring.insert_law by (cases q) fastforce+
next
  case (4 q)
  then show ?case
    using stack.detach_empty [OF TrueI] ring.detach_empty by (cases q) fastforce+
next
  case (5 q)
  then show ?case
    using stack.detach_law [OF TrueI] ring.detach_law by (cases q) fastforce+
next
  case (6 q now d oc lu)
  show ?case
  proof (cases q)
    case (StackQ s)
    then show ?thesis using 6 stack.refresh_law [OF TrueI, of s now d oc lu] by fastforce
  next
    case (LoopQ l)
    then show ?thesis using 6 ring.refresh_law [of l now d oc lu] by fastforce
  qed
next
  case (7 q)
  then show ?case
    using stack.reset_law [OF TrueI] ring.reset_law by (cases q) fastforce+
qed

lemma new_worker_queue_stack: "new_worker_queue STACK n = Some (StackQ (stack_new n))"
  by (simp add: new_worker_queue_def STACK_def LOOP_QUEUE_def)

lemma new_worker_queue_inv:
  "n \<le> i32_max \<Longrightarrow> new_worker_queue t n = Some q \<Longrightarrow> wq_inv q \<and> wq_parked q = []"
  by (auto simp: new_worker_queue_def stack_new_def split: if_splits dest!: lq_new_inv)

lemma new_worker_queue_panics: "new_worker_queue t n = None \<longleftrightarrow> t = LOOP_QUEUE \<and> n \<le> 0"
  by (simp add: new_worker_queue_def lq_new_def)

section \<open>What every call keeps\<close>

text \<open>
  The ring's size never changes. With a ring small enough for its 32-bit search, every operation
  conserves the workers whatever the clock shows: a threshold out of range panics or wraps, and
  the search then works with the wrapped one.
\<close>

fun wq_exact :: "'w any_queue \<Rightarrow> bool" where
  "wq_exact (StackQ s) \<longleftrightarrow> True"
| "wq_exact (LoopQ q) \<longleftrightarrow> lq_searchable q"

definition wq_ok :: "'w any_queue \<Rightarrow> bool" where
  "wq_ok q \<longleftrightarrow> wq_inv q \<and> wq_exact q"

lemma lq_cap_kept:
  "lq_insert w q = Some (Inr q') \<Longrightarrow> cap q' = cap q"
  "lq_detach q = Some (r, q') \<Longrightarrow> cap q' = cap q"
  "lq_refresh oc lu now d q = Some (ex, q') \<Longrightarrow> cap q' = cap q"
  by (auto simp: lq_insert_def lq_detach_def lq_refresh_def Let_def bind_eq_Some_conv
      split: if_splits option.splits prod.splits)

lemma lq_reset_cap: "lq_inv q \<Longrightarrow> lq_reset q = Some (fin, q') \<Longrightarrow> cap q' = cap q"
  using lq_reset_rep [OF lq_inv_rep] by fastforce

lemma wq_exact_insert: "wq_insert w q = Some (Inr q') \<Longrightarrow> wq_exact q' = wq_exact q"
proof (cases q)
  case (LoopQ l)
  assume "wq_insert w q = Some (Inr q')"
  with LoopQ obtain l' where "lq_insert w l = Some (Inr l')" "q' = LoopQ l'"
    by auto
  with LoopQ show ?thesis by (simp add: lq_searchable_def lq_cap_kept(1))
qed auto

lemma wq_exact_detach: "wq_detach q = Some (r, q') \<Longrightarrow> wq_exact q' = wq_exact q"
proof (cases q)
  case (LoopQ l)
  assume "wq_detach q = Some (r, q')"
  with LoopQ obtain l' where "lq_detach l = Some (r, l')" "q' = LoopQ l'" by auto
  with LoopQ show ?thesis by (simp add: lq_searchable_def lq_cap_kept(2))
qed auto

lemma wq_exact_reset: "wq_inv q \<Longrightarrow> wq_reset q = Some (fin, q') \<Longrightarrow> wq_exact q' = wq_exact q"
proof (cases q)
  case (LoopQ l)
  assume "wq_inv q" "wq_reset q = Some (fin, q')"
  with LoopQ obtain l' where "lq_inv l" "lq_reset l = Some (fin, l')" "q' = LoopQ l'" by auto
  with LoopQ show ?thesis by (simp add: lq_searchable_def lq_reset_cap)
qed auto

lemma stack_refresh_mset:
  "stack_refresh oc lu now d s = Some (ex, s') \<Longrightarrow>
    mset (stack_items s) = mset ex + mset (stack_items s')"
  by (auto simp: stack_refresh_def Let_def bind_eq_Some_conv mset_take_drop split: if_splits)

lemma lq_refresh_in_range:
  assumes "lq_refresh oc lu now d q = Some r"
  obtains now' where "in_i64 (now' - as_nanos d)" and "lq_refresh oc lu now' d q = Some r"
proof (cases "in_i64 (now - as_nanos d)")
  case False
  let ?now' = "wrap_i64 (now - as_nanos d) + as_nanos d"
  have oc: "\<not> oc" using False assms by (auto simp: lq_refresh_def arith_i64_def)
  have range: "in_i64 (?now' - as_nanos d)"
    by (simp add: in_i64_def wrap_i64_def pos_mod_bound)
  then have "arith_i64 oc (?now' - as_nanos d) = arith_i64 oc (now - as_nanos d)"
    using oc False by (simp add: arith_i64_def)
  then have "lq_refresh oc lu ?now' d q = lq_refresh oc lu now d q"
    by (simp only: lq_refresh_def)
  then have "lq_refresh oc lu ?now' d q = Some r" using assms by (simp only:)
  then show ?thesis by (rule that [OF range])
qed (use assms that in blast)

lemma wq_ok_insert:
  "wq_ok q \<Longrightarrow> wq_insert w q = Some (Inr q') \<Longrightarrow> wq_ok q' \<and> wq_parked q' = wq_parked q @ [w]"
  using wq.insert_Inr [of q w q'] wq_exact_insert [of w q q'] by (auto simp: wq_ok_def)

lemma wq_ok_insert_total: "wq_ok q \<Longrightarrow> wq_insert w q \<noteq> None"
  using wq.insert_law [of q w] by (auto simp: wq_ok_def)

lemma wq_ok_detach:
  "wq_ok q \<Longrightarrow> wq_detach q = Some (Some w, q') \<Longrightarrow>
    wq_ok q' \<and> mset (wq_parked q) = add_mset w (mset (wq_parked q'))"
  using wq.detach_Some [of q w q'] wq_exact_detach [of q "Some w" q'] by (auto simp: wq_ok_def)

lemma wq_ok_detach_None:
  "wq_ok q \<Longrightarrow> wq_detach q = Some (None, q') \<Longrightarrow> wq_parked q = [] \<and> q' = q"
  using wq.detach_None [of q q'] by (auto simp: wq_ok_def)

lemma wq_ok_detach_total: "wq_ok q \<Longrightarrow> wq_detach q \<noteq> None"
  using wq.detach_total [of q] by (auto simp: wq_ok_def)

lemma wq_ok_refresh:
  assumes ok: "wq_ok q" and r: "wq_refresh oc lu now d q = Some (ex, q')"
  shows "wq_ok q' \<and> mset (wq_parked q) = mset ex + mset (wq_parked q')"
proof (cases q)
  case (StackQ s)
  with r show ?thesis by (auto simp: wq_ok_def dest!: stack_refresh_mset)
next
  case (LoopQ l)
  with r obtain l' where l': "lq_refresh oc lu now d l = Some (ex, l')" "q' = LoopQ l'" by auto
  obtain now' where "in_i64 (now' - as_nanos d)" "lq_refresh oc lu now' d l = Some (ex, l')"
    using l'(1) by (rule lq_refresh_in_range)
  then have "lq_inv l' \<and> mset (lq_parked l) = mset ex + mset (lq_parked l')"
    using ring.refresh_conserves [of l now' d oc lu ex l'] ok LoopQ by (simp add: wq_ok_def)
  moreover have "lq_searchable l'"
    using ok LoopQ lq_cap_kept(3) [OF l'(1)] by (simp add: wq_ok_def lq_searchable_def)
  ultimately show ?thesis using LoopQ l'(2) by (simp add: wq_ok_def)
qed

lemma wq_ok_reset:
  assumes "wq_ok q" and "wq_reset q = Some (fin, q')"
  shows "wq_ok q' \<and> wq_parked q' = [] \<and> mset fin = mset (wq_parked q)"
  using assms wq.reset_Some [of q fin q'] wq_exact_reset [of q fin q'] by (auto simp: wq_ok_def)

lemma wq_ok_reset_total: "wq_ok q \<Longrightarrow> wq_reset q \<noteq> None"
  using wq.reset_law [of q] by (auto simp: wq_ok_def)

text \<open>What the operations do to the number of parked workers.\<close>

lemma wq_ok_lengths:
  assumes "wq_ok q"
  shows "wq_detach q = Some (r, q') \<Longrightarrow> length (wq_parked q) = length (wq_parked q') + (if r = None then 0 else 1)"
    and "wq_insert w q = Some (Inr q') \<Longrightarrow> length (wq_parked q') = length (wq_parked q) + 1"
    and "wq_refresh oc lu now d q = Some (ex, q') \<Longrightarrow> length (wq_parked q) = length ex + length (wq_parked q')"
    and "wq_reset q = Some (fin, q') \<Longrightarrow> length (wq_parked q) = length fin + length (wq_parked q')"
proof -
  show "wq_detach q = Some (r, q') \<Longrightarrow> length (wq_parked q) = length (wq_parked q') + (if r = None then 0 else 1)"
  proof (cases r)
    case (Some w)
    moreover assume "wq_detach q = Some (r, q')"
    ultimately have "mset (wq_parked q) = add_mset w (mset (wq_parked q'))" using wq_ok_detach [OF assms] by blast
    from arg_cong [OF this, of size] Some show ?thesis by simp
  qed (auto dest: wq_ok_detach_None [OF assms])
  show "wq_insert w q = Some (Inr q') \<Longrightarrow> length (wq_parked q') = length (wq_parked q) + 1"
    using wq_ok_insert [OF assms] by fastforce
  show "length (wq_parked q) = length ex + length (wq_parked q')" if "wq_refresh oc lu now d q = Some (ex, q')"
  proof -
    have "mset (wq_parked q) = mset ex + mset (wq_parked q')" using wq_ok_refresh [OF assms that] by blast
    from arg_cong [OF this, of size] show ?thesis by simp
  qed
  show "length (wq_parked q) = length fin + length (wq_parked q')" if "wq_reset q = Some (fin, q')"
  proof -
    have "wq_parked q' = []" "mset fin = mset (wq_parked q)" using wq_ok_reset [OF assms that] by blast+
    from arg_cong [OF this(2), of size] this(1) show ?thesis by simp
  qed
qed

text \<open>Whatever the operation, the queue stays well-formed.\<close>

lemma wq_ok_detach_kept: "wq_ok q \<Longrightarrow> wq_detach q = Some (r, q') \<Longrightarrow> wq_ok q'"
  using wq_ok_detach [of q _ q'] wq_ok_detach_None [of q q'] by (cases r) auto

lemmas wq_ok_kept = wq_ok_detach_kept wq_ok_insert [THEN conjunct1] wq_ok_refresh [THEN conjunct1]
  wq_ok_reset [THEN conjunct1]

section \<open>Properties\<close>

text \<open>C27: A purge evicts exactly the expired workers: when the queue (of either kind) is sorted by last
  use, \<open>refresh\<close> returns every worker last used at or before \<open>now - duration\<close>, keeps every other one in
  its order, and does not panic.\<close>

theorem refresh_evicts_exactly_expired:
  assumes "wq_inv q" and "wq_searchable q" and "in_i64 (now - as_nanos d)" and "sorted (map lu (wq_parked q))"
  shows "\<exists>ex q'. wq_refresh oc lu now d q = Some (ex, q') \<and> wq_inv q'
    \<and> mset ex = filter_mset (\<lambda>w. lu w \<le> now - as_nanos d) (mset (wq_parked q))
    \<and> wq_parked q' = filter (\<lambda>w. now - as_nanos d < lu w) (wq_parked q)"
  using assms by (rule wq.refresh_exact)

theorem refresh_evicts_exactly_expired_witness:
  "\<exists>ex q'. wq_refresh True id 100 (Duration 75) (StackQ \<lparr>stack_items = [10, 20, 30, 40]\<rparr>) = Some (ex, q') \<and> wq_inv q'
    \<and> mset ex = filter_mset (\<lambda>w. id w \<le> 100 - as_nanos (Duration 75)) (mset (wq_parked (StackQ \<lparr>stack_items = [10, 20, 30, 40]\<rparr>)))
    \<and> wq_parked q' = filter (\<lambda>w. 100 - as_nanos (Duration 75) < id w) (wq_parked (StackQ \<lparr>stack_items = [10, 20, 30, 40]\<rparr>))"
  by (rule refresh_evicts_exactly_expired) (simp_all add: stack_searchable_def in_i64_def)

section \<open>Sequences of calls\<close>

text \<open>
  A client's calls, and what a sequence of them does: the workers the queue accepted, the workers it
  gave out, and the queue it leaves.
\<close>

datatype 'w queue_op = Insert 'w | Detach | Refresh bool "'w \<Rightarrow> i64" i64 duration | Reset

fun queue_call :: "'w queue_op \<Rightarrow> 'w any_queue \<Rightarrow> ('w list \<times> 'w list \<times> 'w any_queue) option" where
  "queue_call (Insert w) q =
     map_option (\<lambda>r. case r of Inl e \<Rightarrow> ([], [], q) | Inr q' \<Rightarrow> ([w], [], q')) (wq_insert w q)"
| "queue_call Detach q = map_option (\<lambda>(r, q'). ([], case r of None \<Rightarrow> [] | Some w \<Rightarrow> [w], q')) (wq_detach q)"
| "queue_call (Refresh oc lu now d) q = map_option (\<lambda>(ex, q'). ([], ex, q')) (wq_refresh oc lu now d q)"
| "queue_call Reset q = map_option (\<lambda>(fin, q'). ([], fin, q')) (wq_reset q)"

fun queue_calls :: "'w queue_op list \<Rightarrow> 'w any_queue \<Rightarrow> ('w list \<times> 'w list \<times> 'w any_queue) option" where
  "queue_calls [] q = Some ([], [], q)"
| "queue_calls (c # cs) q = do {
     (ins, outs, q') \<leftarrow> queue_call c q;
     (ins', outs', q'') \<leftarrow> queue_calls cs q';
     Some (ins @ ins', outs @ outs', q'')
   }"

lemma queue_call_kept:
  assumes "wq_ok q" and "queue_call c q = Some (ins, outs, q')"
  shows "wq_ok q' \<and> mset ins + mset (wq_parked q) = mset outs + mset (wq_parked q')"
proof (cases c)
  case (Insert w)
  then obtain r where r: "wq_insert w q = Some r" "(ins, outs, q') = (case r of Inl e \<Rightarrow> ([], [], q) | Inr q' \<Rightarrow> ([w], [], q'))"
    using assms(2) by auto
  then show ?thesis using assms(1) wq_ok_insert [OF assms(1), of w] by (cases r) auto
next
  case Detach
  then obtain r where r: "wq_detach q = Some (r, q')" "ins = []" "outs = (case r of None \<Rightarrow> [] | Some w \<Rightarrow> [w])"
    using assms(2) by auto
  then show ?thesis
    using wq_ok_detach [OF assms(1)] wq_ok_detach_None [OF assms(1)] assms(1) by (cases r) auto
next
  case (Refresh oc lu now d)
  then show ?thesis using assms wq_ok_refresh [OF assms(1), of oc lu now d] by auto
next
  case Reset
  then show ?thesis using assms wq_ok_reset [OF assms(1)] by auto
qed

text \<open>The queue neither loses, duplicates nor invents a worker, whatever the sequence of calls and
  whatever the clocks show.\<close>

lemma queue_conserves_workers:
  assumes "wq_ok q" and "queue_calls cs q = Some (ins, outs, q')"
  shows "wq_ok q' \<and> mset ins + mset (wq_parked q) = mset outs + mset (wq_parked q')"
  using assms
proof (induction cs arbitrary: q ins outs)
  case (Cons c cs)
  from Cons.prems(2) obtain i o1 q1 i' o' where c: "queue_call c q = Some (i, o1, q1)"
    and cs: "queue_calls cs q1 = Some (i', o', q')" and eq: "ins = i @ i'" "outs = o1 @ o'"
    by (auto simp: bind_eq_Some_conv)
  note one = queue_call_kept [OF Cons.prems(1) c]
  with Cons.IH [OF _ cs] have "mset i' + mset (wq_parked q1) = mset o' + mset (wq_parked q')" "wq_ok q'" by simp_all
  with one eq show ?case by (metis mset_append union_assoc union_commute)
qed simp

lemma queue_conserves_workers_example:
  "wq_ok (StackQ \<lparr>stack_items = [1 :: nat]\<rparr>)
    \<and> mset [1, 2] + mset (wq_parked (StackQ (stack_new 0))) = mset [2] + mset (wq_parked (StackQ \<lparr>stack_items = [1 :: nat]\<rparr>))"
  using queue_conserves_workers [of "StackQ (stack_new 0)" "[Insert 1, Insert 2, Detach]" "[1, 2 :: nat]" "[2]"
      "StackQ \<lparr>stack_items = [1]\<rparr>"]
  by (simp add: wq_ok_def stack_insert_def stack_detach_def stack_new_def)

end
