(* ===== verification/Cond_Var.thy ===== *)
theory Cond_Var
  imports Interleaving
begin

text \<open>
  The condition variable of src/src/deps/cond.rs: bookkeeping under an internal mutex (\<open>Waiters\<close>)
  and a standard \<open>Condvar\<close> on which threads sleep. Everything a thread does while it holds the
  internal mutex is one step here, as no other thread can look in between.

  The \<open>Condvar\<close> is modelled by what the standard library documents: a thread that waits releases the
  mutex and sleeps in one step; \<open>notify_one\<close> wakes one of the sleeping threads, whichever it likes,
  \<open>notify_all\<close> wakes them all, and a thread may also wake up spuriously. \<open>asleep\<close> are the
  generations of the threads that sleep, \<open>woken\<close> those of the threads that were woken and have not
  looked at the bookkeeping again yet.
\<close>

section \<open>Bookkeeping\<close>

record cond =
  parked :: nat
  tokens :: nat
  generation :: "64 word"
  asleep :: "64 word list"
  woken :: "64 word list"

definition cond_new :: cond where
  "cond_new = \<lparr>parked = 0, tokens = 0, generation = 0, asleep = [], woken = []\<rparr>"

text \<open>One turn of the loop in \<open>wait\<close>: whether the thread leaves; otherwise it goes to sleep.\<close>

definition cond_check :: "cond \<Rightarrow> 64 word \<Rightarrow> bool \<times> cond" where
  "cond_check c g =
     (if 0 < tokens c then (True, c\<lparr>tokens := tokens c - 1, parked := parked c - 1\<rparr>)
      else if generation c \<noteq> g then (True, c\<lparr>parked := parked c - 1\<rparr>)
      else (False, c\<lparr>asleep := g # asleep c\<rparr>))"

text \<open>\<open>wait\<close> up to its first sleep: registration, the generation it read, and the first turn.\<close>

definition cond_wait :: "cond \<Rightarrow> bool \<times> 64 word \<times> cond" where
  "cond_wait c =
     (let c1 = c\<lparr>parked := parked c + 1\<rparr>; g = generation c1; (leaves, c2) = cond_check c1 g
      in (leaves, g, c2))"

text \<open>A sleeping thread of generation \<open>g\<close> comes back: it was woken, or the wake-up is spurious.\<close>

definition cond_resume :: "cond \<Rightarrow> 64 word \<Rightarrow> (bool \<times> cond) list" where
  "cond_resume c g =
     (if g \<in> set (woken c) then [cond_check (c\<lparr>woken := remove1 g (woken c)\<rparr>) g] else [])
     @ (if g \<in> set (asleep c) then [cond_check (c\<lparr>asleep := remove1 g (asleep c)\<rparr>) g] else [])"

definition notify_one :: "cond \<Rightarrow> cond list" where
  "notify_one c =
     (if asleep c = [] then [c]
      else map (\<lambda>g. c\<lparr>asleep := remove1 g (asleep c), woken := g # woken c\<rparr>) (asleep c))"

definition cond_signal :: "cond \<Rightarrow> cond list" where
  "cond_signal c =
     (if tokens c < parked c then notify_one (c\<lparr>tokens := tokens c + 1\<rparr>) else [c])"

definition cond_broadcast :: "cond \<Rightarrow> cond" where
  "cond_broadcast c =
     (if 0 < parked c
      then c\<lparr>generation := generation c + 1, tokens := 0, asleep := [], woken := asleep c @ woken c\<rparr>
      else c)"

section \<open>The invariant\<close>

text \<open>
  \<open>gens\<close> are the generations of the threads inside \<open>wait\<close>: every one is counted and is asleep or
  woken; the sleeping ones belong to the current generation; every token has a woken thread to
  take it.
\<close>

definition cond_inv :: "cond \<Rightarrow> 64 word multiset \<Rightarrow> bool" where
  "cond_inv c gens \<longleftrightarrow> mset (asleep c) + mset (woken c) = gens \<and> parked c = size gens
     \<and> (\<forall>g \<in> set (asleep c). g = generation c) \<and> tokens c \<le> length (woken c)"

lemma cond_inv_new: "cond_inv cond_new {#}"
  by (simp add: cond_inv_def cond_new_def)

lemma cond_inv_tokens_le: "cond_inv c gens \<Longrightarrow> tokens c \<le> parked c"
  by (auto simp: cond_inv_def simp flip: size_mset)

lemma cond_inv_check:
  assumes "mset (asleep c) + mset (woken c) = gens" and "parked c = Suc (size gens)"
    and "\<forall>h \<in> set (asleep c). h = generation c" and "tokens c \<le> Suc (length (woken c))"
    and "cond_check c g = (leaves, c')"
  shows "cond_inv c' (if leaves then gens else add_mset g gens)"
  using assms by (auto simp: cond_check_def cond_inv_def split: if_splits)

lemma cond_inv_wait:
  assumes "cond_inv c gens" and "cond_wait c = (leaves, g, c')"
  shows "cond_inv c' (if leaves then gens else add_mset g gens)"
  using assms by (intro cond_inv_check [of "c\<lparr>parked := parked c + 1\<rparr>"])
    (auto simp: cond_inv_def cond_wait_def Let_def split: prod.splits)

lemma cond_inv_resume:
  assumes inv: "cond_inv c (add_mset g gens)" and step: "(leaves, c') \<in> set (cond_resume c g)"
  shows "cond_inv c' (if leaves then gens else add_mset g gens)"
proof -
  consider (woken) "g \<in> set (woken c)" "cond_check (c\<lparr>woken := remove1 g (woken c)\<rparr>) g = (leaves, c')"
    | (spurious) "g \<in> set (asleep c)" "cond_check (c\<lparr>asleep := remove1 g (asleep c)\<rparr>) g = (leaves, c')"
    using step by (auto simp: cond_resume_def split: if_splits)
  then show ?thesis
  proof cases
    case woken
    obtain k where "length (woken c) = Suc k" using woken(1) by (cases "woken c") auto
    with inv woken show ?thesis
      by (intro cond_inv_check [OF _ _ _ _ woken(2)])
        (auto simp: cond_inv_def length_remove1)
  next
    case spurious
    have "\<forall>h \<in> set (remove1 g (asleep c)). h = generation c"
      using inv unfolding cond_inv_def by (blast dest: in_remove1D)
    with inv spurious(1) show ?thesis
      by (intro cond_inv_check [OF _ _ _ _ spurious(2)]) (simp_all add: cond_inv_def)
  qed
qed

lemma cond_inv_signal:
  assumes inv: "cond_inv c gens" and step: "c' \<in> set (cond_signal c)"
  shows "cond_inv c' gens"
proof (cases "tokens c < parked c")
  case False
  with assms show ?thesis by (simp add: cond_signal_def)
next
  case True
  show ?thesis
  proof (cases "asleep c = []")
    case empty: True
    with inv have "parked c = length (woken c)" by (auto simp: cond_inv_def)
    with True inv step empty show ?thesis by (auto simp: cond_signal_def notify_one_def cond_inv_def)
  next
    case False
    with True step obtain g where g: "g \<in> set (asleep c)"
      "c' = c\<lparr>tokens := tokens c + 1, asleep := remove1 g (asleep c), woken := g # woken c\<rparr>"
      by (auto simp: cond_signal_def notify_one_def)
    have "\<forall>h \<in> set (remove1 g (asleep c)). h = generation c"
      using inv unfolding cond_inv_def by (blast dest: in_remove1D)
    moreover have "g \<in># gens" using inv g(1) by (auto simp: cond_inv_def)
    ultimately show ?thesis using inv g by (simp add: cond_inv_def)
  qed
qed

lemma cond_inv_broadcast: "cond_inv c gens \<Longrightarrow> cond_inv (cond_broadcast c) gens"
  by (auto simp: cond_inv_def cond_broadcast_def ac_simps)

text \<open>A thread in \<open>wait\<close> can always be resumed (at worst spuriously), and leaves only with cause.\<close>

lemma cond_resume_leaves:
  "(True, c') \<in> set (cond_resume c g) \<Longrightarrow> 0 < tokens c \<or> generation c \<noteq> g"
  by (auto simp: cond_resume_def cond_check_def split: if_splits)

lemma cond_token_taken:
  assumes "cond_inv c gens" and "0 < tokens c"
  shows "\<exists>g c'. g \<in># gens \<and> g \<in> set (woken c) \<and> (True, c') \<in> set (cond_resume c g)"
proof -
  obtain g gs where g: "woken c = g # gs"
    using assms by (cases "woken c") (auto simp: cond_inv_def)
  moreover have "g \<in># gens" using assms(1) g by (auto simp: cond_inv_def)
  moreover have "(True, c\<lparr>woken := gs, tokens := tokens c - 1, parked := parked c - 1\<rparr>) \<in> set (cond_resume c g)"
    using assms(2) g by (simp add: cond_resume_def cond_check_def)
  ultimately show ?thesis by auto
qed

section \<open>Threads around the condition variable\<close>

datatype cond_pc = Wait | Sleep "64 word" | Left | Signal | Broadcast | Gone

fun cond_moves :: "(cond, cond_pc) moves" where
  "cond_moves c Wait = (let (leaves, g, c') = cond_wait c in [(c', [if leaves then Left else Sleep g])])"
| "cond_moves c (Sleep g) = map (\<lambda>(leaves, c'). (c', [if leaves then Left else Sleep g])) (cond_resume c g)"
| "cond_moves c Left = []"
| "cond_moves c Signal = map (\<lambda>c'. (c', [Gone])) (cond_signal c)"
| "cond_moves c Broadcast = [(cond_broadcast c, [Gone])]"
| "cond_moves c Gone = []"

fun cond_entry :: "cond_pc \<Rightarrow> bool" where
  "cond_entry p \<longleftrightarrow> p = Wait \<or> p = Signal \<or> p = Broadcast"

fun sleeping :: "cond_pc \<Rightarrow> 64 word multiset" where
  "sleeping (Sleep g) = {#g#}"
| "sleeping _ = {#}"

abbreviation cond_reachable :: "cond \<Rightarrow> cond_pc multiset \<Rightarrow> bool" where
  "cond_reachable \<equiv> reachable cond_moves cond_new {#} cond_entry"

interpretation sleepers: ledger cond_moves cond_new "{#}" cond_entry "\<lambda>_ _. True" sleeping cond_inv
proof (unfold_locales, goal_cases)
  case (2)
  show ?case by (simp add: cond_inv_new)
next
  case (3 p s x)
  then show ?case by auto
next
  case (4 s p M s' ps)
  note inv = 4(3) and step = 4(2)
  show ?case
  proof (cases p)
    case Wait
    obtain leaves g c' where w: "cond_wait s = (leaves, g, c')" by (cases "cond_wait s") auto
    with Wait inv step cond_inv_wait [OF _ w, of "total sleeping M"] show ?thesis by (cases leaves) auto
  next
    case (Sleep g)
    with step obtain leaves c' where r: "(leaves, c') \<in> set (cond_resume s g)"
      "s' = c'" "ps = [if leaves then Left else Sleep g]" by auto
    have "cond_inv s (add_mset g (total sleeping M))" using inv Sleep by simp
    from cond_inv_resume [OF this r(1)] r(2,3) show ?thesis by (cases leaves) auto
  next
    case Signal
    then show ?thesis using inv step cond_inv_signal [of s "total sleeping M"] by auto
  next
    case Broadcast
    then show ?thesis using inv step cond_inv_broadcast [of s "total sleeping M"] by auto
  qed (use step in simp_all)
qed simp

text \<open>
  No wake-up is lost: as long as a token is there, some waiting thread is awake and takes it.
\<close>

lemma token_has_taker:
  assumes "cond_reachable c M" and "0 < tokens c"
  shows "\<exists>g c'. Sleep g \<in># M \<and> g \<in> set (woken c) \<and> (c', [Left]) \<in> set (cond_moves c (Sleep g))"
proof -
  have "cond_inv c (total sleeping M)" using assms(1) by (rule sleepers.balanced)
  then obtain g c' where g: "g \<in># total sleeping M" "g \<in> set (woken c)" "(True, c') \<in> set (cond_resume c g)"
    using cond_token_taken [OF _ assms(2)] by blast
  have "Sleep g \<in># M"
    using g(1)
  proof (induction M)
    case (add p M)
    then show ?case by (cases p) auto
  qed simp
  with g show ?thesis by force
qed

lemma sleeping_size: "size (total sleeping M) = size (filter_mset (\<lambda>p. \<exists>g. p = Sleep g) M)"
proof (induction M)
  case (add p M)
  then show ?case by (cases p) auto
qed simp

section \<open>Properties\<close>

text \<open>C31: No signal is lost: as long as a token that \<open>signal\<close> issued is there, some thread inside \<open>wait\<close> is
  awake, and its next step takes the token and leaves; and the bookkeeping counts the threads inside.\<close>

theorem signal_reaches_a_waiter:
  assumes "cond_reachable c M" and "0 < tokens c"
  shows "parked c = size (filter_mset (\<lambda>p. \<exists>g. p = Sleep g) M)
    \<and> (\<exists>g c'. Sleep g \<in># M \<and> g \<in> set (woken c) \<and> (c', [Left]) \<in> set (cond_moves c (Sleep g)))"
  using token_has_taker [OF assms] sleepers.balanced [OF assms(1)] by (simp add: cond_inv_def sleeping_size)

theorem signal_reaches_a_waiter_witness:
  "parked \<lparr>parked = 1, tokens = 1, generation = 0, asleep = [], woken = [0]\<rparr>
      = size (filter_mset (\<lambda>p. \<exists>g. p = Sleep g) (mset [Gone, Sleep 0]))
    \<and> (\<exists>g c'. Sleep g \<in># mset [Gone, Sleep 0]
        \<and> g \<in> set (woken \<lparr>parked = 1, tokens = 1, generation = 0, asleep = [], woken = [0]\<rparr>)
        \<and> (c', [Left]) \<in> set (cond_moves \<lparr>parked = 1, tokens = 1, generation = 0, asleep = [], woken = [0]\<rparr> (Sleep g)))"
proof (rule signal_reaches_a_waiter)
  have "cond_reachable cond_new (mset [Wait, Signal])"
    using reachable_enter_all [OF reachable.start, of cond_entry "[Wait, Signal]" cond_moves cond_new "{#}"] by simp
  then show "cond_reachable \<lparr>parked = 1, tokens = 1, generation = 0, asleep = [], woken = [0]\<rparr> (mset [Gone, Sleep 0])"
    by (rule play_reachable [where schedule = "[(0, 0), (1, 0)]"])
      (simp add: cond_new_def cond_wait_def cond_check_def cond_signal_def notify_one_def Let_def)
qed simp

text \<open>A broadcast frees every waiter: after it no thread is asleep, and every thread that was inside
  \<open>wait\<close> is awake and leaves at its next step (the generation counter has 64 bits).\<close>

lemma broadcast_frees_all_waiters:
  assumes "cond_reachable c M" and "(c', ps) \<in> set (cond_moves c Broadcast)" and "Sleep g \<in># M"
  shows "asleep c' = [] \<and> g \<in> set (woken c')
    \<and> (g \<noteq> generation c + 1 \<longrightarrow> (\<forall>m \<in> set (cond_moves c' (Sleep g)). snd m = [Left]))"
proof -
  have inv: "cond_inv c (total sleeping M)" using assms(1) by (rule sleepers.balanced)
  have mem: "g \<in># total sleeping M" by (rule total_mset_mem [OF assms(3)]) simp
  have book: "mset (asleep c) + mset (woken c) = total sleeping M" "parked c = size (total sleeping M)"
    using inv by (simp_all add: cond_inv_def)
  have g: "g \<in> set (asleep c) \<or> g \<in> set (woken c)"
    using mem unfolding book(1) [symmetric] by simp
  have "total sleeping M \<noteq> {#}" using mem by auto
  then have "0 < parked c" using book(2) by (simp add: nonempty_has_size)
  then have c': "c' = c\<lparr>generation := generation c + 1, tokens := 0, asleep := [], woken := asleep c @ woken c\<rparr>"
    using assms(2) by (simp add: cond_broadcast_def)
  with g show ?thesis by (auto simp: cond_resume_def cond_check_def)
qed

lemma demo_sleep_reachable: "cond_reachable \<lparr>parked = 1, tokens = 0, generation = 0, asleep = [0], woken = []\<rparr> (mset [Sleep 0])"
proof (rule play_reachable)
  show "cond_reachable cond_new (mset [Wait])"
    using reachable_enter_all [OF reachable.start, of cond_entry "[Wait]" cond_moves cond_new "{#}"] by simp
  show "play cond_moves cond_new [Wait] [(0, 0)]
      = Some (\<lparr>parked = 1, tokens = 0, generation = 0, asleep = [0], woken = []\<rparr>, [Sleep 0])"
    by (simp add: cond_new_def cond_wait_def cond_check_def Let_def)
qed

definition demo_awake :: cond where
  "demo_awake = \<lparr>parked = 1, tokens = 0, generation = 1, asleep = [], woken = [0]\<rparr>"

lemma broadcast_frees_all_waiters_example:
  "asleep demo_awake = [] \<and> 0 \<in> set (woken demo_awake) \<and> snd ` set (cond_moves demo_awake (Sleep 0)) \<subseteq> {[Left]}"
  using broadcast_frees_all_waiters [OF demo_sleep_reachable, of demo_awake "[Gone]" 0]
  by (auto simp: cond_broadcast_def demo_awake_def)

end
