(* ===== verification/Go_Context.thy ===== *)
theory Go_Context
  imports Go_Time
begin

text \<open>
  The one-shot latch (src/src/deps/event.rs) and the cancellation context built on it
  (src/src/deps/context.rs). An instant is a natural number of nanoseconds of the monotonic clock.

  The blocking loops read the latch and the clock anew at every wake-up, and other threads may
  close the latch in between. A loop therefore takes the list of what its successive iterations
  observe; it is still blocked (\<open>None\<close>) when the list ends before the loop does.
\<close>

section \<open>The latch\<close>

datatype event = Event (closed: bool)

definition event_new :: event where "event_new = Event False"

definition event_close :: "event \<Rightarrow> event" where
  "event_close e = (if \<not> closed e then Event True else e)"

definition event_is_closed :: "event \<Rightarrow> bool" where "event_is_closed e = closed e"

fun event_wait :: "bool list \<Rightarrow> unit option" where
  "event_wait [] = None"
| "event_wait (c # obs) = (if \<not> c then event_wait obs else Some ())"

fun event_wait_loop :: "nat \<Rightarrow> (bool \<times> nat) list \<Rightarrow> bool option" where
  "event_wait_loop deadline [] = None"
| "event_wait_loop deadline ((c, now) # obs) =
     (if \<not> c then
        (if deadline < now then Some c
         else if deadline - now = 0 then Some c
         else event_wait_loop deadline obs)
      else Some True)"

definition event_wait_timeout :: "nat \<Rightarrow> nat \<Rightarrow> (bool \<times> nat) list \<Rightarrow> bool option" where
  "event_wait_timeout start timeout obs = event_wait_loop (start + timeout) obs"

lemma event_close_closed [simp]: "closed (event_close e)"
  by (simp add: event_close_def)

lemma event_close_idem [simp]: "event_close (event_close e) = event_close e"
  by (simp add: event_close_def)

lemma event_new_open [simp]: "\<not> closed event_new"
  by (simp add: event_new_def)

lemma event_wait_returns_iff: "event_wait obs = Some () \<longleftrightarrow> True \<in> set obs"
  by (induction obs) auto

lemma event_wait_loop_True:
  "event_wait_loop d obs = Some True \<Longrightarrow> \<exists>ob \<in> set obs. fst ob"
  by (induction d obs rule: event_wait_loop.induct) (auto split: if_splits)

lemma event_wait_loop_False:
  "event_wait_loop d obs = Some False \<Longrightarrow> \<exists>ob \<in> set obs. \<not> fst ob \<and> d \<le> snd ob"
  by (induction d obs rule: event_wait_loop.induct) (auto split: if_splits)

lemma event_wait_loop_returns:
  "\<exists>ob \<in> set obs. fst ob \<or> d \<le> snd ob \<Longrightarrow> event_wait_loop d obs \<noteq> None"
  by (induction d obs rule: event_wait_loop.induct) auto

section \<open>Contexts\<close>

text \<open>
  \<open>Context\<close> and \<open>CancelFunc\<close> share one \<open>Inner\<close>, which is the value the operations read and update.
\<close>

record inner =
  cancelled :: event
  deadline :: "nat option"

definition cancel :: "inner \<Rightarrow> inner" where
  "cancel c = c\<lparr>cancelled := event_close (cancelled c)\<rparr>"

definition background :: inner where
  "background = \<lparr>cancelled = event_new, deadline = None\<rparr>"

definition with_cancel :: inner where
  "with_cancel = \<lparr>cancelled = event_new, deadline = None\<rparr>"

definition with_timeout :: "nat \<Rightarrow> duration \<Rightarrow> inner" where
  "with_timeout now timeout = \<lparr>cancelled = event_new, deadline = Some (now + to_std timeout)\<rparr>"

definition past_deadline :: "inner \<Rightarrow> nat \<Rightarrow> bool" where
  "past_deadline c now = (case deadline c of None \<Rightarrow> False | Some d \<Rightarrow> d \<le> now)"

text \<open>\<open>saturating_duration_since\<close> is the truncating subtraction of \<open>nat\<close>.\<close>

definition remaining :: "inner \<Rightarrow> nat \<Rightarrow> nat option" where
  "remaining c now = map_option (\<lambda>d. d - now) (deadline c)"

definition is_done :: "inner \<Rightarrow> nat \<Rightarrow> bool" where
  "is_done c now \<longleftrightarrow> event_is_closed (cancelled c) \<or> past_deadline c now"

definition err :: "inner \<Rightarrow> nat \<Rightarrow> error option" where
  "err c now =
     (if event_is_closed (cancelled c) then Some Canceled
      else if past_deadline c now then Some DeadlineExceeded
      else None)"

text \<open>
  \<open>wait_done_for\<close> reads the clock for the remaining time (\<open>now0\<close>), again when it starts the timed
  wait (\<open>now1\<close>), and the context once more at the end (\<open>fin\<close>, the context as it is then).
\<close>

definition wait_done_for ::
  "inner \<Rightarrow> duration \<Rightarrow> nat \<Rightarrow> nat \<Rightarrow> (bool \<times> nat) list \<Rightarrow> inner \<times> nat \<Rightarrow> bool option" where
  "wait_done_for c timeout now0 now1 obs fin =
     (let bounded = (case remaining c now0 of
                       Some r \<Rightarrow> min r (to_std timeout)
                     | None \<Rightarrow> to_std timeout)
      in case event_wait_timeout now1 bounded obs of
           None \<Rightarrow> None
         | Some True \<Rightarrow> Some True
         | Some False \<Rightarrow> Some (is_done (fst fin) (snd fin)))"

text \<open>One turn of the loop of \<open>wait\<close>: what it reads first, the clock of \<open>remaining\<close>, the start of
  the timed wait and the observations of that wait.\<close>

record wait_turn =
  turn_ctx :: inner
  turn_now :: nat
  turn_now_remaining :: nat
  turn_start :: nat
  turn_obs :: "(bool \<times> nat) list"

fun wait :: "wait_turn list \<Rightarrow> unit option" where
  "wait [] = None"
| "wait (t # ts) =
     (if is_done (turn_ctx t) (turn_now t) then Some ()
      else case remaining (turn_ctx t) (turn_now_remaining t) of
             Some r \<Rightarrow>
               (case event_wait_timeout (turn_start t) r (turn_obs t) of
                  None \<Rightarrow> None
                | Some True \<Rightarrow> Some ()
                | Some False \<Rightarrow> wait ts)
           | None \<Rightarrow> event_wait (map fst (turn_obs t)))"

section \<open>Facts about contexts\<close>

lemma is_done_iff_err: "is_done c now \<longleftrightarrow> err c now \<noteq> None"
  by (simp add: is_done_def err_def)

lemma is_done_mono: "is_done c now \<Longrightarrow> now \<le> now' \<Longrightarrow> is_done c now'"
  by (auto simp: is_done_def past_deadline_def split: option.splits)

lemma cancel_err: "err (cancel c) now = Some Canceled"
  by (simp add: cancel_def err_def event_is_closed_def)

lemma cancel_idem: "cancel (cancel c) = cancel c"
  by (simp add: cancel_def)

lemma background_never_done: "\<not> is_done background now"
  by (simp add: background_def is_done_def past_deadline_def event_is_closed_def)

lemma with_timeout_err:
  "err (with_timeout start d) now =
     (if start + to_std d \<le> now then Some DeadlineExceeded else None)"
  by (simp add: with_timeout_def err_def past_deadline_def event_is_closed_def)

lemma remaining_zero_iff:
  "deadline c = Some d \<Longrightarrow> remaining c now = Some 0 \<longleftrightarrow> past_deadline c now"
  by (simp add: remaining_def past_deadline_def)

text \<open>
  A wait that reports \<open>False\<close> really waited: its time-out, cut to what was left of the deadline,
  had passed at some observation, and the context was not done at the end.
\<close>

lemma wait_done_for_False:
  assumes "wait_done_for c timeout now0 now1 obs fin = Some False"
  shows "\<not> is_done (fst fin) (snd fin)"
    and "\<exists>ob \<in> set obs. \<not> fst ob \<and>
      now1 + (case remaining c now0 of Some r \<Rightarrow> min r (to_std timeout) | None \<Rightarrow> to_std timeout) \<le> snd ob"
  using assms
  by (auto simp: wait_done_for_def event_wait_timeout_def Let_def
      split: option.splits bool.splits dest!: event_wait_loop_False)

section \<open>Properties\<close>

text \<open>A timed wait on a context tells the truth: \<open>true\<close> means that the context was cancelled or past
  its deadline, and \<open>false\<close> that it was not done at the end although the whole time-out, cut to what was
  left of the deadline, had passed.\<close>

lemma context_wait_truthful:
  assumes "wait_done_for c timeout now0 now1 obs fin = Some b"
  shows "if b then (\<exists>ob \<in> set obs. fst ob) \<or> is_done (fst fin) (snd fin)
    else \<not> is_done (fst fin) (snd fin) \<and> (\<exists>ob \<in> set obs. \<not> fst ob \<and>
      now1 + (case remaining c now0 of Some r \<Rightarrow> min r (to_std timeout) | None \<Rightarrow> to_std timeout) \<le> snd ob)"
  using wait_done_for_False [of c timeout now0 now1 obs fin] assms
  by (cases b) (auto simp: wait_done_for_def event_wait_timeout_def Let_def
      split: option.splits bool.splits dest!: event_wait_loop_True)

lemma context_wait_truthful_example:
  "if False then (\<exists>ob \<in> set [(False, 3), (False, 16)]. fst ob) \<or> is_done background 20
    else \<not> is_done background 20 \<and> (\<exists>ob \<in> set [(False, 3), (False, 16)]. \<not> fst ob \<and>
      5 + (case remaining background 4 of Some r \<Rightarrow> min r (to_std (Duration 10)) | None \<Rightarrow> to_std (Duration 10)) \<le> snd ob)"
  using context_wait_truthful [of background "Duration 10" 4 5 "[(False, 3), (False, 16)]" "(background, 20)" False]
  by (simp add: wait_done_for_def background_def remaining_def event_wait_timeout_def to_std_def
      is_done_def event_is_closed_def past_deadline_def)

end
