(* ===== verification/Pool_Options.thy ===== *)
theory Pool_Options
  imports Go_Time
begin

text \<open>
  The functional options of a pool (src/src/options.rs). The panic handler and the logger are
  opaque values of type \<open>'h\<close> and \<open>'l\<close>. An \<open>Opt\<close> is the function on \<open>Options\<close> it wraps.
\<close>

record ('h, 'l) options =
  expiry_duration :: duration
  pre_alloc :: bool
  max_blocking_tasks :: i32
  nonblocking :: bool
  panic_handler :: "'h option"
  logger :: "'l option"
  disable_purge :: bool

type_synonym ('h, 'l) opt = "('h, 'l) options \<Rightarrow> ('h, 'l) options"

definition default_options :: "('h, 'l) options" where
  "default_options = \<lparr>expiry_duration = Duration 0, pre_alloc = False, max_blocking_tasks = 0,
     nonblocking = False, panic_handler = None, logger = None, disable_purge = False\<rparr>"

fun load_options_loop :: "('h, 'l) opt list \<Rightarrow> ('h, 'l) options \<Rightarrow> ('h, 'l) options" where
  "load_options_loop [] opts = opts"
| "load_options_loop (option # rest) opts = load_options_loop rest (option opts)"

definition load_options :: "('h, 'l) opt list \<Rightarrow> ('h, 'l) options" where
  "load_options options = load_options_loop options default_options"

definition options_logger :: "'l \<Rightarrow> ('h, 'l) options \<Rightarrow> 'l" where
  "options_logger dflt opts = (case logger opts of Some l \<Rightarrow> l | None \<Rightarrow> dflt)"

definition with_options :: "('h, 'l) options \<Rightarrow> ('h, 'l) opt" where
  "with_options options = (\<lambda>opts. options)"

definition with_expiry_duration :: "duration \<Rightarrow> ('h, 'l) opt" where
  "with_expiry_duration d = (\<lambda>opts. opts\<lparr>expiry_duration := d\<rparr>)"

definition with_pre_alloc :: "bool \<Rightarrow> ('h, 'l) opt" where
  "with_pre_alloc b = (\<lambda>opts. opts\<lparr>pre_alloc := b\<rparr>)"

definition with_max_blocking_tasks :: "i32 \<Rightarrow> ('h, 'l) opt" where
  "with_max_blocking_tasks n = (\<lambda>opts. opts\<lparr>max_blocking_tasks := n\<rparr>)"

definition with_nonblocking :: "bool \<Rightarrow> ('h, 'l) opt" where
  "with_nonblocking b = (\<lambda>opts. opts\<lparr>nonblocking := b\<rparr>)"

definition with_panic_handler :: "'h \<Rightarrow> ('h, 'l) opt" where
  "with_panic_handler h = (\<lambda>opts. opts\<lparr>panic_handler := Some h\<rparr>)"

definition with_logger :: "'l \<Rightarrow> ('h, 'l) opt" where
  "with_logger l = (\<lambda>opts. opts\<lparr>logger := Some l\<rparr>)"

definition with_disable_purge :: "bool \<Rightarrow> ('h, 'l) opt" where
  "with_disable_purge b = (\<lambda>opts. opts\<lparr>disable_purge := b\<rparr>)"

lemmas option_setter_defs =
  with_options_def with_expiry_duration_def with_pre_alloc_def with_max_blocking_tasks_def
  with_nonblocking_def with_panic_handler_def with_logger_def with_disable_purge_def

lemma load_options_append:
  "load_options_loop (xs @ ys) opts = load_options_loop ys (load_options_loop xs opts)"
  by (induction xs arbitrary: opts) simp_all

lemma load_options_snoc: "load_options (xs @ [f]) = f (load_options xs)"
  by (simp add: load_options_def load_options_append)

text \<open>A whole configuration discards every earlier option.\<close>

lemma load_options_with_options:
  "load_options (xs @ with_options opts # ys) = load_options_loop ys opts"
  by (simp add: load_options_def load_options_append with_options_def)

section \<open>Settings\<close>

text \<open>The options a caller writes, as data: a setting and the function it stands for.\<close>

datatype ('h, 'l) setting =
    Expiry duration | PreAlloc bool | MaxBlocking i32 | Nonblocking bool | OnPanic 'h | LogTo 'l | NoPurge bool

fun setter :: "('h, 'l) setting \<Rightarrow> ('h, 'l) opt" where
  "setter (Expiry d) = with_expiry_duration d"
| "setter (PreAlloc b) = with_pre_alloc b"
| "setter (MaxBlocking n) = with_max_blocking_tasks n"
| "setter (Nonblocking b) = with_nonblocking b"
| "setter (OnPanic h) = with_panic_handler h"
| "setter (LogTo l) = with_logger l"
| "setter (NoPurge b) = with_disable_purge b"

fun last_setting :: "'a \<Rightarrow> 'a list \<Rightarrow> 'a" where
  "last_setting dflt [] = dflt"
| "last_setting dflt (x # xs) = last_setting x xs"

lemma last_setting_snoc [simp]: "last_setting dflt (xs @ [x]) = x"
  by (induction xs arbitrary: dflt) simp_all

text \<open>The options of a pool are independent and the last setting of each wins: every field is the
  last value given for it, or its default.\<close>

lemma last_setting_wins:
  "load_options (map setter ss) =
    \<lparr>expiry_duration = last_setting (Duration 0) [d. Expiry d \<leftarrow> ss],
     pre_alloc = last_setting False [b. PreAlloc b \<leftarrow> ss],
     max_blocking_tasks = last_setting 0 [n. MaxBlocking n \<leftarrow> ss],
     nonblocking = last_setting False [b. Nonblocking b \<leftarrow> ss],
     panic_handler = last_setting None [Some h. OnPanic h \<leftarrow> ss],
     logger = last_setting None [Some l. LogTo l \<leftarrow> ss],
     disable_purge = last_setting False [b. NoPurge b \<leftarrow> ss]\<rparr>"
proof (induction ss rule: rev_induct)
  case Nil
  show ?case by (simp add: load_options_def default_options_def)
next
  case (snoc x ss)
  then show ?case by (cases x) (simp_all add: load_options_snoc option_setter_defs)
qed

end
