(* ===== verification/Pool_State.thy ===== *)
theory Pool_State
  imports Queue_Factory Cond_Var Go_Context Pool_Options
begin

text \<open>
  The state of a pool (struct \<open>PoolCore\<close> of src/src/pool_common.rs, \<open>GoWorker\<close> of
  src/src/worker.rs) and the operations that run in one atomic access: the constructor, the
  getters, the worker channel, the cache of retired workers, the start of the background threads.
  The threads that use it are in Pool_Threads.

  Heap objects are numbered in the order of their allocation: a \<open>GoWorker\<close> is a number below
  \<open>next_worker\<close>, a cancellation context an index into \<open>ctxs\<close>, a latch an index into \<open>events\<close>.
  \<open>wall_clock\<close> is the system clock, \<open>instant\<close> the monotonic one, counted from the creation of the pool.
\<close>

section \<open>Workers and their channels\<close>

datatype 't message = Payload 't | Finish

text \<open>What running one payload does: it returns the closure's \<open>bool\<close>, or it panics with a value.\<close>

datatype panic_value = StaticStr string | OwnedString string | OtherPanic

datatype call_result = CallOk bool | CallPanic panic_value

definition describe :: "panic_value \<Rightarrow> string" where
  "describe v = (case v of StaticStr s \<Rightarrow> s | OwnedString s \<Rightarrow> s | OtherPanic \<Rightarrow> ''unknown panic payload'')"

text \<open>How a recovered panic was reported: to the configured handler, or as a line of a logger.\<close>

datatype ('h, 'l) report = Handled 'h panic_value | Logged 'l string

definition report_panic :: "'l \<Rightarrow> string \<Rightarrow> ('h, 'l) options \<Rightarrow> panic_value \<Rightarrow> ('h, 'l) report" where
  "report_panic dflt backtrace opts v =
     (case panic_handler opts of
        Some handler \<Rightarrow> Handled handler v
      | None \<Rightarrow> Logged (options_logger dflt opts)
                  (''worker exits from panic: '' @ describe v @ ''\<newline>'' @ backtrace @ ''\<newline>''))"

text \<open>
  All channels together are one list of the messages in flight, each with the worker it was sent
  to; the messages of one worker are taken in the order they were sent.
\<close>

type_synonym 't mail = "(nat \<times> 't message) list"

definition channel :: "nat \<Rightarrow> 't mail \<Rightarrow> 't message list" where
  "channel w m = map snd (filter (\<lambda>x. fst x = w) m)"

definition recv :: "nat \<Rightarrow> 't mail \<Rightarrow> ('t message \<times> 't mail) option" where
  "recv w m =
     (case List.extract (\<lambda>x. fst x = w) m of
        None \<Rightarrow> None
      | Some (before, x, after) \<Rightarrow> Some (snd x, before @ after))"

text \<open>
  \<open>send\<close> blocks while the channel holds its capacity. A channel of capacity zero hands the message
  over when the receiver takes it; here the sender may go on a little earlier, while the message is
  the only one in the channel, so the model has every run of the program and a few more.
\<close>

definition has_room :: "nat \<Rightarrow> nat \<Rightarrow> 't mail \<Rightarrow> bool" where
  "has_room chan_cap w m \<longleftrightarrow> length (channel w m) < max 1 chan_cap"

lemma recv_Some:
  "recv w m = Some (x, m') \<Longrightarrow> \<exists>before after. m = before @ (w, x) # after \<and> m' = before @ after"
  by (fastforce simp: recv_def extract_Some_iff split: option.splits)

lemma recv_None: "recv w m = None \<longleftrightarrow> channel w m = []"
  by (fastforce simp: recv_def channel_def extract_None_iff extract_Some_iff filter_empty_conv split: option.splits)

lemma recv_channel: "recv w m = Some (x, m') \<Longrightarrow> channel w m = x # channel w m'"
  by (auto simp: recv_def channel_def extract_Some_iff filter_empty_conv split: option.splits)

lemma recv_other_channel: "recv w m = Some (x, m') \<Longrightarrow> v \<noteq> w \<Longrightarrow> channel v m' = channel v m"
  by (auto simp: recv_def channel_def extract_Some_iff split: option.splits)

lemma channel_send: "channel v (m @ [(w, x)]) = channel v m @ (if v = w then [x] else [])"
  by (simp add: channel_def)

section \<open>The pool\<close>

record ('t, 'h, 'l) pool =
  capacity :: i32
  running :: i32
  lock_state :: nat
  workers :: "nat any_queue"
  pool_state :: i32
  pool_cond :: cond
  all_done :: nat
  worker_cache :: "nat list"
  waiting :: i32
  purge_done :: i32
  purge_ctx :: "nat option"
  stop_purge :: "nat option"
  ticktock_done :: i32
  ticktock_ctx :: "nat option"
  stop_ticktock :: "nat option"
  now :: i64
  options :: "('h, 'l) options"
  last_used :: "nat \<Rightarrow> i64"
  mail :: "'t mail"
  next_worker :: nat
  ctxs :: "inner list"
  events :: "event list"
  wall_clock :: i64
  instant :: nat
  executed :: "'t list"
  reports :: "('h, 'l) report list"

text \<open>
  What is fixed for a pool and its environment: the build's overflow checks, the capacity of a
  worker's channel, the closure over payloads, the crate's default logger, the captured backtrace.
\<close>

record ('t, 'l) config =
  overflow_checks :: bool
  chan_cap :: nat
  run_payload :: "'t \<Rightarrow> call_result"
  dflt_logger :: 'l
  backtrace :: string

section \<open>Getters\<close>

definition get_cap :: "('t, 'h, 'l) pool \<Rightarrow> i32" where "get_cap s = capacity s"

definition get_running :: "('t, 'h, 'l) pool \<Rightarrow> i32" where "get_running s = running s"

definition get_waiting :: "('t, 'h, 'l) pool \<Rightarrow> i32" where "get_waiting s = waiting s"

definition is_closed :: "('t, 'h, 'l) pool \<Rightarrow> bool" where "is_closed s \<longleftrightarrow> pool_state s = CLOSED"

text \<open>\<open>free\<close> with nothing happening between its two reads.\<close>

definition free :: "bool \<Rightarrow> ('t, 'h, 'l) pool \<Rightarrow> i32 option" where
  "free oc s = (if get_cap s < 0 then Some (- 1) else arith_i32 oc (get_cap s - get_running s))"

section \<open>Counters, cache and contexts\<close>

definition add_running :: "i32 \<Rightarrow> ('t, 'h, 'l) pool \<Rightarrow> ('t, 'h, 'l) pool" where
  "add_running delta s = s\<lparr>running := wrap_i32 (running s + delta)\<rparr>"

definition add_waiting :: "i32 \<Rightarrow> ('t, 'h, 'l) pool \<Rightarrow> ('t, 'h, 'l) pool" where
  "add_waiting delta s = s\<lparr>waiting := wrap_i32 (waiting s + delta)\<rparr>"

text \<open>The cache is a stack; an empty cache allocates a new worker, never used before.\<close>

definition recycle :: "nat \<Rightarrow> ('t, 'h, 'l) pool \<Rightarrow> ('t, 'h, 'l) pool" where
  "recycle w s = s\<lparr>worker_cache := worker_cache s @ [w]\<rparr>"

definition fetch_cached_worker :: "('t, 'h, 'l) pool \<Rightarrow> nat \<times> ('t, 'h, 'l) pool" where
  "fetch_cached_worker s =
     (if worker_cache s \<noteq> []
      then (last (worker_cache s), s\<lparr>worker_cache := butlast (worker_cache s)\<rparr>)
      else (next_worker s, s\<lparr>next_worker := next_worker s + 1,
                             last_used := (last_used s)(next_worker s := 0)\<rparr>))"

definition ctx_cancelled :: "nat \<Rightarrow> ('t, 'h, 'l) pool \<Rightarrow> bool" where
  "ctx_cancelled c s \<longleftrightarrow> c < length (ctxs s) \<and> event_is_closed (cancelled (ctxs s ! c))"

definition cancel_ctx :: "nat \<Rightarrow> ('t, 'h, 'l) pool \<Rightarrow> ('t, 'h, 'l) pool" where
  "cancel_ctx c s = s\<lparr>ctxs := (ctxs s)[c := cancel (ctxs s ! c)]\<rparr>"

definition event_closed :: "nat \<Rightarrow> ('t, 'h, 'l) pool \<Rightarrow> bool" where
  "event_closed e s \<longleftrightarrow> e < length (events s) \<and> event_is_closed (events s ! e)"

definition close_event :: "nat \<Rightarrow> ('t, 'h, 'l) pool \<Rightarrow> ('t, 'h, 'l) pool" where
  "close_event e s = s\<lparr>events := (events s)[e := event_close (events s ! e)]\<rparr>"

text \<open>
  \<open>go_purge\<close> and \<open>go_ticktock\<close> create a context and publish it and its cancel function, one store
  each; the thread they spawn is added by their caller.
\<close>

definition publish_purge_ctx :: "('t, 'h, 'l) pool \<Rightarrow> nat \<times> ('t, 'h, 'l) pool" where
  "publish_purge_ctx s =
     (length (ctxs s), s\<lparr>ctxs := ctxs s @ [with_cancel], purge_ctx := Some (length (ctxs s))\<rparr>)"

definition publish_ticktock_ctx :: "('t, 'h, 'l) pool \<Rightarrow> nat \<times> ('t, 'h, 'l) pool" where
  "publish_ticktock_ctx s =
     (length (ctxs s), s\<lparr>ctxs := ctxs s @ [with_cancel], ticktock_ctx := Some (length (ctxs s))\<rparr>)"

definition go_purge :: "('t, 'h, 'l) pool \<Rightarrow> ('t, 'h, 'l) pool" where
  "go_purge s =
     (if disable_purge (options s) then s
      else let (c, s1) = publish_purge_ctx s in s1\<lparr>stop_purge := Some c\<rparr>)"

definition go_ticktock :: "('t, 'h, 'l) pool \<Rightarrow> ('t, 'h, 'l) pool" where
  "go_ticktock s =
     (let s0 = s\<lparr>now := wall_clock s\<rparr>; (c, s1) = publish_ticktock_ctx s0 in s1\<lparr>stop_ticktock := Some c\<rparr>)"

section \<open>The constructor\<close>

definition empty_pool :: "i32 \<Rightarrow> nat any_queue \<Rightarrow> ('h, 'l) options \<Rightarrow> i64 \<Rightarrow> ('t, 'h, 'l) pool" where
  "empty_pool sz queue opts clock =
     \<lparr>capacity = sz, running = 0, lock_state = 0, workers = queue, pool_state = OPENED,
      pool_cond = cond_new, all_done = 0, worker_cache = [], waiting = 0,
      purge_done = 0, purge_ctx = None, stop_purge = None,
      ticktock_done = 0, ticktock_ctx = None, stop_ticktock = None, now = 0, options = opts,
      last_used = (\<lambda>_. 0), mail = [], next_worker = 0, ctxs = [], events = [event_new],
      wall_clock = clock, instant = 0, executed = [], reports = []\<rparr>"

definition normal_size :: "i32 \<Rightarrow> i32" where
  "normal_size n = (if n \<le> 0 then - 1 else n)"

text \<open>
  \<open>PoolCore::new\<close>: the options are checked in the source's order. The outer option is the panic of
  \<open>new_worker_queue\<close>; \<open>dflt\<close> is the crate's default logger. The purge and ticktock threads that it
  starts are \<open>initial_threads\<close> of Pool_Threads.
\<close>

definition core_new ::
  "'l \<Rightarrow> i64 \<Rightarrow> i32 \<Rightarrow> ('h, 'l) opt list \<Rightarrow> (error + ('t, 'h, 'l) pool) option" where
  "core_new dflt clock n opt_list =
     (let sz = normal_size n;
          opts = load_options opt_list;
          expiry = expiry_duration opts in
      if \<not> disable_purge opts \<and> expiry < ZERO then Some (Inl InvalidPoolExpiry)
      else
        let opts = (if \<not> disable_purge opts \<and> expiry = ZERO
                    then opts\<lparr>expiry_duration := DEFAULT_CLEAN_INTERVAL_TIME\<rparr> else opts);
            opts = (if logger opts = None then opts\<lparr>logger := Some dflt\<rparr> else opts) in
        if pre_alloc opts \<and> sz = - 1 then Some (Inl InvalidPreAllocSize)
        else map_option (\<lambda>queue. Inr (go_ticktock (go_purge (empty_pool sz queue opts clock))))
               (if pre_alloc opts then new_worker_queue LOOP_QUEUE sz else new_worker_queue STACK 0))"

lemma loop_queue_created: "0 < n \<Longrightarrow> \<exists>q. new_worker_queue LOOP_QUEUE n = Some q"
  using new_worker_queue_panics [of LOOP_QUEUE n] by (cases "new_worker_queue LOOP_QUEUE n") auto

lemma core_new_total: "core_new dflt clock n opt_list \<noteq> None"
  by (auto simp: core_new_def Let_def normal_size_def new_worker_queue_stack loop_queue_created
      split: if_splits)

lemma core_new_Inl_iff:
  "core_new dflt clock n opt_list = Some (Inl e) \<longleftrightarrow>
     (let opts = load_options opt_list in
      if \<not> disable_purge opts \<and> expiry_duration opts < ZERO then e = InvalidPoolExpiry
      else pre_alloc opts \<and> n \<le> 0 \<and> e = InvalidPreAllocSize)"
  by (auto simp: core_new_def Let_def normal_size_def)

lemma go_fields [simp]:
  "capacity (go_purge s) = capacity s" "running (go_purge s) = running s"
  "lock_state (go_purge s) = lock_state s" "workers (go_purge s) = workers s"
  "pool_state (go_purge s) = pool_state s" "pool_cond (go_purge s) = pool_cond s"
  "worker_cache (go_purge s) = worker_cache s" "waiting (go_purge s) = waiting s"
  "options (go_purge s) = options s" "mail (go_purge s) = mail s"
  "next_worker (go_purge s) = next_worker s" "executed (go_purge s) = executed s"
  "events (go_purge s) = events s" "all_done (go_purge s) = all_done s"
  "capacity (go_ticktock s) = capacity s" "running (go_ticktock s) = running s"
  "lock_state (go_ticktock s) = lock_state s" "workers (go_ticktock s) = workers s"
  "pool_state (go_ticktock s) = pool_state s" "pool_cond (go_ticktock s) = pool_cond s"
  "worker_cache (go_ticktock s) = worker_cache s" "waiting (go_ticktock s) = waiting s"
  "options (go_ticktock s) = options s" "mail (go_ticktock s) = mail s"
  "next_worker (go_ticktock s) = next_worker s" "executed (go_ticktock s) = executed s"
  "events (go_ticktock s) = events s" "all_done (go_ticktock s) = all_done s"
  by (simp_all add: go_purge_def go_ticktock_def publish_purge_ctx_def publish_ticktock_ctx_def Let_def)

text \<open>A pool as it leaves the constructor.\<close>

definition fresh_pool :: "('t, 'h, 'l) pool \<Rightarrow> bool" where
  "fresh_pool s \<longleftrightarrow> running s = 0 \<and> lock_state s = 0 \<and> wq_inv (workers s) \<and> wq_parked (workers s) = []
     \<and> pool_state s = OPENED \<and> pool_cond s = cond_new \<and> worker_cache s = [] \<and> waiting s = 0
     \<and> mail s = [] \<and> next_worker s = 0 \<and> executed s = [] \<and> all_done s = 0 \<and> events s = [event_new]
     \<and> (capacity s = - 1 \<or> (0 < capacity s \<and> capacity s \<le> i32_max))"

lemma core_new_fresh:
  assumes new: "core_new dflt clock n opt_list = Some (Inr s)" and n: "n \<le> i32_max"
  shows "fresh_pool s \<and> capacity s = normal_size n"
proof -
  obtain opts queue t k where s: "s = go_ticktock (go_purge (empty_pool (normal_size n) queue opts clock))"
    and q: "new_worker_queue t k = Some queue" "k \<le> i32_max"
    using new n by (auto simp: core_new_def Let_def normal_size_def split: if_splits)
  have "wq_inv queue \<and> wq_parked queue = []" using q(2,1) by (rule new_worker_queue_inv)
  with s n show ?thesis by (simp add: fresh_pool_def empty_pool_def normal_size_def)
qed

section \<open>Tuning\<close>

text \<open>
  What \<open>tune\<close> decides from the capacity it read: \<open>None\<close> leaves the pool alone; \<open>Some\<close> stores the new
  capacity and then wakes no waiter, one, or all.
\<close>

datatype wake = WakeNone | WakeOne | WakeAll

definition tune_plan :: "('h, 'l) options \<Rightarrow> i32 \<Rightarrow> i32 \<Rightarrow> wake option" where
  "tune_plan opts c0 sz =
     (if c0 = - 1 \<or> sz \<le> 0 \<or> sz = c0 \<or> pre_alloc opts then None
      else Some (if c0 < sz then (if sz - c0 = 1 then WakeOne else WakeAll) else WakeNone))"

text \<open>The subtraction in \<open>tune\<close> stays within 32 bits, as capacities are positive or minus one.\<close>

lemma tune_plan_range:
  "tune_plan opts c n = Some w \<Longrightarrow> in_i32 c \<Longrightarrow> - 1 \<le> c \<Longrightarrow> in_i32 n \<Longrightarrow> in_i32 (n - c)"
  by (auto simp: tune_plan_def in_i32_def split: if_splits)

lemma core_new_searchable:
  assumes "core_new dflt clock n opt_list = Some (Inr s)" and "pre_alloc (load_options opt_list) \<longrightarrow> n \<le> 715827883"
  shows "wq_exact (workers s) \<and> max_blocking_tasks (options s) = max_blocking_tasks (load_options opt_list)"
  using assms
  by (auto simp: core_new_def Let_def normal_size_def new_worker_queue_stack new_worker_queue_def lq_new_def
      empty_pool_def lq_searchable_def usize_of_i32_def split: if_splits)

end
