(* ===== verification/Pool_Threads.thy ===== *)
theory Pool_Threads
  imports Pool_State
begin

text \<open>
  The threads of a pool, one group of program counters and one \<open>moves\<close> function per kind:
  submitting threads (\<open>try_submit\<close>, \<open>retrieve_worker\<close>, \<open>input\<close>), worker threads (\<open>work\<close>, \<open>call\<close>,
  \<open>revert_worker\<close>), threads in \<open>release\<close>, \<open>release_context\<close>, \<open>release_timeout\<close>, \<open>tune\<close> and \<open>reboot\<close>, and
  the background threads \<open>purge_stale_workers\<close> and \<open>ticktock\<close>.

  A step is one access to shared state: an atomic load or store, what a thread does under a mutex
  of the standard library, an access to the queue under the spin lock. A thread that wants a lock
  that is taken, or waits for a message, a latch or a wake-up, has no move until it can go on.
  The queue panics and the overflow checks of the counters lead to the \<open>Unwind\<close> and \<open>Aborted\<close>
  program counters. A panic handler or a logger of the user may panic in its turn, which ends the worker
  before it signals. Where the code spawns a thread the system may refuse it: the \<open>expect\<close> then ends the
  caller in \<open>RetSpawnFailed\<close> or \<open>RebSpawnFailed\<close>.
\<close>

section \<open>Program counters\<close>

datatype (plugins only:) 't submit_pc = SubClosed 't | SubInput 't nat | SubDone 't | SubFail 't error

datatype (plugins only:) 't retrieve_pc =
    RetLock 't | RetDetach 't | RetCap 't | RetRunning 't i32 | RetFetch 't
  | RetRun 't nat | RetSpawn 't nat | RetUnlock 't nat
  | RetLimit 't | RetRefuse 't error
  | RetEnqueue 't | RetWait 't | RetSleep 't "64 word" | RetRelock 't | RetAwake 't | RetClosed 't
  | RetUnwind 't "nat option" | RetAborted 't "nat option"
  | RetSpawnPanic 't nat | RetSpawnFailed 't nat

datatype (plugins only:) 't worker_pc =
    Work nat | WorkCall nat 't
  | WorkExit nat "panic_value option" | WorkLast nat "panic_value option"
  | WorkAllDone nat "panic_value option" | WorkClose nat "panic_value option" nat
  | WorkRecycle nat "panic_value option" | WorkReport "panic_value option" | WorkSignal | WorkDone
  | WorkOverflow nat

datatype (plugins only:) revert_pc =
    RevCap nat | RevRunning nat i32 | RevClosed nat | RevBroadcast nat
  | RevNow nat | RevStamp nat i64 | RevLock nat | RevCheck nat | RevInsert nat | RevRefuse nat
  | RevSignal nat | RevUnlock nat | RevUnwind nat | RevAborted nat

text \<open>
  \<open>release_context\<close> with the context of its caller, and \<open>release_timeout\<close> with the context it made.
\<close>

datatype (plugins only:) ctx_call = ContextCall "nat option" | TimeoutCall nat

text \<open>What follows \<open>release\<close>: its caller, or the rest of \<open>release_context\<close> with the two contexts it copied.\<close>

datatype (plugins only:) after_release = ReleaseReturns | ContextGoesOn ctx_call "nat option" "nat option"

datatype (plugins only:) release_pc =
    RelCas after_release | RelTakePurge after_release | RelCancelPurge after_release nat
  | RelTakeTick after_release | RelCancelTick after_release nat
  | RelLock after_release | RelReset after_release | RelFinish after_release "nat list"
  | RelBroadcast after_release | RelRunning after_release
  | RelAllDone after_release | RelClose after_release nat
  | RelReturn after_release | RelDone | RelUnwind | RelAborted

datatype (plugins only:) context_pc =
    CtxClosed ctx_call | CtxStopPurge ctx_call | CtxStopTick ctx_call
  | CtxPurgeCtx ctx_call | CtxTickCtx ctx_call "nat option"
  | CtxAllDone ctx_call nat "nat option" "nat option"
  | CtxLoop ctx_call nat "nat option" "nat option" nat
  | CtxErr ctx_call nat "nat option" "nat option" nat
  | CtxSlice ctx_call nat "nat option" "nat option" nat
  | CtxPurgeWait ctx_call nat "nat option" "nat option" nat
  | CtxTickWait ctx_call nat "nat option" "nat option" nat
  | CtxRunning ctx_call nat "nat option" "nat option" nat
  | CtxPurgeDone ctx_call nat "nat option" "nat option" nat
  | CtxTickDone ctx_call nat "nat option" "nat option" nat
  | CtxErrAgain ctx_call nat "nat option" "nat option" nat
  | CtxReturn ctx_call "error + unit" | CtxResult ctx_call "error + unit"

datatype (plugins only:) timeout_pc =
    TimeoutStart duration | TimeoutCancel nat "error + unit" | TimeoutResult "error + unit"

datatype (plugins only:) tune_pc = TuneCap i32 | TuneStore i32 wake | TuneWake wake | TuneDone

datatype (plugins only:) reboot_pc =
    RebState | RebAllDone | RebWait nat | RebPurgeDone | RebTickDone | RebCas
  | RebResetPurge | RebPurgeCtx | RebPurgeStop nat | RebPurgeSpawn
  | RebResetTick | RebNow | RebTickCtx | RebTickStop nat | RebTickSpawn | RebEvent | RebDone | RebSpawnFailed

datatype (plugins only:) purge_pc =
    PurgeStart | PurgeTick nat | PurgeClosed nat | PurgeLock nat | PurgeRefresh nat
  | PurgeRunning nat "nat list" | PurgeUnlock nat "nat list" bool | PurgeFinish nat "nat list" bool
  | PurgeWaiting nat bool | PurgeBroadcast nat | PurgeExit | PurgeDone | PurgeUnwind | PurgeAborted

datatype (plugins only:) ticktock_pc = TickStart | TickTick nat | TickClosed nat | TickStore nat | TickExit | TickDone

text \<open>
  The environment: the clocks move (the system clock anywhere, the monotonic one forward), users
  create contexts, cancel them and let them expire.
\<close>

datatype (plugins only:) env_pc = Clocks i64 nat | NewCtx "nat option" | UserCtx nat | EnvDone

datatype (plugins only:) 't pc =
    Sub "'t submit_pc" | Ret "'t retrieve_pc" | Wrk "'t worker_pc" | Rev revert_pc
  | Rel release_pc | Ctx context_pc | Tmo timeout_pc | Tun tune_pc | Reb reboot_pc
  | Pur purge_pc | Tck ticktock_pc | Env env_pc

type_synonym ('t, 'h, 'l) pool_moves = "(('t, 'h, 'l) pool \<times> 't pc list) list"

section \<open>Locking\<close>

abbreviation acquire :: "('t, 'h, 'l) pool \<Rightarrow> 't pc \<Rightarrow> ('t, 'h, 'l) pool_moves" where
  "acquire s p \<equiv> if lock_state s = 0 then [(s\<lparr>lock_state := 1\<rparr>, [p])] else []"

abbreviation unlock :: "('t, 'h, 'l) pool \<Rightarrow> ('t, 'h, 'l) pool" where
  "unlock s \<equiv> s\<lparr>lock_state := 0\<rparr>"

definition broadcast :: "('t, 'h, 'l) pool \<Rightarrow> ('t, 'h, 'l) pool" where
  "broadcast s = s\<lparr>pool_cond := cond_broadcast (pool_cond s)\<rparr>"

definition signals :: "('t, 'h, 'l) pool \<Rightarrow> 't pc \<Rightarrow> ('t, 'h, 'l) pool_moves" where
  "signals s p = map (\<lambda>c. (s\<lparr>pool_cond := c\<rparr>, [p])) (cond_signal (pool_cond s))"

text \<open>A blocking send of one message to worker \<open>w\<close>.\<close>

definition sends :: "('t, 'l) config \<Rightarrow> ('t, 'h, 'l) pool \<Rightarrow> nat \<Rightarrow> 't message \<Rightarrow> 't pc \<Rightarrow> ('t, 'h, 'l) pool_moves" where
  "sends cfg s w m p =
     (if has_room (chan_cap cfg) w (mail s) then [(s\<lparr>mail := mail s @ [(w, m)]\<rparr>, [p])] else [])"

section \<open>Submitting threads\<close>

primrec submit_moves :: "('t, 'l) config \<Rightarrow> ('t, 'h, 'l) pool \<Rightarrow> 't submit_pc \<Rightarrow> ('t, 'h, 'l) pool_moves" where
  "submit_moves cfg s (SubClosed t) =
     [(s, [if is_closed s then Sub (SubFail t PoolClosed) else Ret (RetLock t)])]"
| "submit_moves cfg s (SubInput t w) = sends cfg s w (Payload t) (Sub (SubDone t))"
| "submit_moves cfg s (SubDone t) = []"
| "submit_moves cfg s (SubFail t e) = []"

primrec retrieve_moves :: "('t, 'l) config \<Rightarrow> ('t, 'h, 'l) pool \<Rightarrow> 't retrieve_pc \<Rightarrow> ('t, 'h, 'l) pool_moves" where
  "retrieve_moves cfg s (RetLock t) = acquire s (Ret (RetDetach t))"
| "retrieve_moves cfg s (RetDetach t) =
     (case wq_detach (workers s) of
        None \<Rightarrow> [(s, [Ret (RetUnwind t None)])]
      | Some (Some w, q) \<Rightarrow> [(s\<lparr>workers := q\<rparr>, [Ret (RetUnlock t w)])]
      | Some (None, q) \<Rightarrow> [(s\<lparr>workers := q\<rparr>, [Ret (RetCap t)])])"
| "retrieve_moves cfg s (RetCap t) =
     [(s, [Ret (if get_cap s = - 1 then RetFetch t else RetRunning t (get_cap s))])]"
| "retrieve_moves cfg s (RetRunning t c) =
     [(s, [Ret (if c > get_running s then RetFetch t else RetLimit t)])]"
| "retrieve_moves cfg s (RetFetch t) =
     (let (w, s') = fetch_cached_worker s in [(s', [Ret (RetRun t w)])])"
| "retrieve_moves cfg s (RetRun t w) =
     (case arith_i32 (overflow_checks cfg) (running s + 1) of
        None \<Rightarrow> [(add_running 1 s, [Ret (RetUnwind t (Some w))])]
      | Some _ \<Rightarrow> [(add_running 1 s, [Ret (RetSpawn t w)])])"
| "retrieve_moves cfg s (RetSpawn t w) =
     [(s, [Ret (RetUnlock t w), Wrk (Work w)]), (s, [Ret (RetSpawnPanic t w)])]"
| "retrieve_moves cfg s (RetUnlock t w) = [(unlock s, [Sub (SubInput t w)])]"
| "retrieve_moves cfg s (RetLimit t) =
     [(s, [Ret (if nonblocking (options s)
                   \<or> (max_blocking_tasks (options s) \<noteq> 0 \<and> get_waiting s \<ge> max_blocking_tasks (options s))
                then RetRefuse t PoolOverload else RetEnqueue t)])]"
| "retrieve_moves cfg s (RetRefuse t e) = [(unlock s, [Sub (SubFail t e)])]"
| "retrieve_moves cfg s (RetEnqueue t) = [(add_waiting 1 s, [Ret (RetWait t)])]"
| "retrieve_moves cfg s (RetWait t) =
     (let (leaves, g, c) = cond_wait (pool_cond s)
      in [(unlock (s\<lparr>pool_cond := c\<rparr>), [Ret (if leaves then RetRelock t else RetSleep t g)])])"
| "retrieve_moves cfg s (RetSleep t g) =
     map (\<lambda>(leaves, c). (s\<lparr>pool_cond := c\<rparr>, [Ret (if leaves then RetRelock t else RetSleep t g)]))
       (cond_resume (pool_cond s) g)"
| "retrieve_moves cfg s (RetRelock t) = acquire s (Ret (RetAwake t))"
| "retrieve_moves cfg s (RetAwake t) = [(add_waiting (- 1) s, [Ret (RetClosed t)])]"
| "retrieve_moves cfg s (RetClosed t) =
     [(s, [Ret (if is_closed s then RetRefuse t PoolClosed else RetDetach t)])]"
| "retrieve_moves cfg s (RetUnwind t w) = [(unlock s, [Ret (RetAborted t w)])]"
| "retrieve_moves cfg s (RetAborted t w) = []"
| "retrieve_moves cfg s (RetSpawnPanic t w) = [(unlock s, [Ret (RetSpawnFailed t w)])]"
| "retrieve_moves cfg s (RetSpawnFailed t w) = []"

section \<open>Worker threads\<close>

primrec worker_moves :: "('t, 'l) config \<Rightarrow> ('t, 'h, 'l) pool \<Rightarrow> 't worker_pc \<Rightarrow> ('t, 'h, 'l) pool_moves" where
  "worker_moves cfg s (Work w) =
     (case recv w (mail s) of
        None \<Rightarrow> []
      | Some (Payload t, m) \<Rightarrow> [(s\<lparr>mail := m\<rparr>, [Wrk (WorkCall w t)])]
      | Some (Finish, m) \<Rightarrow> [(s\<lparr>mail := m\<rparr>, [Wrk (WorkExit w None)])])"
| "worker_moves cfg s (WorkCall w t) =
     [(s\<lparr>executed := executed s @ [t]\<rparr>,
       [case run_payload cfg t of
          CallOk False \<Rightarrow> Wrk (WorkExit w None)
        | CallOk True \<Rightarrow> Rev (RevCap w)
        | CallPanic v \<Rightarrow> Wrk (WorkExit w (Some v))])]"
| "worker_moves cfg s (WorkExit w p) =
     (case arith_i32 (overflow_checks cfg) (running s - 1) of
        None \<Rightarrow> [(add_running (- 1) s, [Wrk (WorkOverflow w)])]
      | Some r \<Rightarrow> [(add_running (- 1) s, [Wrk (if r = 0 then WorkLast w p else WorkRecycle w p)])])"
| "worker_moves cfg s (WorkLast w p) =
     [(s, [Wrk (if is_closed s then WorkAllDone w p else WorkRecycle w p)])]"
| "worker_moves cfg s (WorkAllDone w p) = [(s, [Wrk (WorkClose w p (all_done s))])]"
| "worker_moves cfg s (WorkClose w p e) = [(close_event e s, [Wrk (WorkRecycle w p)])]"
| "worker_moves cfg s (WorkRecycle w p) = [(recycle w s, [Wrk (WorkReport p)])]"
| "worker_moves cfg s (WorkReport p) =
     (case p of
        None \<Rightarrow> [(s, [Wrk WorkSignal])]
      | Some v \<Rightarrow>
          (let s' = s\<lparr>reports := reports s @ [report_panic (dflt_logger cfg) (backtrace cfg) (options s) v]\<rparr>
           in [(s', [Wrk WorkSignal]), (s', [Wrk WorkDone])]))"
| "worker_moves cfg s WorkSignal = signals s (Wrk WorkDone)"
| "worker_moves cfg s WorkDone = []"
| "worker_moves cfg s (WorkOverflow w) = []"

primrec revert_moves :: "('t, 'l) config \<Rightarrow> ('t, 'h, 'l) pool \<Rightarrow> revert_pc \<Rightarrow> ('t, 'h, 'l) pool_moves" where
  "revert_moves cfg s (RevCap w) =
     [(s, [Rev (if get_cap s > 0 then RevRunning w (get_cap s) else RevClosed w)])]"
| "revert_moves cfg s (RevRunning w c) =
     [(s, [Rev (if get_running s > c then RevBroadcast w else RevClosed w)])]"
| "revert_moves cfg s (RevClosed w) =
     [(s, [Rev (if is_closed s then RevBroadcast w else RevNow w)])]"
| "revert_moves cfg s (RevBroadcast w) = [(broadcast s, [Wrk (WorkExit w None)])]"
| "revert_moves cfg s (RevNow w) = [(s, [Rev (RevStamp w (now s))])]"
| "revert_moves cfg s (RevStamp w t) = [(s\<lparr>last_used := (last_used s)(w := t)\<rparr>, [Rev (RevLock w)])]"
| "revert_moves cfg s (RevLock w) = acquire s (Rev (RevCheck w))"
| "revert_moves cfg s (RevCheck w) =
     [(s, [Rev (if is_closed s then RevRefuse w else RevInsert w)])]"
| "revert_moves cfg s (RevInsert w) =
     (case wq_insert w (workers s) of
        None \<Rightarrow> [(s, [Rev (RevUnwind w)])]
      | Some (Inl e) \<Rightarrow> [(s, [Rev (RevRefuse w)])]
      | Some (Inr q) \<Rightarrow> [(s\<lparr>workers := q\<rparr>, [Rev (RevSignal w)])])"
| "revert_moves cfg s (RevRefuse w) = [(unlock s, [Wrk (WorkExit w None)])]"
| "revert_moves cfg s (RevSignal w) = signals s (Rev (RevUnlock w))"
| "revert_moves cfg s (RevUnlock w) = [(unlock s, [Wrk (Work w)])]"
| "revert_moves cfg s (RevUnwind w) = [(unlock s, [Rev (RevAborted w)])]"
| "revert_moves cfg s (RevAborted w) = []"

section \<open>Release\<close>

definition ctx_done :: "nat \<Rightarrow> ('t, 'h, 'l) pool \<Rightarrow> bool" where
  "ctx_done c s \<longleftrightarrow> c < length (ctxs s) \<and> is_done (ctxs s ! c) (instant s)"

definition ctx_err :: "nat \<Rightarrow> ('t, 'h, 'l) pool \<Rightarrow> error option" where
  "ctx_err c s = (if c < length (ctxs s) then err (ctxs s ! c) (instant s) else None)"

fun callers_ctx :: "ctx_call \<Rightarrow> nat option" where
  "callers_ctx (ContextCall c) = c"
| "callers_ctx (TimeoutCall c) = Some c"

definition timeout_result :: "error + unit \<Rightarrow> error + unit" where
  "timeout_result r = (if r = Inl DeadlineExceeded then Inl Timeout else r)"

primrec release_moves :: "('t, 'l) config \<Rightarrow> ('t, 'h, 'l) pool \<Rightarrow> release_pc \<Rightarrow> ('t, 'h, 'l) pool_moves" where
  "release_moves cfg s (RelCas a) =
     (if pool_state s = OPENED then [(s\<lparr>pool_state := CLOSED\<rparr>, [Rel (RelTakePurge a)])]
      else [(s, [Rel (RelReturn a)])])"
| "release_moves cfg s (RelTakePurge a) =
     [(s\<lparr>stop_purge := None\<rparr>,
       [Rel (case stop_purge s of Some c \<Rightarrow> RelCancelPurge a c | None \<Rightarrow> RelTakeTick a)])]"
| "release_moves cfg s (RelCancelPurge a c) = [(cancel_ctx c s, [Rel (RelTakeTick a)])]"
| "release_moves cfg s (RelTakeTick a) =
     [(s\<lparr>stop_ticktock := None\<rparr>,
       [Rel (case stop_ticktock s of Some c \<Rightarrow> RelCancelTick a c | None \<Rightarrow> RelLock a)])]"
| "release_moves cfg s (RelCancelTick a c) = [(cancel_ctx c s, [Rel (RelLock a)])]"
| "release_moves cfg s (RelLock a) = acquire s (Rel (RelReset a))"
| "release_moves cfg s (RelReset a) =
     (case wq_reset (workers s) of
        None \<Rightarrow> [(s, [Rel RelUnwind])]
      | Some (ws, q) \<Rightarrow> [(s\<lparr>workers := q\<rparr>, [Rel (RelFinish a ws)])])"
| "release_moves cfg s (RelFinish a ws) =
     (case ws of
        w # rest \<Rightarrow> sends cfg s w Finish (Rel (RelFinish a rest))
      | [] \<Rightarrow> [(unlock s, [Rel (RelBroadcast a)])])"
| "release_moves cfg s (RelBroadcast a) = [(broadcast s, [Rel (RelRunning a)])]"
| "release_moves cfg s (RelRunning a) =
     [(s, [Rel (if get_running s = 0 then RelAllDone a else RelReturn a)])]"
| "release_moves cfg s (RelAllDone a) = [(s, [Rel (RelClose a (all_done s))])]"
| "release_moves cfg s (RelClose a e) = [(close_event e s, [Rel (RelReturn a)])]"
| "release_moves cfg s (RelReturn a) =
     [(s, [case a of
             ReleaseReturns \<Rightarrow> Rel RelDone
           | ContextGoesOn k pctx tctx \<Rightarrow>
               Ctx (case callers_ctx k of
                      None \<Rightarrow> CtxReturn k (Inr ())
                    | Some x \<Rightarrow> CtxAllDone k x pctx tctx)])]"
| "release_moves cfg s RelUnwind = [(unlock s, [Rel RelAborted])]"
| "release_moves cfg s RelDone = []"
| "release_moves cfg s RelAborted = []"

primrec context_moves :: "('t, 'h, 'l) pool \<Rightarrow> context_pc \<Rightarrow> ('t, 'h, 'l) pool_moves" where
  "context_moves s (CtxClosed k) =
     [(s, [Ctx (if is_closed s then CtxReturn k (Inl PoolClosed) else CtxStopPurge k)])]"
| "context_moves s (CtxStopPurge k) =
     [(s, [Ctx (if \<not> disable_purge (options s) \<and> stop_purge s = None
                then CtxReturn k (Inl PoolClosed) else CtxStopTick k)])]"
| "context_moves s (CtxStopTick k) =
     [(s, [Ctx (if stop_ticktock s = None then CtxReturn k (Inl PoolClosed) else CtxPurgeCtx k)])]"
| "context_moves s (CtxPurgeCtx k) = [(s, [Ctx (CtxTickCtx k (purge_ctx s))])]"
| "context_moves s (CtxTickCtx k pctx) =
     [(s, [Rel (RelCas (ContextGoesOn k pctx (ticktock_ctx s)))])]"
| "context_moves s (CtxAllDone k x pctx tctx) = [(s, [Ctx (CtxLoop k x pctx tctx (all_done s))])]"
| "context_moves s (CtxLoop k x pctx tctx e) =
     [(s, [Ctx (if event_closed e s then CtxPurgeWait k x pctx tctx e else CtxErr k x pctx tctx e)])]"
| "context_moves s (CtxErr k x pctx tctx e) =
     [(s, [Ctx (case ctx_err x s of
                  Some er \<Rightarrow> CtxReturn k (Inl er)
                | None \<Rightarrow> CtxSlice k x pctx tctx e)])]"
| "context_moves s (CtxSlice k x pctx tctx e) =
     [(s, [Ctx (if event_closed e s then CtxPurgeWait k x pctx tctx e else CtxLoop k x pctx tctx e)])]"
| "context_moves s (CtxPurgeWait k x pctx tctx e) =
     (if disable_purge (options s) \<or> (case pctx of None \<Rightarrow> True | Some c \<Rightarrow> ctx_done c s)
      then [(s, [Ctx (CtxTickWait k x pctx tctx e)])] else [])"
| "context_moves s (CtxTickWait k x pctx tctx e) =
     (if (case tctx of None \<Rightarrow> True | Some c \<Rightarrow> ctx_done c s)
      then [(s, [Ctx (CtxRunning k x pctx tctx e)])] else [])"
| "context_moves s (CtxRunning k x pctx tctx e) =
     [(s, [Ctx (if get_running s = 0 then CtxPurgeDone k x pctx tctx e else CtxErrAgain k x pctx tctx e)])]"
| "context_moves s (CtxPurgeDone k x pctx tctx e) =
     [(s, [Ctx (if disable_purge (options s) \<or> purge_done s = 1 then CtxTickDone k x pctx tctx e
                else CtxErrAgain k x pctx tctx e)])]"
| "context_moves s (CtxTickDone k x pctx tctx e) =
     [(s, [Ctx (if ticktock_done s = 1 then CtxReturn k (Inr ()) else CtxErrAgain k x pctx tctx e)])]"
| "context_moves s (CtxErrAgain k x pctx tctx e) =
     [(s, [Ctx (case ctx_err x s of
                  Some er \<Rightarrow> CtxReturn k (Inl er)
                | None \<Rightarrow> CtxLoop k x pctx tctx e)])]"
| "context_moves s (CtxReturn k r) =
     [(s, [case k of
             ContextCall c \<Rightarrow> Ctx (CtxResult k r)
           | TimeoutCall c \<Rightarrow> Tmo (TimeoutCancel c r)])]"
| "context_moves s (CtxResult k r) = []"

primrec timeout_moves :: "('t, 'h, 'l) pool \<Rightarrow> timeout_pc \<Rightarrow> ('t, 'h, 'l) pool_moves" where
  "timeout_moves s (TimeoutStart d) =
     [(s\<lparr>ctxs := ctxs s @ [with_timeout (instant s) d]\<rparr>, [Ctx (CtxClosed (TimeoutCall (length (ctxs s))))])]"
| "timeout_moves s (TimeoutCancel c r) = [(cancel_ctx c s, [Tmo (TimeoutResult (timeout_result r))])]"
| "timeout_moves s (TimeoutResult r) = []"

section \<open>Tuning and reboot\<close>

primrec tune_moves :: "('t, 'h, 'l) pool \<Rightarrow> tune_pc \<Rightarrow> ('t, 'h, 'l) pool_moves" where
  "tune_moves s (TuneCap n) =
     [(s, [Tun (case tune_plan (options s) (get_cap s) n of
                  None \<Rightarrow> TuneDone
                | Some k \<Rightarrow> TuneStore n k)])]"
| "tune_moves s (TuneStore n k) = [(s\<lparr>capacity := n\<rparr>, [Tun (TuneWake k)])]"
| "tune_moves s (TuneWake k) =
     (case k of
        WakeNone \<Rightarrow> [(s, [Tun TuneDone])]
      | WakeOne \<Rightarrow> signals s (Tun TuneDone)
      | WakeAll \<Rightarrow> [(broadcast s, [Tun TuneDone])])"
| "tune_moves s TuneDone = []"

primrec reboot_moves :: "('t, 'h, 'l) pool \<Rightarrow> reboot_pc \<Rightarrow> ('t, 'h, 'l) pool_moves" where
  "reboot_moves s RebState = [(s, [Reb (if pool_state s \<noteq> CLOSED then RebDone else RebAllDone)])]"
| "reboot_moves s RebAllDone = [(s, [Reb (RebWait (all_done s))])]"
| "reboot_moves s (RebWait e) =
     (if event_closed e s
      then [(s, [Reb (if disable_purge (options s) then RebTickDone else RebPurgeDone)])] else [])"
| "reboot_moves s RebPurgeDone = [(s, [Reb (if purge_done s \<noteq> 1 then RebPurgeDone else RebTickDone)])]"
| "reboot_moves s RebTickDone = [(s, [Reb (if ticktock_done s \<noteq> 1 then RebTickDone else RebCas)])]"
| "reboot_moves s RebCas =
     (if pool_state s = CLOSED then [(s\<lparr>pool_state := OPENED\<rparr>, [Reb RebResetPurge])]
      else [(s, [Reb RebDone])])"
| "reboot_moves s RebResetPurge =
     [(s\<lparr>purge_done := 0\<rparr>, [Reb (if disable_purge (options s) then RebResetTick else RebPurgeCtx)])]"
| "reboot_moves s RebPurgeCtx = (let (c, s') = publish_purge_ctx s in [(s', [Reb (RebPurgeStop c)])])"
| "reboot_moves s (RebPurgeStop c) = [(s\<lparr>stop_purge := Some c\<rparr>, [Reb RebPurgeSpawn])]"
| "reboot_moves s RebPurgeSpawn = [(s, [Reb RebResetTick, Pur PurgeStart]), (s, [Reb RebSpawnFailed])]"
| "reboot_moves s RebResetTick = [(s\<lparr>ticktock_done := 0\<rparr>, [Reb RebNow])]"
| "reboot_moves s RebNow = [(s\<lparr>now := wall_clock s\<rparr>, [Reb RebTickCtx])]"
| "reboot_moves s RebTickCtx = (let (c, s') = publish_ticktock_ctx s in [(s', [Reb (RebTickStop c)])])"
| "reboot_moves s (RebTickStop c) = [(s\<lparr>stop_ticktock := Some c\<rparr>, [Reb RebTickSpawn])]"
| "reboot_moves s RebTickSpawn = [(s, [Reb RebEvent, Tck TickStart]), (s, [Reb RebSpawnFailed])]"
| "reboot_moves s RebEvent =
     [(s\<lparr>events := events s @ [event_new], all_done := length (events s)\<rparr>, [Reb RebDone])]"
| "reboot_moves s RebDone = []"
| "reboot_moves s RebSpawnFailed = []"

section \<open>Background threads\<close>

definition is_dormant :: "i32 \<Rightarrow> nat list \<Rightarrow> bool" where
  "is_dormant r stale \<longleftrightarrow> r = 0 \<or> usize_of_i32 r = length stale"

primrec purge_moves :: "('t, 'l) config \<Rightarrow> ('t, 'h, 'l) pool \<Rightarrow> purge_pc \<Rightarrow> ('t, 'h, 'l) pool_moves" where
  "purge_moves cfg s PurgeStart =
     [(s, [Pur (case purge_ctx s of None \<Rightarrow> PurgeExit | Some c \<Rightarrow> PurgeTick c)])]"
| "purge_moves cfg s (PurgeTick c) = [(s, [Pur (if ctx_done c s then PurgeExit else PurgeClosed c)])]"
| "purge_moves cfg s (PurgeClosed c) = [(s, [Pur (if is_closed s then PurgeExit else PurgeLock c)])]"
| "purge_moves cfg s (PurgeLock c) = acquire s (Pur (PurgeRefresh c))"
| "purge_moves cfg s (PurgeRefresh c) =
     (case wq_refresh (overflow_checks cfg) (last_used s) (wall_clock s)
             (expiry_duration (options s)) (workers s) of
        None \<Rightarrow> [(s, [Pur PurgeUnwind])]
      | Some (ws, q) \<Rightarrow> [(s\<lparr>workers := q\<rparr>, [Pur (PurgeRunning c ws)])])"
| "purge_moves cfg s (PurgeRunning c ws) = [(s, [Pur (PurgeUnlock c ws (is_dormant (get_running s) ws))])]"
| "purge_moves cfg s (PurgeUnlock c ws d) = [(unlock s, [Pur (PurgeFinish c ws d)])]"
| "purge_moves cfg s (PurgeFinish c ws d) =
     (case ws of
        w # rest \<Rightarrow> sends cfg s w Finish (Pur (PurgeFinish c rest d))
      | [] \<Rightarrow> [(s, [Pur (PurgeWaiting c d)])])"
| "purge_moves cfg s (PurgeWaiting c d) =
     [(s, [Pur (if d \<and> get_waiting s > 0 then PurgeBroadcast c else PurgeTick c)])]"
| "purge_moves cfg s (PurgeBroadcast c) = [(broadcast s, [Pur (PurgeTick c)])]"
| "purge_moves cfg s PurgeExit = [(s\<lparr>purge_done := 1\<rparr>, [Pur PurgeDone])]"
| "purge_moves cfg s PurgeUnwind = [(unlock s, [Pur PurgeAborted])]"
| "purge_moves cfg s PurgeDone = []"
| "purge_moves cfg s PurgeAborted = []"

primrec ticktock_moves :: "('t, 'h, 'l) pool \<Rightarrow> ticktock_pc \<Rightarrow> ('t, 'h, 'l) pool_moves" where
  "ticktock_moves s TickStart =
     [(s, [Tck (case ticktock_ctx s of None \<Rightarrow> TickExit | Some c \<Rightarrow> TickTick c)])]"
| "ticktock_moves s (TickTick c) = [(s, [Tck (if ctx_done c s then TickExit else TickClosed c)])]"
| "ticktock_moves s (TickClosed c) = [(s, [Tck (if is_closed s then TickExit else TickStore c)])]"
| "ticktock_moves s (TickStore c) = [(s\<lparr>now := wall_clock s\<rparr>, [Tck (TickTick c)])]"
| "ticktock_moves s TickExit = [(s\<lparr>ticktock_done := 1\<rparr>, [Tck TickDone])]"
| "ticktock_moves s TickDone = []"

primrec env_moves :: "('t, 'h, 'l) pool \<Rightarrow> env_pc \<Rightarrow> ('t, 'h, 'l) pool_moves" where
  "env_moves s (Clocks w d) = [(s\<lparr>wall_clock := w, instant := instant s + d\<rparr>, [Env EnvDone])]"
| "env_moves s (NewCtx d) =
     [(s\<lparr>ctxs := ctxs s @ [\<lparr>cancelled = event_new, deadline = d\<rparr>]\<rparr>, [Env (UserCtx (length (ctxs s)))])]"
| "env_moves s (UserCtx c) = [(cancel_ctx c s, [Env EnvDone])]"
| "env_moves s EnvDone = []"

section \<open>The system\<close>

primrec pool_moves :: "('t, 'l) config \<Rightarrow> (('t, 'h, 'l) pool, 't pc) moves" where
  "pool_moves cfg s (Sub p) = submit_moves cfg s p"
| "pool_moves cfg s (Ret p) = retrieve_moves cfg s p"
| "pool_moves cfg s (Wrk p) = worker_moves cfg s p"
| "pool_moves cfg s (Rev p) = revert_moves cfg s p"
| "pool_moves cfg s (Rel p) = release_moves cfg s p"
| "pool_moves cfg s (Ctx p) = context_moves s p"
| "pool_moves cfg s (Tmo p) = timeout_moves s p"
| "pool_moves cfg s (Tun p) = tune_moves s p"
| "pool_moves cfg s (Reb p) = reboot_moves s p"
| "pool_moves cfg s (Pur p) = purge_moves cfg s p"
| "pool_moves cfg s (Tck p) = ticktock_moves s p"
| "pool_moves cfg s (Env p) = env_moves s p"

text \<open>
  Any thread may call an operation of the pool at any time. Tasks that use their own pool are
  covered: the nested call is one more thread.
\<close>

inductive pool_entry :: "'t pc \<Rightarrow> bool" where
  "pool_entry (Sub (SubClosed t))"
| "pool_entry (Rel (RelCas ReleaseReturns))"
| "pool_entry (Ctx (CtxClosed (ContextCall c)))"
| "pool_entry (Tmo (TimeoutStart d))"
| "in_i32 n \<Longrightarrow> pool_entry (Tun (TuneCap n))"
| "pool_entry (Reb RebState)"
| "pool_entry (Env (Clocks w d))"
| "pool_entry (Env (NewCtx dl))"

inductive_simps pool_entry_simps [simp]:
  "pool_entry (Sub p)" "pool_entry (Ret q)" "pool_entry (Wrk w)" "pool_entry (Rev v)"
  "pool_entry (Rel r)" "pool_entry (Ctx c)" "pool_entry (Tmo o')" "pool_entry (Tun u)"
  "pool_entry (Reb b)" "pool_entry (Pur g)" "pool_entry (Tck k)" "pool_entry (Env e)"

text \<open>The threads the constructor starts.\<close>

definition initial_threads :: "('h, 'l) options \<Rightarrow> 't pc multiset" where
  "initial_threads opts = (if disable_purge opts then {#} else {#Pur PurgeStart#}) + {#Tck TickStart#}"

definition pool_reachable ::
  "('t, 'l) config \<Rightarrow> ('t, 'h, 'l) pool \<Rightarrow> ('t, 'h, 'l) pool \<Rightarrow> 't pc multiset \<Rightarrow> bool" where
  "pool_reachable cfg s0 = reachable (pool_moves cfg) s0 (initial_threads (options s0)) pool_entry"

end
