(* ===== verification/Pool_Steps.thy ===== *)
theory Pool_Steps
  imports Pool_Threads
begin

text \<open>
  The steps of Pool_Threads by inversion: what a move from each program counter that branches
  on a queue, a channel or the condition variable can have done. The automation of the invariants
  uses these equivalences in place of the definitions.
\<close>

lemma in_acquire:
  "x \<in> set (acquire s p) \<longleftrightarrow> lock_state s = 0 \<and> x = (s\<lparr>lock_state := 1\<rparr>, [p])"
  by auto

lemma in_signals:
  "(s', ps) \<in> set (signals s p) \<longleftrightarrow>
     (\<exists>c \<in> set (cond_signal (pool_cond s)). s' = s\<lparr>pool_cond := c\<rparr> \<and> ps = [p])"
  by (auto simp: signals_def)

lemma in_sends:
  "(s', ps) \<in> set (sends cfg s w m p) \<longleftrightarrow>
     has_room (chan_cap cfg) w (mail s) \<and> s' = s\<lparr>mail := mail s @ [(w, m)]\<rparr> \<and> ps = [p]"
  by (auto simp: sends_def)

lemma step_RetDetach:
  "(s', ps) \<in> set (retrieve_moves cfg s (RetDetach t)) \<longleftrightarrow>
     (wq_detach (workers s) = None \<and> s' = s \<and> ps = [Ret (RetUnwind t None)])
   \<or> (\<exists>w q. wq_detach (workers s) = Some (Some w, q) \<and> s' = s\<lparr>workers := q\<rparr> \<and> ps = [Ret (RetUnlock t w)])
   \<or> (\<exists>q. wq_detach (workers s) = Some (None, q) \<and> s' = s\<lparr>workers := q\<rparr> \<and> ps = [Ret (RetCap t)])"
  by (auto split: option.splits prod.splits)

lemma step_RetFetch:
  "(s', ps) \<in> set (retrieve_moves cfg s (RetFetch t)) \<longleftrightarrow>
     (\<exists>ws w. worker_cache s = ws @ [w] \<and> s' = s\<lparr>worker_cache := ws\<rparr> \<and> ps = [Ret (RetRun t w)])
   \<or> (worker_cache s = [] \<and> ps = [Ret (RetRun t (next_worker s))]
       \<and> s' = s\<lparr>next_worker := next_worker s + 1, last_used := (last_used s)(next_worker s := 0)\<rparr>)"
  by (cases "worker_cache s" rule: rev_cases) (auto simp: fetch_cached_worker_def)

lemma step_RetRun:
  "(s', ps) \<in> set (retrieve_moves cfg s (RetRun t w)) \<longleftrightarrow>
     s' = add_running 1 s \<and>
     ((arith_i32 (overflow_checks cfg) (running s + 1) = None \<and> ps = [Ret (RetUnwind t (Some w))])
    \<or> (arith_i32 (overflow_checks cfg) (running s + 1) \<noteq> None \<and> ps = [Ret (RetSpawn t w)]))"
  by (auto split: option.splits)

lemma step_RetWait:
  "(s', ps) \<in> set (retrieve_moves cfg s (RetWait t)) \<longleftrightarrow>
     (\<exists>leaves g c. cond_wait (pool_cond s) = (leaves, g, c) \<and> s' = unlock (s\<lparr>pool_cond := c\<rparr>)
       \<and> ps = [Ret (if leaves then RetRelock t else RetSleep t g)])"
  by (cases "cond_wait (pool_cond s)") auto

lemma step_RetSleep:
  "(s', ps) \<in> set (retrieve_moves cfg s (RetSleep t g)) \<longleftrightarrow>
     (\<exists>leaves c. (leaves, c) \<in> set (cond_resume (pool_cond s) g) \<and> s' = s\<lparr>pool_cond := c\<rparr>
       \<and> ps = [Ret (if leaves then RetRelock t else RetSleep t g)])"
  by (simp add: image_iff split_beta Bex_def)

lemma step_Work:
  "(s', ps) \<in> set (worker_moves cfg s (Work w)) \<longleftrightarrow>
     (\<exists>t m. recv w (mail s) = Some (Payload t, m) \<and> s' = s\<lparr>mail := m\<rparr> \<and> ps = [Wrk (WorkCall w t)])
   \<or> (\<exists>m. recv w (mail s) = Some (Finish, m) \<and> s' = s\<lparr>mail := m\<rparr> \<and> ps = [Wrk (WorkExit w None)])"
proof (cases "recv w (mail s)")
  case (Some r)
  then show ?thesis by (cases r; cases "fst r") auto
qed simp

lemma step_RevInsert:
  "(s', ps) \<in> set (revert_moves cfg s (RevInsert w)) \<longleftrightarrow>
     (wq_insert w (workers s) = None \<and> s' = s \<and> ps = [Rev (RevUnwind w)])
   \<or> (\<exists>e. wq_insert w (workers s) = Some (Inl e) \<and> s' = s \<and> ps = [Rev (RevRefuse w)])
   \<or> (\<exists>q. wq_insert w (workers s) = Some (Inr q) \<and> s' = s\<lparr>workers := q\<rparr> \<and> ps = [Rev (RevSignal w)])"
  by (auto split: option.splits sum.splits)

lemma step_WorkCall:
  "(s', ps) \<in> set (worker_moves cfg s (WorkCall w t)) \<longleftrightarrow>
     s' = s\<lparr>executed := executed s @ [t]\<rparr> \<and>
     (ps = [Wrk (WorkExit w None)] \<and> run_payload cfg t = CallOk False
    \<or> ps = [Rev (RevCap w)] \<and> run_payload cfg t = CallOk True
    \<or> (\<exists>v. ps = [Wrk (WorkExit w (Some v))] \<and> run_payload cfg t = CallPanic v))"
  by (auto split: call_result.splits bool.splits)

lemma step_WorkExit:
  "(s', ps) \<in> set (worker_moves cfg s (WorkExit w p)) \<longleftrightarrow>
     s' = add_running (- 1) s \<and>
     ((arith_i32 (overflow_checks cfg) (running s - 1) = None \<and> ps = [Wrk (WorkOverflow w)])
    \<or> (arith_i32 (overflow_checks cfg) (running s - 1) = Some 0 \<and> ps = [Wrk (WorkLast w p)])
    \<or> (\<exists>r. arith_i32 (overflow_checks cfg) (running s - 1) = Some r \<and> r \<noteq> 0 \<and> ps = [Wrk (WorkRecycle w p)]))"
  by (auto split: option.splits)

lemma step_WorkReport:
  "(s', ps) \<in> set (worker_moves cfg s (WorkReport p)) \<longleftrightarrow>
     (p = None \<and> s' = s \<and> ps = [Wrk WorkSignal])
   \<or> (\<exists>v. p = Some v \<and> s' = s\<lparr>reports := reports s @ [report_panic (dflt_logger cfg) (backtrace cfg) (options s) v]\<rparr>
        \<and> (ps = [Wrk WorkSignal] \<or> ps = [Wrk WorkDone]))"
  by (auto simp: Let_def split: option.splits)

lemma step_RelReset:
  "(s', ps) \<in> set (release_moves cfg s (RelReset a)) \<longleftrightarrow>
     (wq_reset (workers s) = None \<and> s' = s \<and> ps = [Rel RelUnwind])
   \<or> (\<exists>ws q. wq_reset (workers s) = Some (ws, q) \<and> s' = s\<lparr>workers := q\<rparr> \<and> ps = [Rel (RelFinish a ws)])"
  by (auto split: option.splits prod.splits)

lemma step_RelFinish:
  "(s', ps) \<in> set (release_moves cfg s (RelFinish a ws)) \<longleftrightarrow>
     (ws = [] \<and> s' = unlock s \<and> ps = [Rel (RelBroadcast a)])
   \<or> (\<exists>w rest. ws = w # rest \<and> (s', ps) \<in> set (sends cfg s w Finish (Rel (RelFinish a rest))))"
  by (auto split: list.splits)

lemma step_RelReturn:
  "(s', ps) \<in> set (release_moves cfg s (RelReturn a)) \<longleftrightarrow> s' = s \<and>
     (a = ReleaseReturns \<and> ps = [Rel RelDone]
    \<or> (\<exists>k pctx tctx. a = ContextGoesOn k pctx tctx \<and> callers_ctx k = None \<and> ps = [Ctx (CtxReturn k (Inr ()))])
    \<or> (\<exists>k pctx tctx x. a = ContextGoesOn k pctx tctx \<and> callers_ctx k = Some x
         \<and> ps = [Ctx (CtxAllDone k x pctx tctx)]))"
  by (auto split: option.splits after_release.splits)

lemma step_TuneCap:
  "(s', ps) \<in> set (tune_moves s (TuneCap n)) \<longleftrightarrow> s' = s \<and>
     (tune_plan (options s) (capacity s) n = None \<and> ps = [Tun TuneDone]
    \<or> (\<exists>k. tune_plan (options s) (capacity s) n = Some k \<and> ps = [Tun (TuneStore n k)]))"
  by (auto simp: get_cap_def split: option.splits)

lemma step_TuneWake:
  "(s', ps) \<in> set (tune_moves s (TuneWake k)) \<longleftrightarrow>
     (k = WakeNone \<and> s' = s \<and> ps = [Tun TuneDone])
   \<or> (k = WakeOne \<and> (s', ps) \<in> set (signals s (Tun TuneDone)))
   \<or> (k = WakeAll \<and> s' = broadcast s \<and> ps = [Tun TuneDone])"
  by (auto split: wake.splits)

lemma step_PurgeRefresh:
  "(s', ps) \<in> set (purge_moves cfg s (PurgeRefresh c)) \<longleftrightarrow>
     (wq_refresh (overflow_checks cfg) (last_used s) (wall_clock s) (expiry_duration (options s)) (workers s)
        = None \<and> s' = s \<and> ps = [Pur PurgeUnwind])
   \<or> (\<exists>ws q. wq_refresh (overflow_checks cfg) (last_used s) (wall_clock s) (expiry_duration (options s)) (workers s)
        = Some (ws, q) \<and> s' = s\<lparr>workers := q\<rparr> \<and> ps = [Pur (PurgeRunning c ws)])"
  by (auto split: option.splits prod.splits)

lemma step_PurgeFinish:
  "(s', ps) \<in> set (purge_moves cfg s (PurgeFinish c ws d)) \<longleftrightarrow>
     (ws = [] \<and> s' = s \<and> ps = [Pur (PurgeWaiting c d)])
   \<or> (\<exists>w rest. ws = w # rest \<and> (s', ps) \<in> set (sends cfg s w Finish (Pur (PurgeFinish c rest d))))"
  by (auto split: list.splits)

declare retrieve_moves.simps(2,5,6,12,13) [simp del] worker_moves.simps(1,2,3,8) [simp del]
  revert_moves.simps(9) [simp del] release_moves.simps(7,8,13) [simp del] tune_moves.simps(1,3) [simp del]
  purge_moves.simps(5,8) [simp del]

lemmas step_iffs = in_signals in_sends step_RetDetach step_RetFetch step_RetRun step_RetWait
  step_RetSleep step_Work step_RevInsert step_WorkCall step_WorkExit step_WorkReport step_RelReset
  step_RelFinish step_RelReturn step_TuneCap step_TuneWake step_PurgeRefresh step_PurgeFinish

lemmas pool_updates = add_running_def add_waiting_def recycle_def cancel_ctx_def close_event_def
  broadcast_def publish_purge_ctx_def publish_ticktock_ctx_def

end
