(* ===== verification/Pool_Locking.thy ===== *)
theory Pool_Locking
  imports Pool_Steps
begin

text \<open>
  The basic invariants of a pool: the spin lock has at most one holder, the queue keeps its
  representation and never panics, the condition variable accounts for the callers that sleep on it.
\<close>

section \<open>Systems\<close>

text \<open>
  A pool as the constructor leaves it, with a ring (if it has one) within the size that the 32-bit
  binary search handles, and an option that is a 32-bit value.
\<close>

definition started :: "('t, 'h, 'l) pool \<Rightarrow> bool" where
  "started s \<longleftrightarrow> fresh_pool s \<and> wq_exact (workers s) \<and> in_i32 (max_blocking_tasks (options s))"

text \<open>The systems whose calls are restricted to those in \<open>calls\<close>.\<close>

abbreviation system ::
  "('t pc \<Rightarrow> bool) \<Rightarrow> ('t, 'l) config \<Rightarrow> ('t, 'h, 'l) pool \<Rightarrow> ('t, 'h, 'l) pool \<Rightarrow> 't pc multiset \<Rightarrow> bool" where
  "system calls cfg s0 \<equiv> reachable (pool_moves cfg) s0 (initial_threads (options s0)) (\<lambda>p. pool_entry p \<and> calls p)"

lemma system_pool_reachable: "system calls cfg s0 s M \<Longrightarrow> pool_reachable cfg s0 s M"
  unfolding pool_reachable_def by (erule reachable_mono) simp_all

lemma initial_member: "p \<in># initial_threads opts \<Longrightarrow> p = Pur PurgeStart \<or> p = Tck TickStart"
  by (auto simp: initial_threads_def split: if_splits)

lemma total_initial: "f (Pur PurgeStart) = 0 \<Longrightarrow> f (Tck TickStart) = 0 \<Longrightarrow> total f (initial_threads opts) = 0"
  by (simp add: initial_threads_def)

text \<open>What a case analysis of a step needs.\<close>

lemmas step_splits = if_splits option.splits ctx_call.splits prod.splits

section \<open>The lock\<close>

fun ret_holds :: "'t retrieve_pc \<Rightarrow> nat" where
  "ret_holds (RetDetach t) = 1" | "ret_holds (RetCap t) = 1" | "ret_holds (RetRunning t c) = 1"
| "ret_holds (RetFetch t) = 1" | "ret_holds (RetRun t w) = 1" | "ret_holds (RetSpawn t w) = 1"
| "ret_holds (RetUnlock t w) = 1" | "ret_holds (RetLimit t) = 1" | "ret_holds (RetRefuse t e) = 1"
| "ret_holds (RetEnqueue t) = 1" | "ret_holds (RetWait t) = 1" | "ret_holds (RetAwake t) = 1"
| "ret_holds (RetClosed t) = 1" | "ret_holds (RetUnwind t w) = 1" | "ret_holds (RetSpawnPanic t w) = 1" | "ret_holds _ = 0"

fun rev_holds :: "revert_pc \<Rightarrow> nat" where
  "rev_holds (RevCheck w) = 1" | "rev_holds (RevInsert w) = 1" | "rev_holds (RevRefuse w) = 1"
| "rev_holds (RevSignal w) = 1" | "rev_holds (RevUnlock w) = 1" | "rev_holds (RevUnwind w) = 1"
| "rev_holds _ = 0"

fun rel_holds :: "release_pc \<Rightarrow> nat" where
  "rel_holds (RelReset a) = 1" | "rel_holds (RelFinish a ws) = 1" | "rel_holds RelUnwind = 1"
| "rel_holds _ = 0"

fun pur_holds :: "purge_pc \<Rightarrow> nat" where
  "pur_holds (PurgeRefresh c) = 1" | "pur_holds (PurgeRunning c ws) = 1"
| "pur_holds (PurgeUnlock c ws d) = 1" | "pur_holds PurgeUnwind = 1" | "pur_holds _ = 0"

fun holds :: "'t pc \<Rightarrow> nat" where
  "holds (Ret p) = ret_holds p" | "holds (Rev p) = rev_holds p" | "holds (Rel p) = rel_holds p"
| "holds (Pur p) = pur_holds p" | "holds _ = 0"

definition lock_book :: "('t, 'h, 'l) pool \<Rightarrow> nat \<Rightarrow> bool" where
  "lock_book s n \<longleftrightarrow> lock_state s = n \<and> n \<le> 1"

lemma lock_ledger:
  assumes "started s0"
  shows "ledger (pool_moves cfg) s0 (initial_threads (options s0)) pool_entry (\<lambda>_ _. True) holds lock_book"
proof (unfold_locales, goal_cases)
  case 2
  with assms show ?case by (simp add: lock_book_def total_initial started_def fresh_pool_def)
next
  case (3 p s x)
  then show ?case by (auto elim!: pool_entry.cases)
next
  case (4 s p M s' ps)
  from 4(3) have book: "lock_state s = holds p + total holds M" "holds p + total holds M \<le> 1"
    by (auto simp: lock_book_def)
  with 4(2) show ?case
    by (cases p; rename_tac q; case_tac q;
        auto simp: lock_book_def step_iffs pool_updates split: step_splits)
qed simp

lemma lock_balanced:
  "started s0 \<Longrightarrow> pool_reachable cfg s0 s M \<Longrightarrow> lock_state s = total holds M \<and> total holds M \<le> 1"
  using ledger.balanced [OF lock_ledger] unfolding pool_reachable_def lock_book_def by blast

lemma holds_cases: "holds p = 0 \<or> holds p = 1"
  by (cases p; rename_tac q; case_tac q) simp_all

lemma total_holds_size: "total holds M = size (filter_mset (\<lambda>p. holds p = 1) M)"
proof (induction M)
  case (add p M)
  then show ?case using holds_cases [of p] by auto
qed simp

text \<open>Next to a thread that holds the lock no other one does.\<close>

lemma alone_with_lock:
  "started s0 \<Longrightarrow> pool_reachable cfg s0 s (add_mset p M) \<Longrightarrow> holds p = 1 \<Longrightarrow> q \<in># M \<Longrightarrow> holds q = 0"
  using lock_balanced [of s0 cfg s "add_mset p M"] total_nat_zeroD [of holds M q] by simp

section \<open>The queue\<close>

text \<open>The program counters that only a panic of the queue's \<open>detach\<close>, \<open>insert\<close> or \<open>reset\<close> leads to.\<close>

fun no_queue_panic :: "'t pc \<Rightarrow> bool" where
  "no_queue_panic (Ret (RetUnwind t w)) \<longleftrightarrow> w \<noteq> None"
| "no_queue_panic (Ret (RetAborted t w)) \<longleftrightarrow> w \<noteq> None"
| "no_queue_panic (Rev (RevUnwind w)) \<longleftrightarrow> False"
| "no_queue_panic (Rev (RevAborted w)) \<longleftrightarrow> False"
| "no_queue_panic (Rel RelUnwind) \<longleftrightarrow> False"
| "no_queue_panic (Rel RelAborted) \<longleftrightarrow> False"
| "no_queue_panic _ \<longleftrightarrow> True"

lemmas queue_facts = wq_ok_detach_total wq_ok_insert_total wq_ok_reset_total

lemma queue_step:
  assumes "wq_ok (workers s)" and "no_queue_panic p" and "(s', ps) \<in> set (pool_moves cfg s p)"
  shows "wq_ok (workers s') \<and> list_all no_queue_panic ps"
  using assms
  by (cases p; rename_tac q; case_tac q;
      auto simp: step_iffs pool_updates queue_facts intro: wq_ok_kept split: step_splits)

lemma queue_invariant:
  assumes "started s0"
  shows "thread_invariant (pool_moves cfg) s0 (initial_threads (options s0)) pool_entry (\<lambda>_ _. True)
    (\<lambda>s. wq_ok (workers s)) no_queue_panic"
proof (unfold_locales, goal_cases)
  case 2
  with assms show ?case by (simp add: started_def fresh_pool_def wq_ok_def)
next
  case (3 p)
  then show ?case by (auto dest: initial_member)
next
  case (4 p)
  then show ?case by (auto elim!: pool_entry.cases)
next
  case (5 s p M s' ps)
  then show ?case using queue_step by blast
qed simp

lemma queue_ok: "started s0 \<Longrightarrow> pool_reachable cfg s0 s M \<Longrightarrow> wq_ok (workers s)"
  and queue_total: "started s0 \<Longrightarrow> pool_reachable cfg s0 s M \<Longrightarrow> p \<in># M \<Longrightarrow> no_queue_panic p"
  using thread_invariant.invariant [OF queue_invariant] unfolding pool_reachable_def by blast+

section \<open>The condition variable\<close>

fun sleeps :: "'t pc \<Rightarrow> 64 word multiset" where
  "sleeps (Ret (RetSleep t g)) = {#g#}"
| "sleeps _ = {#}"

lemma cond_step:
  assumes inv: "cond_inv (pool_cond s) (sleeps p + X)" and step: "(s', ps) \<in> set (pool_moves cfg s p)"
  shows "cond_inv (pool_cond s') (sum_list (map sleeps ps) + X)"
proof -
  consider (wait) t where "p = Ret (RetWait t)" | (sleep) t g where "p = Ret (RetSleep t g)"
    | (signal) c where "c \<in> set (cond_signal (pool_cond s))" "pool_cond s' = c"
        "sleeps p = {#}" "sum_list (map sleeps ps) = {#}"
    | (broadcast) "pool_cond s' = cond_broadcast (pool_cond s)" "sleeps p = {#}" "sum_list (map sleeps ps) = {#}"
    | (other) "pool_cond s' = pool_cond s" "sleeps p = {#}" "sum_list (map sleeps ps) = {#}"
    using step
    by (cases p; rename_tac q; case_tac q; auto simp: step_iffs pool_updates split: step_splits)
  then show ?thesis
  proof cases
    case wait
    with step obtain leaves g c where w: "cond_wait (pool_cond s) = (leaves, g, c)"
      "pool_cond s' = c" "ps = [Ret (if leaves then RetRelock t else RetSleep t g)]"
      by (auto simp: step_RetWait)
    with cond_inv_wait [OF _ w(1), of X] inv wait show ?thesis by (cases leaves) auto
  next
    case sleep
    with step obtain leaves c where r: "(leaves, c) \<in> set (cond_resume (pool_cond s) g)"
      "pool_cond s' = c" "ps = [Ret (if leaves then RetRelock t else RetSleep t g)]"
      by (auto simp: step_RetSleep)
    with cond_inv_resume [OF _ r(1), of X] inv sleep show ?thesis by (cases leaves) auto
  qed (use inv cond_inv_signal cond_inv_broadcast in simp_all)
qed

lemma cond_ledger:
  assumes "started s0"
  shows "ledger (pool_moves cfg) s0 (initial_threads (options s0)) pool_entry (\<lambda>_ _. True) sleeps
    (\<lambda>s. cond_inv (pool_cond s))"
proof (unfold_locales, goal_cases)
  case 2
  with assms show ?case by (simp add: total_initial started_def fresh_pool_def cond_inv_new)
next
  case (3 p s x)
  then show ?case by (auto elim!: pool_entry.cases)
next
  case (4 s p M s' ps)
  then show ?case using cond_step by blast
qed simp

lemma cond_balanced:
  "started s0 \<Longrightarrow> pool_reachable cfg s0 s M \<Longrightarrow> cond_inv (pool_cond s) (total sleeps M)"
  using ledger.balanced [OF cond_ledger] unfolding pool_reachable_def by blast

lemma sleeper_parked:
  assumes "started s0" and "pool_reachable cfg s0 s M" and "Ret (RetSleep t g) \<in># M"
  shows "0 < parked (pool_cond s)"
proof -
  have "g \<in># total sleeps M" using total_mset_mem [OF assms(3), of g sleeps] by simp
  then have "total sleeps M \<noteq> {#}" by auto
  with cond_balanced [OF assms(1,2)] show ?thesis by (simp add: cond_inv_def nonempty_has_size)
qed

section \<open>The constructor\<close>

text \<open>C19: The constructor validates: it fails exactly for a negative expiry with purging on, and for a
  pre-allocated pool without a positive size; otherwise it gives an open pool with no workers whose
  capacity is the size, or minus one (unlimited) for a size that is not positive; and such a pool, if its
  ring is within the searchable size, meets the start condition of the properties of running pools.\<close>

theorem constructor_outcomes:
  fixes opts :: "('h, 'l) opt list"
  assumes "n \<le> i32_max" and "pre_alloc (load_options opts) \<longrightarrow> n \<le> 715827883"
    and "in_i32 (max_blocking_tasks (load_options opts))"
  shows "let os = load_options opts; r = core_new dflt clock n opts :: (error + ('t, 'h, 'l) pool) option in
     if \<not> disable_purge os \<and> expiry_duration os < ZERO then r = Some (Inl InvalidPoolExpiry)
     else if pre_alloc os \<and> n \<le> 0 then r = Some (Inl InvalidPreAllocSize)
     else \<exists>s. r = Some (Inr s) \<and> started s \<and> \<not> is_closed s
       \<and> get_cap s = (if n \<le> 0 then - 1 else n) \<and> get_running s = 0"
proof -
  let ?os = "load_options opts"
  have started: "started s" if "core_new dflt clock n opts = Some (Inr s)" for s :: "('t, 'h, 'l) pool"
    using core_new_searchable [OF that assms(2)] core_new_fresh [OF that assms(1)] assms(3)
    by (simp add: started_def)
  show ?thesis
  proof (cases "core_new dflt clock n opts :: (error + ('t, 'h, 'l) pool) option")
    case None
    then show ?thesis by (simp add: core_new_total)
  next
    case (Some r)
    show ?thesis
    proof (cases r)
      case (Inl e)
      have e: "core_new dflt clock n opts = (Some (Inl e) :: (error + ('t, 'h, 'l) pool) option)"
        using Some Inl by simp
      from e [unfolded core_new_Inl_iff] e show ?thesis by (auto simp: Let_def split: if_splits)
    next
      case (Inr s)
      note s = Some [unfolded Inr]
      have "\<forall>e. core_new dflt clock n opts \<noteq> (Some (Inl e) :: (error + ('t, 'h, 'l) pool) option)"
        using s by simp
      then have "\<not> (\<not> disable_purge ?os \<and> expiry_duration ?os < ZERO)" "\<not> (pre_alloc ?os \<and> n \<le> 0)"
        unfolding core_new_Inl_iff by (auto simp: Let_def split: if_splits)
      moreover have "\<not> is_closed s" "get_cap s = (if n \<le> 0 then - 1 else n)" "get_running s = 0"
        using core_new_fresh [OF s assms(1)]
        by (simp_all add: fresh_pool_def is_closed_def get_cap_def get_running_def normal_size_def)
      ultimately show ?thesis using s started [OF s] by (auto simp: Let_def)
    qed
  qed
qed

theorem constructor_outcomes_witness:
  "let os = load_options [with_pre_alloc True :: (nat, unit) opt];
       r = (core_new () 0 8 [with_pre_alloc True] :: (error + (nat, nat, unit) pool) option) in
     if \<not> disable_purge os \<and> expiry_duration os < ZERO then r = Some (Inl InvalidPoolExpiry)
     else if pre_alloc os \<and> 8 \<le> (0 :: i32) then r = Some (Inl InvalidPreAllocSize)
     else \<exists>s. r = Some (Inr s) \<and> started s \<and> \<not> is_closed s
       \<and> get_cap s = (if (8 :: i32) \<le> 0 then - 1 else 8) \<and> get_running s = 0"
  by (rule constructor_outcomes)
    (simp_all add: load_options_def with_pre_alloc_def default_options_def in_i32_def)

end
