(* ===== verification/Pool_Counting.thy ===== *)
theory Pool_Counting
  imports Pool_Locking
begin

text \<open>
  The counters of a pool. \<open>running\<close> and \<open>waiting\<close> are the numbers of live worker threads and of
  waiting callers modulo the 32-bit wrap-around; the number of waiting callers respects the limit
  in the options; the number of live workers respects the capacity.
\<close>

section \<open>Running workers\<close>

fun alive :: "'t pc \<Rightarrow> nat" where
  "alive (Ret (RetSpawn t w)) = 1"
| "alive (Ret (RetUnwind t w)) = (if w = None then 0 else 1)"
| "alive (Ret (RetAborted t w)) = (if w = None then 0 else 1)"
| "alive (Ret (RetSpawnPanic t w)) = 1" | "alive (Ret (RetSpawnFailed t w)) = 1"
| "alive (Wrk (Work w)) = 1" | "alive (Wrk (WorkCall w t)) = 1" | "alive (Wrk (WorkExit w p)) = 1"
| "alive (Rev p) = 1"
| "alive _ = 0"

definition running_book :: "('t, 'h, 'l) pool \<Rightarrow> nat \<Rightarrow> bool" where
  "running_book s n \<longleftrightarrow> running s = wrap_i32 (int n)"

lemma wrap_i32_Suc: "wrap_i32 (wrap_i32 x + 1) = wrap_i32 (1 + x)"
  using wrap_i32_add [of x 1] by (simp only: add.commute)

lemma wrap_i32_pred: "wrap_i32 (wrap_i32 x - 1) = wrap_i32 (x - 1)"
  using wrap_i32_add [of x "- 1"] by simp

lemma wrap_i32_small: "in_i32 x \<Longrightarrow> wrap_i32 x = x"
  by (simp add: in_i32_def wrap_i32_def)

lemma running_step:
  assumes "running_book s (alive p + X)" and "(s', ps) \<in> set (pool_moves cfg s p)"
  shows "running_book s' (sum_list (map alive ps) + X)"
  using assms
  by (cases p; rename_tac q; case_tac q;
      auto simp: running_book_def step_iffs pool_updates wrap_i32_Suc wrap_i32_pred
      split: step_splits call_result.splits)

lemma running_ledger:
  assumes "started s0"
  shows "ledger (pool_moves cfg) s0 (initial_threads (options s0)) pool_entry (\<lambda>_ _. True) alive running_book"
proof (unfold_locales, goal_cases)
  case 2
  with assms show ?case by (simp add: total_initial started_def fresh_pool_def running_book_def wrap_i32_def)
next
  case (3 p s x)
  then show ?case by (auto elim!: pool_entry.cases)
next
  case (4 s p M s' ps)
  then show ?case using running_step by blast
qed simp

lemma running_balanced:
  "started s0 \<Longrightarrow> pool_reachable cfg s0 s M \<Longrightarrow> running s = wrap_i32 (int (total alive M))"
  using ledger.balanced [OF running_ledger] unfolding pool_reachable_def running_book_def by blast

section \<open>Waiting callers\<close>

fun waits :: "'t pc \<Rightarrow> nat" where
  "waits (Ret (RetWait t)) = 1" | "waits (Ret (RetSleep t g)) = 1" | "waits (Ret (RetRelock t)) = 1"
| "waits (Ret (RetAwake t)) = 1" | "waits _ = 0"

definition waiting_book :: "('t, 'h, 'l) pool \<Rightarrow> nat \<Rightarrow> bool" where
  "waiting_book s n \<longleftrightarrow> waiting s = wrap_i32 (int n)"

lemma waiting_step:
  assumes "waiting_book s (waits p + X)" and "(s', ps) \<in> set (pool_moves cfg s p)"
  shows "waiting_book s' (sum_list (map waits ps) + X)"
  using assms
  by (cases p; rename_tac q; case_tac q;
      auto simp: waiting_book_def step_iffs pool_updates wrap_i32_Suc wrap_i32_pred
      split: step_splits call_result.splits)

lemma waiting_ledger:
  assumes "started s0"
  shows "ledger (pool_moves cfg) s0 (initial_threads (options s0)) pool_entry (\<lambda>_ _. True) waits waiting_book"
proof (unfold_locales, goal_cases)
  case 2
  with assms show ?case by (simp add: total_initial started_def fresh_pool_def waiting_book_def wrap_i32_def)
next
  case (3 p s x)
  then show ?case by (auto elim!: pool_entry.cases)
next
  case (4 s p M s' ps)
  then show ?case using waiting_step by blast
qed simp

lemma waiting_balanced:
  "started s0 \<Longrightarrow> pool_reachable cfg s0 s M \<Longrightarrow> waiting s = wrap_i32 (int (total waits M))"
  using ledger.balanced [OF waiting_ledger] unfolding pool_reachable_def waiting_book_def by blast

section \<open>The limit of waiting callers\<close>

text \<open>Callers that passed the limit check and still are, or will be, counted as waiting.\<close>

fun admitted :: "'t pc \<Rightarrow> nat" where
  "admitted (Ret (RetEnqueue t)) = 1" | "admitted p = waits p"

definition limit_book :: "('t, 'h, 'l) pool \<Rightarrow> nat \<Rightarrow> bool" where
  "limit_book s n \<longleftrightarrow> in_i32 (max_blocking_tasks (options s))
     \<and> (nonblocking (options s) \<longrightarrow> n = 0)
     \<and> (max_blocking_tasks (options s) \<noteq> 0 \<longrightarrow> int n \<le> max 0 (max_blocking_tasks (options s)))"

lemma admitted_alone:
  assumes "\<forall>q \<in># M. holds q = 0"
  shows "total admitted M = total waits M"
proof (rule total_cong)
  fix q assume "q \<in># M"
  then have "holds q = 0" using assms by blast
  then show "admitted q = waits q" by (cases q rule: admitted.cases) auto
qed

definition limit_known :: "('t, 'h, 'l) pool \<Rightarrow> 't pc multiset \<Rightarrow> bool" where
  "limit_known s M \<longleftrightarrow> total holds M \<le> 1 \<and> waiting s = wrap_i32 (int (total waits M))"

lemma total_holds_alone:
  "total holds (add_mset p M) \<le> 1 \<Longrightarrow> holds p = 1 \<Longrightarrow> \<forall>q \<in># M. holds q = 0"
  using total_nat_zeroD [of holds M] by auto

lemma limit_check:
  assumes known: "limit_known s (add_mset (Ret (RetLimit t)) M)" and book: "limit_book s (total admitted M)"
    and pass: "\<not> nonblocking (options s)"
      "max_blocking_tasks (options s) = 0 \<or> \<not> max_blocking_tasks (options s) \<le> waiting s"
  shows "limit_book s (Suc (total admitted M))"
proof -
  have "\<forall>q \<in># M. holds q = 0"
    using known total_holds_alone [of "Ret (RetLimit t)" M] by (simp add: limit_known_def)
  then have "waiting s = wrap_i32 (int (total admitted M))"
    using known admitted_alone [of M] by (simp add: limit_known_def)
  moreover have "in_i32 (int (total admitted M))" if "max_blocking_tasks (options s) \<noteq> 0"
    using book that by (auto simp: limit_book_def in_i32_def max_def split: if_splits)
  ultimately show ?thesis
    using book pass by (auto simp: limit_book_def wrap_i32_small max_def split: if_splits)
qed

lemma limit_book_mono: "limit_book s n \<Longrightarrow> options s' = options s \<Longrightarrow> k \<le> n \<Longrightarrow> limit_book s' k"
  by (auto simp: limit_book_def)

lemma limit_step:
  assumes "limit_known s (add_mset p M)" and "limit_book s (admitted p + total admitted M)"
    and "(s', ps) \<in> set (pool_moves cfg s p)"
  shows "limit_book s' (sum_list (map admitted ps) + total admitted M)"
proof (cases "\<exists>t. p = Ret (RetLimit t)")
  case True
  with assms limit_check [of s _ M] show ?thesis by (auto simp: get_waiting_def split: if_splits)
next
  case False
  have "options s' = options s \<and> sum_list (map admitted ps) \<le> admitted p"
    using False assms(3)
    by (cases p; rename_tac q; case_tac q;
        auto simp: step_iffs pool_updates split: step_splits call_result.splits)
  then have "options s' = options s"
    "sum_list (map admitted ps) + total admitted M \<le> admitted p + total admitted M" by simp_all
  with assms(2) show ?thesis by (rule limit_book_mono)
qed

lemma limit_ledger:
  assumes "started s0"
  shows "ledger (pool_moves cfg) s0 (initial_threads (options s0)) pool_entry limit_known admitted limit_book"
proof (unfold_locales, goal_cases)
  case (1 s M)
  then have "pool_reachable cfg s0 s M" by (simp add: pool_reachable_def)
  with assms lock_balanced waiting_balanced show ?case unfolding limit_known_def by blast
next
  case 2
  with assms show ?case by (simp add: total_initial started_def limit_book_def)
next
  case (3 p s x)
  then show ?case by (auto elim!: pool_entry.cases)
next
  case (4 s p M s' ps)
  then show ?case using limit_step by blast
qed

lemma limit_balanced: "started s0 \<Longrightarrow> pool_reachable cfg s0 s M \<Longrightarrow> limit_book s (total admitted M)"
  using ledger.balanced [OF limit_ledger] unfolding pool_reachable_def by blast

lemma options_step: "(s', ps) \<in> set (pool_moves cfg s p) \<Longrightarrow> options s' = options s"
  by (cases p; rename_tac q; case_tac q;
      auto simp: step_iffs pool_updates split: step_splits call_result.splits)

lemma options_constant: "pool_reachable cfg s0 s M \<Longrightarrow> options s = options s0"
  unfolding pool_reachable_def
proof (induction rule: reachable.induct)
  case (move s p M s' ps)
  then show ?case using options_step by metis
qed simp_all

lemma waits_le_admitted: "total waits M \<le> total admitted M"
proof (induction M)
  case (add p M)
  then show ?case by (cases p rule: admitted.cases) auto
qed simp

section \<open>The capacity\<close>

text \<open>
  A pool of finite capacity whose users never ask for more than \<open>K\<close>: no capacity that a thread has
  read or will store exceeds \<open>K\<close>.
\<close>

fun tunes_upto :: "i32 \<Rightarrow> 't pc \<Rightarrow> bool" where
  "tunes_upto K (Tun (TuneCap n)) \<longleftrightarrow> n \<le> K"
| "tunes_upto K (Tun (TuneStore n k)) \<longleftrightarrow> 0 < n \<and> n \<le> K"
| "tunes_upto K (Ret (RetRunning t c)) \<longleftrightarrow> c \<le> K"
| "tunes_upto K _ \<longleftrightarrow> True"

definition finite_upto :: "i32 \<Rightarrow> ('t, 'h, 'l) pool \<Rightarrow> bool" where
  "finite_upto K s \<longleftrightarrow> 0 < capacity s \<and> capacity s \<le> K \<and> K \<le> i32_max"

lemma tune_plan_Some: "tune_plan opts c n = Some k \<Longrightarrow> 0 < n \<and> c \<noteq> - 1 \<and> n \<noteq> c \<and> \<not> pre_alloc opts"
  by (auto simp: tune_plan_def split: if_splits)

lemma cap_step:
  assumes "finite_upto K s" and "tunes_upto K p" and "(s', ps) \<in> set (pool_moves cfg s p)"
  shows "finite_upto K s' \<and> list_all (tunes_upto K) ps"
  using assms
  by (cases p; rename_tac q; case_tac q;
      auto simp: finite_upto_def get_cap_def step_iffs pool_updates dest!: tune_plan_Some
        split: step_splits call_result.splits)

lemma cap_invariant:
  assumes "started s0" and "finite_upto K s0"
  shows "thread_invariant (pool_moves cfg) s0 (initial_threads (options s0))
    (\<lambda>p. pool_entry p \<and> tunes_upto K p) (\<lambda>_ _. True) (finite_upto K) (tunes_upto K)"
proof (unfold_locales, goal_cases)
  case (3 p)
  then show ?case by (auto dest: initial_member)
next
  case (5 s p M s' ps)
  then show ?case using cap_step by blast
qed (use assms in simp_all)

text \<open>Live workers, and callers that have decided to start one.\<close>

fun claims :: "'t pc \<Rightarrow> nat" where
  "claims (Ret (RetFetch t)) = 1" | "claims (Ret (RetRun t w)) = 1" | "claims p = alive p"

definition cap_known :: "i32 \<Rightarrow> ('t, 'h, 'l) pool \<Rightarrow> 't pc multiset \<Rightarrow> bool" where
  "cap_known K s M \<longleftrightarrow> finite_upto K s \<and> (\<forall>p \<in># M. tunes_upto K p) \<and> total holds M \<le> 1
     \<and> running s = wrap_i32 (int (total alive M))"

lemma claims_alone:
  assumes "\<forall>q \<in># M. holds q = 0"
  shows "total claims M = total alive M"
proof (rule total_cong)
  fix q assume "q \<in># M"
  then have "holds q = 0" using assms by blast
  then show "claims q = alive q" by (cases q rule: claims.cases) auto
qed

lemma alive_le_claims: "total alive M \<le> total claims M"
proof (induction M)
  case (add p M)
  then show ?case by (cases p rule: claims.cases) auto
qed simp

lemma cap_check:
  assumes known: "cap_known K s (add_mset (Ret (RetRunning t c)) M)"
    and book: "int (total claims M) \<le> K" and pass: "running s < c"
  shows "int (Suc (total claims M)) \<le> K"
proof -
  have "\<forall>q \<in># M. holds q = 0"
    using known total_holds_alone [of "Ret (RetRunning t c)" M] by (simp add: cap_known_def)
  then have "running s = wrap_i32 (int (total claims M))"
    using known claims_alone [of M] by (simp add: cap_known_def)
  moreover have "in_i32 (int (total claims M))"
    using book known by (simp add: cap_known_def finite_upto_def in_i32_def)
  ultimately have "int (total claims M) < c" using pass by (simp add: wrap_i32_small)
  moreover have "c \<le> K" using known by (simp add: cap_known_def)
  ultimately show ?thesis by simp
qed

lemma cap_ledger_step:
  assumes known: "cap_known K s (add_mset p M)" and book: "int (claims p + total claims M) \<le> K"
    and step: "(s', ps) \<in> set (pool_moves cfg s p)"
  shows "int (sum_list (map claims ps) + total claims M) \<le> K"
proof (cases "\<exists>t c. p = Ret (RetRunning t c)")
  case True
  with assms cap_check [of K s _ _ M] show ?thesis by (auto simp: get_running_def split: if_splits)
next
  case False
  have "capacity s \<noteq> - 1" using known by (simp add: cap_known_def finite_upto_def)
  then have "sum_list (map claims ps) \<le> claims p"
    using False step
    by (cases p; rename_tac q; case_tac q;
        auto simp: step_iffs pool_updates get_cap_def split: step_splits call_result.splits)
  with book show ?thesis by simp
qed

lemma cap_ledger:
  assumes "started s0" and "finite_upto K s0"
  shows "ledger (pool_moves cfg) s0 (initial_threads (options s0)) (\<lambda>p. pool_entry p \<and> tunes_upto K p)
    (cap_known K) claims (\<lambda>s n. int n \<le> K)"
proof (unfold_locales, goal_cases)
  case (1 s M)
  then have "pool_reachable cfg s0 s M" by (rule system_pool_reachable)
  with 1 assms thread_invariant.invariant [OF cap_invariant [OF assms]] show ?case
    unfolding cap_known_def using lock_balanced running_balanced by blast
next
  case 2
  with assms show ?case by (simp add: total_initial finite_upto_def)
next
  case (3 p s x)
  then show ?case by (auto elim!: pool_entry.cases)
next
  case (4 s p M s' ps)
  then show ?case using cap_ledger_step by blast
qed

lemma capacity_respected:
  assumes "started s0" and "finite_upto K s0" and "system (tunes_upto K) cfg s0 s M"
  shows "int (total alive M) \<le> K \<and> running s = int (total alive M)"
proof -
  have le: "int (total alive M) \<le> K"
    using ledger.balanced [OF cap_ledger [OF assms(1,2)] assms(3)] alive_le_claims [of M] by linarith
  moreover have "running s = wrap_i32 (int (total alive M))"
    using running_balanced [OF assms(1) system_pool_reachable [OF assms(3)]] .
  moreover have "in_i32 (int (total alive M))"
    using le assms(2) by (simp add: finite_upto_def in_i32_def)
  ultimately show ?thesis by (simp add: wrap_i32_small)
qed

section \<open>Tuning without effect\<close>

fun stores_capacity :: "'t pc \<Rightarrow> bool" where
  "stores_capacity (Tun (TuneStore n k)) \<longleftrightarrow> True"
| "stores_capacity _ \<longleftrightarrow> False"

definition untunable :: "i32 \<Rightarrow> ('h, 'l) options \<Rightarrow> ('t, 'h, 'l) pool \<Rightarrow> bool" where
  "untunable c os s \<longleftrightarrow> capacity s = c \<and> options s = os"

lemma untunable_step:
  assumes "c = - 1 \<or> pre_alloc os" and "untunable c os s" and "\<not> stores_capacity p"
    and "(s', ps) \<in> set (pool_moves cfg s p)"
  shows "untunable c os s' \<and> list_all (\<lambda>p. \<not> stores_capacity p) ps"
  using assms
  by (cases p; rename_tac q; case_tac q;
      auto simp: untunable_def get_cap_def step_iffs pool_updates dest!: tune_plan_Some
        split: step_splits call_result.splits)

lemma untunable_invariant:
  assumes "capacity s0 = - 1 \<or> pre_alloc (options s0)"
  shows "thread_invariant (pool_moves cfg) s0 (initial_threads (options s0)) pool_entry (\<lambda>_ _. True)
    (untunable (capacity s0) (options s0)) (\<lambda>p. \<not> stores_capacity p)"
proof (unfold_locales, goal_cases)
  case (3 p)
  then show ?case by (auto dest: initial_member)
next
  case (4 p)
  then show ?case by (auto elim!: pool_entry.cases)
next
  case (5 s p M s' ps)
  then show ?case using untunable_step [OF assms] by blast
qed (simp_all add: untunable_def)

end
