(* ===== verification/Pool_Shutdown.thy ===== *)
theory Pool_Shutdown
  imports Pool_Counting
begin

text \<open>
  Errors and shutdown: which errors a caller can get, that a bounded pool never panics, that a
  closed pool keeps no worker parked, and that the latch \<open>all_done\<close> is closed once a closed pool has
  no worker left, so nobody waits for it in vain.
\<close>

section \<open>Errors of callers\<close>

definition overload_possible :: "('h, 'l) options \<Rightarrow> bool" where
  "overload_possible opts \<longleftrightarrow> nonblocking opts \<or> max_blocking_tasks opts \<noteq> 0"

fun error_fits :: "('h, 'l) options \<Rightarrow> 't pc \<Rightarrow> bool" where
  "error_fits opts (Ret (RetRefuse t e)) \<longleftrightarrow> e = PoolClosed \<or> e = PoolOverload \<and> overload_possible opts"
| "error_fits opts (Sub (SubFail t e)) \<longleftrightarrow> e = PoolClosed \<or> e = PoolOverload \<and> overload_possible opts"
| "error_fits opts _ \<longleftrightarrow> True"

lemma error_step:
  assumes "error_fits (options s) p" and "(s', ps) \<in> set (pool_moves cfg s p)"
  shows "list_all (error_fits (options s)) ps"
  using assms
  by (cases p; rename_tac q; case_tac q;
      auto simp: overload_possible_def step_iffs split: step_splits call_result.splits)

lemma error_invariant:
  "thread_invariant (pool_moves cfg) s0 (initial_threads (options s0)) pool_entry (\<lambda>_ _. True)
    (\<lambda>s. options s = options s0) (error_fits (options s0))"
proof (unfold_locales, goal_cases)
  case (3 p)
  then show ?case by (auto dest: initial_member)
next
  case (4 p)
  then show ?case by (auto elim!: pool_entry.cases)
next
  case (5 s p M s' ps)
  then show ?case using error_step [of s p s' ps] options_step by metis
qed simp_all

lemma errors_fit: "pool_reachable cfg s0 s M \<Longrightarrow> p \<in># M \<Longrightarrow> error_fits (options s0) p"
  using thread_invariant.invariant [OF error_invariant] unfolding pool_reachable_def by blast

section \<open>A pool that nobody releases\<close>

fun keeps_open :: "'t pc \<Rightarrow> bool" where
  "keeps_open (Rel r) \<longleftrightarrow> False"
| "keeps_open (Ctx c) \<longleftrightarrow> False"
| "keeps_open (Tmo c) \<longleftrightarrow> False"
| "keeps_open (Ret (RetRefuse t e)) \<longleftrightarrow> e \<noteq> PoolClosed"
| "keeps_open (Sub (SubFail t e)) \<longleftrightarrow> e \<noteq> PoolClosed"
| "keeps_open _ \<longleftrightarrow> True"

lemma open_step:
  assumes "pool_state s = OPENED" and "keeps_open p" and "(s', ps) \<in> set (pool_moves cfg s p)"
  shows "pool_state s' = OPENED \<and> list_all keeps_open ps"
  using assms
  by (cases p; rename_tac q; case_tac q;
      auto simp: OPENED_def CLOSED_def is_closed_def step_iffs pool_updates split: step_splits call_result.splits)

lemma open_invariant:
  assumes "started s0"
  shows "thread_invariant (pool_moves cfg) s0 (initial_threads (options s0))
    (\<lambda>p. pool_entry p \<and> keeps_open p) (\<lambda>_ _. True) (\<lambda>s. pool_state s = OPENED) keeps_open"
proof (unfold_locales, goal_cases)
  case 2
  with assms show ?case by (simp add: started_def fresh_pool_def)
next
  case (3 p)
  then show ?case by (auto dest: initial_member)
next
  case (5 s p M s' ps)
  then show ?case using open_step by blast
qed simp_all

lemma stays_open: "started s0 \<Longrightarrow> system keeps_open cfg s0 s M \<Longrightarrow> pool_state s = OPENED \<and> (\<forall>p \<in># M. keeps_open p)"
  using thread_invariant.invariant [OF open_invariant] by blast

section \<open>No panics\<close>

fun no_overflow :: "'t pc \<Rightarrow> bool" where
  "no_overflow (Ret (RetUnwind t w)) \<longleftrightarrow> w = None"
| "no_overflow (Ret (RetAborted t w)) \<longleftrightarrow> w = None"
| "no_overflow (Wrk (WorkOverflow w)) \<longleftrightarrow> False"
| "no_overflow _ \<longleftrightarrow> True"

definition panic_known :: "i32 \<Rightarrow> ('t, 'h, 'l) pool \<Rightarrow> 't pc multiset \<Rightarrow> bool" where
  "panic_known K s M \<longleftrightarrow> K \<le> i32_max \<and> int (total claims M) \<le> K \<and> running s = int (total alive M)"

lemma overflow_step:
  assumes known: "panic_known K s (add_mset p M)" and fine: "no_overflow p"
    and step: "(s', ps) \<in> set (pool_moves cfg s p)"
  shows "list_all no_overflow ps"
proof -
  have up: "arith_i32 oc (running s + 1) \<noteq> None" if "p = Ret (RetRun t w)" for oc t w
    using known that alive_le_claims [of M] by (simp add: panic_known_def arith_i32_def in_i32_def)
  have down: "arith_i32 oc (running s - 1) \<noteq> None" if "p = Wrk (WorkExit w v)" for oc w v
    using known that alive_le_claims [of M] by (simp add: panic_known_def arith_i32_def in_i32_def)
  show ?thesis
    using fine step up down
    by (cases p; rename_tac q; case_tac q;
        auto simp: step_iffs pool_updates split: step_splits call_result.splits)
qed

lemma overflow_invariant:
  assumes "started s0" and "finite_upto K s0"
  shows "thread_invariant (pool_moves cfg) s0 (initial_threads (options s0))
    (\<lambda>p. pool_entry p \<and> tunes_upto K p) (panic_known K) (\<lambda>_. True) no_overflow"
proof (unfold_locales, goal_cases)
  case (1 s M)
  then show ?case
    using capacity_respected [OF assms 1] ledger.balanced [OF cap_ledger [OF assms] 1] assms(2)
    by (simp add: panic_known_def finite_upto_def)
next
  case (3 p)
  then show ?case by (auto dest: initial_member)
next
  case (4 p)
  then show ?case by (auto elim!: pool_entry.cases)
next
  case (5 s p M s' ps)
  then show ?case using overflow_step by blast
qed simp

lemma no_overflow_reached:
  "started s0 \<Longrightarrow> finite_upto K s0 \<Longrightarrow> system (tunes_upto K) cfg s0 s M \<Longrightarrow> p \<in># M \<Longrightarrow> no_overflow p"
  using thread_invariant.invariant [OF overflow_invariant] by blast

section \<open>A closed pool parks nobody\<close>

text \<open>
  \<open>True\<close> for a release that has closed the pool and not reset the queue yet, \<open>False\<close> for a worker
  that is about to park itself.
\<close>

fun draining :: "'t pc \<Rightarrow> bool multiset" where
  "draining (Rel (RelTakePurge a)) = {#True#}" | "draining (Rel (RelCancelPurge a c)) = {#True#}"
| "draining (Rel (RelTakeTick a)) = {#True#}" | "draining (Rel (RelCancelTick a c)) = {#True#}"
| "draining (Rel (RelLock a)) = {#True#}" | "draining (Rel (RelReset a)) = {#True#}"
| "draining (Rel RelUnwind) = {#True#}" | "draining (Rel RelAborted) = {#True#}"
| "draining (Rev (RevInsert w)) = {#False#}"
| "draining _ = {#}"

definition drain_book :: "('t, 'h, 'l) pool \<Rightarrow> bool multiset \<Rightarrow> bool" where
  "drain_book s X \<longleftrightarrow> (pool_state s = CLOSED \<and> True \<notin># X \<longrightarrow> wq_parked (workers s) = [] \<and> False \<notin># X)"

definition drain_known :: "('t, 'h, 'l) pool \<Rightarrow> 't pc multiset \<Rightarrow> bool" where
  "drain_known s M \<longleftrightarrow> wq_ok (workers s) \<and> total holds M \<le> 1"

lemma no_insert_without_lock: "\<forall>q \<in># M. holds q = 0 \<Longrightarrow> False \<notin># total draining M"
proof (induction M)
  case (add p M)
  then show ?case by (cases p rule: draining.cases) auto
qed simp

lemma drain_step:
  assumes known: "drain_known s (add_mset p M)" and book: "drain_book s (draining p + total draining M)"
    and step: "(s', ps) \<in> set (pool_moves cfg s p)"
  shows "drain_book s' (sum_list (map draining ps) + total draining M)"
proof -
  have ok: "wq_ok (workers s)" using known by (simp add: drain_known_def)
  have alone: "False \<notin># total draining M" if "holds p = 1"
    using no_insert_without_lock [OF total_holds_alone [OF _ that]] known by (simp add: drain_known_def)
  show ?thesis
    using book step alone ok
    by (cases p; rename_tac q; case_tac q;
        auto simp: drain_book_def is_closed_def OPENED_def CLOSED_def step_iffs pool_updates
          dest!: wq_ok_detach [rotated] wq_ok_detach_None [rotated] wq_ok_refresh [rotated] wq_ok_reset [rotated]
          split: step_splits call_result.splits)
qed

lemma drain_ledger:
  assumes "started s0"
  shows "ledger (pool_moves cfg) s0 (initial_threads (options s0)) pool_entry drain_known draining drain_book"
proof (unfold_locales, goal_cases)
  case (1 s M)
  then have "pool_reachable cfg s0 s M" by (simp add: pool_reachable_def)
  with assms lock_balanced queue_ok show ?case unfolding drain_known_def by blast
next
  case 2
  with assms show ?case by (simp add: drain_book_def started_def fresh_pool_def)
next
  case (3 p s x)
  then show ?case by (auto elim!: pool_entry.cases)
next
  case (4 s p M s' ps)
  then show ?case using drain_step by blast
qed

lemma drained: "started s0 \<Longrightarrow> pool_reachable cfg s0 s M \<Longrightarrow> drain_book s (total draining M)"
  using ledger.balanced [OF drain_ledger] unfolding pool_reachable_def by blast

section \<open>The latch of the last worker\<close>

text \<open>
  Without reboots: the latch is never replaced, and a closed pool that has no live worker, no worker
  in the first steps of its epilogue and no release still at work has closed it.
\<close>

fun no_reboot :: "'t pc \<Rightarrow> bool" where
  "no_reboot (Reb r) \<longleftrightarrow> False"
| "no_reboot (Wrk (WorkClose w p e)) \<longleftrightarrow> e = 0"
| "no_reboot (Rel (RelClose a e)) \<longleftrightarrow> e = 0"
| "no_reboot _ \<longleftrightarrow> True"

definition one_latch :: "('t, 'h, 'l) pool \<Rightarrow> bool" where
  "one_latch s \<longleftrightarrow> all_done s = 0 \<and> length (events s) = 1"

lemma latch_kept:
  assumes "one_latch s" and "no_reboot p" and "(s', ps) \<in> set (pool_moves cfg s p)"
  shows "one_latch s' \<and> list_all no_reboot ps"
  using assms
  by (cases p; rename_tac q; case_tac q;
      auto simp: one_latch_def step_iffs pool_updates split: step_splits call_result.splits)

lemma latch_invariant:
  assumes "started s0"
  shows "thread_invariant (pool_moves cfg) s0 (initial_threads (options s0))
    (\<lambda>p. pool_entry p \<and> no_reboot p) (\<lambda>_ _. True) one_latch no_reboot"
proof (unfold_locales, goal_cases)
  case 2
  with assms show ?case by (simp add: started_def fresh_pool_def one_latch_def)
next
  case (3 p)
  then show ?case by (auto dest: initial_member)
next
  case (5 s p M s' ps)
  then show ?case using latch_kept by blast
qed simp_all

fun leaving :: "'t pc \<Rightarrow> nat" where
  "leaving (Wrk (WorkLast w p)) = 1" | "leaving (Wrk (WorkAllDone w p)) = 1"
| "leaving (Wrk (WorkClose w p e)) = 1"
| "leaving (Rel (RelTakePurge a)) = 1" | "leaving (Rel (RelCancelPurge a c)) = 1"
| "leaving (Rel (RelTakeTick a)) = 1" | "leaving (Rel (RelCancelTick a c)) = 1"
| "leaving (Rel (RelLock a)) = 1" | "leaving (Rel (RelReset a)) = 1" | "leaving (Rel (RelFinish a ws)) = 1"
| "leaving (Rel (RelBroadcast a)) = 1" | "leaving (Rel (RelRunning a)) = 1"
| "leaving (Rel (RelAllDone a)) = 1" | "leaving (Rel (RelClose a e)) = 1"
| "leaving (Rel RelUnwind) = 1" | "leaving (Rel RelAborted) = 1"
| "leaving p = alive p"

definition latch_book :: "('t, 'h, 'l) pool \<Rightarrow> nat \<Rightarrow> bool" where
  "latch_book s n \<longleftrightarrow> (pool_state s = CLOSED \<and> n = 0 \<longrightarrow> event_closed (all_done s) s)"

definition latch_known :: "('t, 'h, 'l) pool \<Rightarrow> 't pc multiset \<Rightarrow> bool" where
  "latch_known s M \<longleftrightarrow> one_latch s \<and> (\<forall>p \<in># M. no_reboot p) \<and> running s = wrap_i32 (int (total alive M))"

lemma alive_le_leaving: "total alive M \<le> total leaving M"
proof (induction M)
  case (add p M)
  then show ?case by (cases p rule: leaving.cases) auto
qed simp

text \<open>A worker that is not the last leaves a live one behind; so does a release that sees one.\<close>

lemma not_last:
  assumes "running s = wrap_i32 (int (alive p + n))" and "alive p = 1"
    and "arith_i32 oc (running s - 1) \<noteq> Some 0"
  shows "0 < n"
proof (rule ccontr)
  assume "\<not> 0 < n"
  with assms(1,2) have "running s = 1" by (simp add: wrap_i32_def)
  with assms(3) show False by (simp add: arith_i32_def in_i32_def)
qed

lemma latch_step:
  assumes known: "latch_known s (add_mset p M)" and book: "latch_book s (leaving p + total leaving M)"
    and step: "(s', ps) \<in> set (pool_moves cfg s p)"
  shows "latch_book s' (sum_list (map leaving ps) + total leaving M)"
proof -
  have latch: "length (events s) = 1" "all_done s = 0" "no_reboot p"
    using known by (simp_all add: latch_known_def one_latch_def)
  have exit: "arith_i32 (overflow_checks cfg) (running s - 1) = Some 0 \<or> 0 < total leaving M"
    if "p = Wrk (WorkExit w v)" for w v
  proof -
    have "running s = wrap_i32 (int (alive p + total alive M))" "alive p = 1"
      using known that by (simp_all add: latch_known_def)
    then have "arith_i32 (overflow_checks cfg) (running s - 1) = Some 0 \<or> 0 < total alive M"
      by (metis not_last)
    then show ?thesis using alive_le_leaving [of M] by linarith
  qed
  have release: "running s = 0 \<or> 0 < total leaving M" if "p = Rel (RelRunning a)" for a
    using known that alive_le_leaving [of M] by (auto simp: latch_known_def wrap_i32_def intro: gr0I)
  show ?thesis
    using book step latch exit release
    by (cases p; rename_tac q; case_tac q;
        auto simp: latch_book_def event_closed_def event_is_closed_def is_closed_def OPENED_def CLOSED_def
          get_running_def step_iffs pool_updates split: step_splits call_result.splits)
qed

lemma latch_ledger:
  assumes "started s0"
  shows "ledger (pool_moves cfg) s0 (initial_threads (options s0)) (\<lambda>p. pool_entry p \<and> no_reboot p)
    latch_known leaving latch_book"
proof (unfold_locales, goal_cases)
  case (1 s M)
  then show ?case
    using thread_invariant.invariant [OF latch_invariant [OF assms] 1]
      running_balanced [OF assms system_pool_reachable [OF 1]]
    unfolding latch_known_def by blast
next
  case 2
  with assms show ?case by (simp add: latch_book_def started_def fresh_pool_def OPENED_def CLOSED_def)
next
  case (3 p s x)
  then show ?case by (auto elim!: pool_entry.cases simp: latch_book_def)
next
  case (4 s p M s' ps)
  then show ?case using latch_step by blast
qed

lemma latched: "started s0 \<Longrightarrow> system no_reboot cfg s0 s M \<Longrightarrow> latch_book s (total leaving M)"
  using ledger.balanced [OF latch_ledger] by blast

end
