(* ===== verification/Pool_Wakeups.thy ===== *)
theory Pool_Wakeups
  imports Pool_Shutdown
begin

text \<open>
  No caller sleeps while a worker is parked and nobody is on the way to it. The systems are those
  of a pool that nobody releases, up to the broadcast that would wrap the 64-bit generation.
\<close>

definition until_wrap :: "('t, 'l) config \<Rightarrow> (('t, 'h, 'l) pool, 't pc) moves" where
  "until_wrap cfg s p = (if generation (pool_cond s) = - 1 then [] else pool_moves cfg s p)"

abbreviation open_system ::
  "('t, 'l) config \<Rightarrow> ('t, 'h, 'l) pool \<Rightarrow> ('t, 'h, 'l) pool \<Rightarrow> 't pc multiset \<Rightarrow> bool" where
  "open_system cfg s0 \<equiv>
     reachable (until_wrap cfg) s0 (initial_threads (options s0)) (\<lambda>p. pool_entry p \<and> keeps_open p)"

lemma open_system_reachable: "open_system cfg s0 s M \<Longrightarrow> system keeps_open cfg s0 s M"
  by (erule reachable_mono) (auto simp: until_wrap_def)

section \<open>A caller that is about to wait has found the queue empty\<close>

fun found_empty :: "'t pc \<Rightarrow> nat" where
  "found_empty (Ret (RetCap t)) = 1" | "found_empty (Ret (RetRunning t c)) = 1"
| "found_empty (Ret (RetLimit t)) = 1" | "found_empty (Ret (RetEnqueue t)) = 1"
| "found_empty (Ret (RetWait t)) = 1" | "found_empty _ = 0"

lemma found_empty_holds: "\<forall>q \<in># M. holds q = 0 \<Longrightarrow> total found_empty M = 0"
proof (rule total_zero)
  fix q assume "\<forall>q \<in># M. holds q = 0" "q \<in># M"
  then have "holds q = 0" by blast
  then show "found_empty q = 0" by (cases q rule: found_empty.cases) auto
qed

definition empty_book :: "('t, 'h, 'l) pool \<Rightarrow> nat \<Rightarrow> bool" where
  "empty_book s n \<longleftrightarrow> (0 < n \<longrightarrow> wq_parked (workers s) = [])"

lemma empty_step:
  assumes known: "drain_known s (add_mset p M)" and book: "empty_book s (found_empty p + total found_empty M)"
    and step: "(s', ps) \<in> set (pool_moves cfg s p)"
  shows "empty_book s' (sum_list (map found_empty ps) + total found_empty M)"
proof -
  have ok: "wq_ok (workers s)" using known by (simp add: drain_known_def)
  have alone: "total found_empty M = 0" if "holds p = 1"
    using found_empty_holds [OF total_holds_alone [OF _ that]] known by (simp add: drain_known_def)
  show ?thesis
    using book step alone ok
    by (cases p; rename_tac q; case_tac q;
        auto simp: empty_book_def step_iffs pool_updates dest: wq_ok_detach_None
          split: step_splits call_result.splits)
qed

lemma empty_ledger:
  assumes "started s0"
  shows "ledger (pool_moves cfg) s0 (initial_threads (options s0)) pool_entry drain_known found_empty empty_book"
proof (unfold_locales, goal_cases)
  case (1 s M)
  then have "pool_reachable cfg s0 s M" by (simp add: pool_reachable_def)
  with assms lock_balanced queue_ok show ?case unfolding drain_known_def by blast
next
  case 2
  then show ?case by (simp add: total_initial empty_book_def)
next
  case (3 p s x)
  then show ?case by (auto elim!: pool_entry.cases)
next
  case (4 s p M s' ps)
  then show ?case using empty_step by blast
qed

lemma empty_balanced: "started s0 \<Longrightarrow> pool_reachable cfg s0 s M \<Longrightarrow> empty_book s (total found_empty M)"
  using ledger.balanced [OF empty_ledger] unfolding pool_reachable_def by blast

section \<open>Effects of the condition variable's operations\<close>

lemma cond_resume_effect:
  assumes "(leaves, c') \<in> set (cond_resume c g)"
  shows "generation c' = generation c"
    and "\<not> leaves \<Longrightarrow> tokens c' = tokens c \<and> parked c' = parked c"
    and "leaves \<Longrightarrow> parked c' = parked c - 1 \<and> tokens c' = tokens c - 1 \<and> (0 < tokens c \<or> generation c \<noteq> g)"
  using assms by (auto simp: cond_resume_def cond_check_def split: if_splits)

lemma cond_signal_effect:
  assumes "c' \<in> set (cond_signal c)"
  shows "generation c' = generation c" and "parked c' = parked c"
    and "tokens c' = (if tokens c < parked c then tokens c + 1 else tokens c)"
  using assms by (auto simp: cond_signal_def notify_one_def split: if_splits)

lemma cond_broadcast_effect:
  "parked (cond_broadcast c) = parked c"
  "generation (cond_broadcast c) = (if 0 < parked c then generation c + 1 else generation c)"
  "tokens (cond_broadcast c) = (if 0 < parked c then 0 else tokens c)"
  by (simp_all add: cond_broadcast_def)

lemma cond_wait_generation: "cond_wait c = (leaves, g, c') \<Longrightarrow> g = generation c \<and> generation c' = generation c"
  by (auto simp: cond_wait_def cond_check_def Let_def split: if_splits prod.splits)

section \<open>Nobody is stranded\<close>

text \<open>
  \<open>Some g\<close> for a caller that sleeps since generation \<open>g\<close>; \<open>None\<close> for a caller that is awake on its way
  to the queue, and for a worker that has parked itself and will signal next.
\<close>

fun passing :: "'t pc \<Rightarrow> 64 word option multiset" where
  "passing (Ret (RetSleep t g)) = {#Some g#}"
| "passing (Ret (RetRelock t)) = {#None#}" | "passing (Ret (RetAwake t)) = {#None#}"
| "passing (Ret (RetClosed t)) = {#None#}" | "passing (Ret (RetDetach t)) = {#None#}"
| "passing (Rev (RevSignal w)) = {#None#}"
| "passing _ = {#}"

definition wake_book :: "('t, 'h, 'l) pool \<Rightarrow> 64 word option multiset \<Rightarrow> bool" where
  "wake_book s X \<longleftrightarrow>
     (\<forall>g. Some g \<in># X \<longrightarrow> g \<le> generation (pool_cond s))
   \<and> (Some (generation (pool_cond s)) \<in># X \<and> tokens (pool_cond s) < parked (pool_cond s)
        \<longrightarrow> length (wq_parked (workers s)) \<le> tokens (pool_cond s) + count X None)"

definition wake_known :: "('t, 'h, 'l) pool \<Rightarrow> 't pc multiset \<Rightarrow> bool" where
  "wake_known s M \<longleftrightarrow> wq_ok (workers s) \<and> pool_state s = OPENED
     \<and> (0 < total found_empty M \<longrightarrow> wq_parked (workers s) = [])
     \<and> parked (pool_cond s) = size (total sleeps M)"

lemma word_less_inc:
  fixes x :: "64 word"
  assumes "x \<noteq> - 1"
  shows "x < x + 1"
proof -
  have "1 + x \<noteq> 0" using assms by (metis add.commute add_eq_0_iff)
  then have "unat (1 + x) = Suc (unat x)" by (rule unatSuc)
  then show ?thesis by (simp add: word_less_nat_alt add.commute)
qed

text \<open>The effects on the book, one kind of step at a time.\<close>

lemma wake_book_resume:
  assumes book: "wake_book s (add_mset (Some g) X)"
    and step: "(leaves, c) \<in> set (cond_resume (pool_cond s) g)"
  shows "wake_book (s\<lparr>pool_cond := c\<rparr>) (if leaves then add_mset None X else add_mset (Some g) X)"
proof (cases leaves)
  case False
  with assms cond_resume_effect [OF step] show ?thesis by (simp add: wake_book_def)
next
  case True
  note eff = cond_resume_effect(1) [OF step] cond_resume_effect(3) [OF step True]
  have "length (wq_parked (workers s)) \<le> tokens c + Suc (count X None)"
    if "Some (generation c) \<in># X" "tokens c < parked c"
  proof -
    have "tokens (pool_cond s) < parked (pool_cond s)" using that(2) eff by auto
    then have "length (wq_parked (workers s)) \<le> tokens (pool_cond s) + count X None"
      using book that(1) eff by (auto simp: wake_book_def)
    with eff show ?thesis by auto
  qed
  with True book eff show ?thesis by (auto simp: wake_book_def)
qed

lemma wake_book_signal:
  assumes "wake_book s (add_mset None X)" and "c \<in> set (cond_signal (pool_cond s))"
  shows "wake_book (s\<lparr>pool_cond := c\<rparr>) X"
  using assms(1) cond_signal_effect [OF assms(2)] by (auto simp: wake_book_def split: if_splits)

lemma wake_book_extra_signal:
  assumes "wake_book s X" and "c \<in> set (cond_signal (pool_cond s))"
  shows "wake_book (s\<lparr>pool_cond := c\<rparr>) X"
  using assms(1) cond_signal_effect [OF assms(2)] by (auto simp: wake_book_def split: if_splits)

lemma wake_book_broadcast:
  assumes "wake_book s X" and "generation (pool_cond s) \<noteq> - 1"
  shows "wake_book (broadcast s) X"
proof (cases "0 < parked (pool_cond s)")
  case True
  have "generation (pool_cond s) < generation (pool_cond s) + 1" using assms(2) by (rule word_less_inc)
  with assms(1) True show ?thesis
    by (fastforce simp: wake_book_def broadcast_def cond_broadcast_effect)
next
  case False
  with assms(1) show ?thesis by (simp add: wake_book_def broadcast_def cond_broadcast_effect)
qed

lemma wake_book_wait:
  assumes book: "wake_book s X" and step: "cond_wait (pool_cond s) = (leaves, g, c)"
    and none: "wq_parked (workers s) = []"
  shows "wake_book (unlock (s\<lparr>pool_cond := c\<rparr>)) (if leaves then add_mset None X else add_mset (Some g) X)"
  using book none cond_wait_generation [OF step] by (auto simp: wake_book_def)

lemma wake_book_keep:
  "wake_book s X \<Longrightarrow> pool_cond s' = pool_cond s \<Longrightarrow>
    length (wq_parked (workers s')) \<le> length (wq_parked (workers s)) \<Longrightarrow> wake_book s' X"
  by (auto simp: wake_book_def)

lemma wake_book_gain:
  "wake_book s X \<Longrightarrow> pool_cond s' = pool_cond s \<Longrightarrow>
    length (wq_parked (workers s')) \<le> Suc (length (wq_parked (workers s))) \<Longrightarrow> wake_book s' (add_mset None X)"
  by (auto simp: wake_book_def)

lemma wake_book_take:
  "wake_book s (add_mset None X) \<Longrightarrow> pool_cond s' = pool_cond s \<Longrightarrow>
    Suc (length (wq_parked (workers s'))) \<le> length (wq_parked (workers s)) \<or> wq_parked (workers s') = [] \<Longrightarrow>
    wake_book s' X"
  by (auto simp: wake_book_def)

lemma parked_length_detach:
  "wq_detach q = Some (Some w, q') \<Longrightarrow> wq_ok q \<Longrightarrow> Suc (length (wq_parked q')) \<le> length (wq_parked q)"
  using wq_ok_lengths(1) [of q "Some w" q'] by simp

lemma parked_length_refresh:
  "wq_refresh oc lu clk d q = Some (ex, q') \<Longrightarrow> wq_ok q \<Longrightarrow> length (wq_parked q') \<le> length (wq_parked q)"
  using wq_ok_lengths(3) [of q oc lu clk d ex q'] by simp

text \<open>The program counters whose step touches the queue or the condition variable.\<close>

fun touches :: "'t pc \<Rightarrow> bool" where
  "touches (Ret (RetDetach t)) = True" | "touches (Ret (RetWait t)) = True"
| "touches (Ret (RetSleep t g)) = True" | "touches (Ret (RetClosed t)) = True"
| "touches (Rev (RevInsert w)) = True" | "touches (Rev (RevSignal w)) = True"
| "touches (Wrk WorkSignal) = True" | "touches (Rev (RevBroadcast w)) = True"
| "touches (Rel r) = True" | "touches (Ctx c) = True" | "touches (Tmo c) = True" | "touches (Tun (TuneWake k)) = True"
| "touches (Pur (PurgeRefresh c)) = True" | "touches (Pur (PurgeBroadcast c)) = True"
| "touches _ = False"

lemma untouched_step:
  assumes "\<not> touches p" and "(s', ps) \<in> set (pool_moves cfg s p)"
  shows "pool_cond s' = pool_cond s \<and> workers s' = workers s \<and> 
    (sum_list (map passing ps) = passing p \<or> passing p = {#} \<and> sum_list (map passing ps) = {#None#})"
  using assms
  by (cases p; rename_tac q; case_tac q;
      auto simp: step_iffs pool_updates split: step_splits call_result.splits)

lemma wake_queue_step:
  assumes ok: "wq_ok (workers s)" "\<not> is_closed s" and book: "wake_book s (passing p + X)"
    and p: "(\<exists>t. p = Ret (RetDetach t)) \<or> (\<exists>t. p = Ret (RetClosed t)) \<or> (\<exists>w. p = Rev (RevInsert w))
      \<or> (\<exists>c. p = Pur (PurgeRefresh c))"
    and step: "(s', ps) \<in> set (pool_moves cfg s p)"
  shows "wake_book s' (sum_list (map passing ps) + X)"
  using p
proof (elim disjE exE)
  fix t assume p: "p = Ret (RetDetach t)"
  from step ok queue_facts(1) [of "workers s"] p consider
    (worker) w q where "wq_detach (workers s) = Some (Some w, q)" "s' = s\<lparr>workers := q\<rparr>" "ps = [Ret (RetUnlock t w)]"
    | (none) q where "wq_detach (workers s) = Some (None, q)" "s' = s\<lparr>workers := q\<rparr>" "ps = [Ret (RetCap t)]"
    by (auto simp: step_RetDetach)
  then show ?thesis
  proof cases
    case worker
    have "wake_book s' X"
      by (rule wake_book_take [of s]) (use book p worker parked_length_detach [OF worker(1) ok(1)] in auto)
    with worker show ?thesis by simp
  next
    case none
    have "wake_book s' X"
      by (rule wake_book_take [of s]) (use book p none wq_ok_detach_None [OF ok(1) none(1)] in auto)
    with none show ?thesis by simp
  qed
next
  fix t assume "p = Ret (RetClosed t)"
  with step ok book show ?thesis by auto
next
  fix w assume p: "p = Rev (RevInsert w)"
  from step ok queue_facts(2) [of "workers s" w] p consider
    (refused) "s' = s" "ps = [Rev (RevRefuse w)]"
    | (parked) q where "wq_insert w (workers s) = Some (Inr q)" "s' = s\<lparr>workers := q\<rparr>" "ps = [Rev (RevSignal w)]"
    by (auto simp: step_RevInsert)
  then show ?thesis
  proof cases
    case parked
    have "wake_book s' (add_mset None X)"
      by (rule wake_book_gain [of s]) (use book p parked wq_ok_insert [OF ok(1) parked(1)] in auto)
    with parked show ?thesis by simp
  qed (use book p in simp)
next
  fix c assume p: "p = Pur (PurgeRefresh c)"
  from step p consider (panic) "s' = s" "ps = [Pur PurgeUnwind]"
    | (stale) ws q where "wq_refresh (overflow_checks cfg) (last_used s) (wall_clock s)
        (expiry_duration (options s)) (workers s) = Some (ws, q)"
      "s' = s\<lparr>workers := q\<rparr>" "ps = [Pur (PurgeRunning c ws)]"
    by (auto simp: step_PurgeRefresh)
  then show ?thesis
  proof cases
    case stale
    have "wake_book s' X"
      by (rule wake_book_keep [of s]) (use book p stale parked_length_refresh [OF stale(1) ok(1)] in auto)
    with stale show ?thesis by simp
  qed (use book p in simp)
qed

lemma wake_signal_step:
  assumes book: "wake_book s (passing p + X)" and gen: "generation (pool_cond s) \<noteq> - 1"
    and p: "(\<exists>w. p = Rev (RevSignal w)) \<or> p = Wrk WorkSignal \<or> (\<exists>w. p = Rev (RevBroadcast w))
      \<or> (\<exists>k. p = Tun (TuneWake k)) \<or> (\<exists>c. p = Pur (PurgeBroadcast c))"
    and step: "(s', ps) \<in> set (pool_moves cfg s p)"
  shows "wake_book s' (sum_list (map passing ps) + X)"
  using p step book wake_book_signal [of s X] wake_book_extra_signal [of s X] wake_book_broadcast [OF _ gen, of X]
  by (elim disjE exE) (auto simp: in_signals step_TuneWake)

lemma wake_step:
  assumes known: "wake_known s (add_mset p M)" and book: "wake_book s (passing p + total passing M)"
    and fine: "keeps_open p" and step: "(s', ps) \<in> set (until_wrap cfg s p)"
  shows "wake_book s' (sum_list (map passing ps) + total passing M)"
proof -
  let ?X = "total passing M"
  have ok: "wq_ok (workers s)" "\<not> is_closed s"
    using known by (simp_all add: wake_known_def is_closed_def OPENED_def CLOSED_def)
  have gen: "generation (pool_cond s) \<noteq> - 1" and move: "(s', ps) \<in> set (pool_moves cfg s p)"
    using step by (auto simp: until_wrap_def split: if_splits)
  consider (wait) t where "p = Ret (RetWait t)" | (sleep) t g where "p = Ret (RetSleep t g)"
    | (queue) "(\<exists>t. p = Ret (RetDetach t)) \<or> (\<exists>t. p = Ret (RetClosed t)) \<or> (\<exists>w. p = Rev (RevInsert w))
      \<or> (\<exists>c. p = Pur (PurgeRefresh c))"
    | (signal) "(\<exists>w. p = Rev (RevSignal w)) \<or> p = Wrk WorkSignal \<or> (\<exists>w. p = Rev (RevBroadcast w))
      \<or> (\<exists>k. p = Tun (TuneWake k)) \<or> (\<exists>c. p = Pur (PurgeBroadcast c))"
    | (other) "\<not> touches p"
    using fine by (cases p rule: touches.cases) auto
  then show ?thesis
  proof cases
    case wait
    have empty: "wq_parked (workers s) = []" using known wait by (simp add: wake_known_def)
    from wait move obtain leaves g c where w: "cond_wait (pool_cond s) = (leaves, g, c)"
      "s' = unlock (s\<lparr>pool_cond := c\<rparr>)" "ps = [Ret (if leaves then RetRelock t else RetSleep t g)]"
      by (auto simp: step_RetWait)
    with wake_book_wait [OF _ w(1) empty, of ?X] book wait show ?thesis by (cases leaves) auto
  next
    case sleep
    with move obtain leaves c where r: "(leaves, c) \<in> set (cond_resume (pool_cond s) g)"
      "s' = s\<lparr>pool_cond := c\<rparr>" "ps = [Ret (if leaves then RetRelock t else RetSleep t g)]"
      by (auto simp: step_RetSleep)
    with wake_book_resume [OF _ r(1), of ?X] book sleep show ?thesis by (cases leaves) auto
  next
    case queue
    with wake_queue_step [OF ok book] move show ?thesis by blast
  next
    case signal
    with wake_signal_step [OF book gen] move show ?thesis by blast
  next
    case other
    with untouched_step [OF other move] wake_book_keep [OF book, of s'] wake_book_gain [of s ?X s'] book
    show ?thesis by auto
  qed
qed

lemma wake_ledger:
  assumes "started s0"
  shows "ledger (until_wrap cfg) s0 (initial_threads (options s0)) (\<lambda>p. pool_entry p \<and> keeps_open p)
    (\<lambda>s M. wake_known s M \<and> (\<forall>p \<in># M. keeps_open p)) passing wake_book"
proof (unfold_locales, goal_cases)
  case (1 s M)
  then have sys: "system keeps_open cfg s0 s M" by (rule open_system_reachable)
  then have r: "pool_reachable cfg s0 s M" by (rule system_pool_reachable)
  show ?case
    using queue_ok [OF assms r] stays_open [OF assms sys] empty_balanced [OF assms r] cond_balanced [OF assms r]
    by (simp add: wake_known_def empty_book_def cond_inv_def)
next
  case 2
  with assms show ?case by (simp add: total_initial wake_book_def)
next
  case (3 p s x)
  then show ?case by (auto elim!: pool_entry.cases)
next
  case (4 s p M s' ps)
  then show ?case using wake_step [of s p M s' ps cfg] by simp
qed

lemma wake_balanced: "started s0 \<Longrightarrow> open_system cfg s0 s M \<Longrightarrow> wake_book s (total passing M)"
  using ledger.balanced [OF wake_ledger] by blast

end
