(* ===== verification/Pool_Ownership.thy ===== *)
theory Pool_Ownership
  imports Pool_Locking
begin

text \<open>
  Who has a worker. A worker is parked in the queue, or retired in the cache, or a message to it is
  under way, or exactly one thread has it in hand (the caller that detached it until its send, the
  worker's own thread while it runs a task, the purge thread until it told it to finish, ...). And
  it either rests in the cache or has exactly one thread. Accepted tasks are conserved.
\<close>

section \<open>In hand\<close>

abbreviation mset_option :: "'a option \<Rightarrow> 'a multiset" where
  "mset_option x \<equiv> (case x of None \<Rightarrow> {#} | Some y \<Rightarrow> {#y#})"

fun ret_owned :: "'t retrieve_pc \<Rightarrow> nat multiset" where
  "ret_owned (RetRun t w) = {#w#}" | "ret_owned (RetSpawn t w) = {#w#}" | "ret_owned (RetUnlock t w) = {#w#}"
| "ret_owned (RetUnwind t w) = mset_option w" | "ret_owned (RetAborted t w) = mset_option w"
| "ret_owned (RetSpawnPanic t w) = {#w#}" | "ret_owned (RetSpawnFailed t w) = {#w#}"
| "ret_owned _ = {#}"

fun wrk_owned :: "'t worker_pc \<Rightarrow> nat multiset" where
  "wrk_owned (WorkCall w t) = {#w#}" | "wrk_owned (WorkExit w p) = {#w#}" | "wrk_owned (WorkLast w p) = {#w#}"
| "wrk_owned (WorkAllDone w p) = {#w#}" | "wrk_owned (WorkClose w p e) = {#w#}"
| "wrk_owned (WorkRecycle w p) = {#w#}" | "wrk_owned (WorkOverflow w) = {#w#}"
| "wrk_owned _ = {#}"

fun rev_owned :: "revert_pc \<Rightarrow> nat multiset" where
  "rev_owned (RevCap w) = {#w#}" | "rev_owned (RevRunning w c) = {#w#}" | "rev_owned (RevClosed w) = {#w#}"
| "rev_owned (RevBroadcast w) = {#w#}" | "rev_owned (RevNow w) = {#w#}" | "rev_owned (RevStamp w x) = {#w#}"
| "rev_owned (RevLock w) = {#w#}" | "rev_owned (RevCheck w) = {#w#}" | "rev_owned (RevInsert w) = {#w#}"
| "rev_owned (RevRefuse w) = {#w#}" | "rev_owned (RevUnwind w) = {#w#}" | "rev_owned (RevAborted w) = {#w#}"
| "rev_owned _ = {#}"

fun owned :: "'t pc \<Rightarrow> nat multiset" where
  "owned (Sub (SubInput t w)) = {#w#}"
| "owned (Ret p) = ret_owned p"
| "owned (Wrk p) = wrk_owned p"
| "owned (Rev p) = rev_owned p"
| "owned (Rel (RelFinish a ws)) = mset ws"
| "owned (Pur (PurgeRunning c ws)) = mset ws"
| "owned (Pur (PurgeUnlock c ws d)) = mset ws"
| "owned (Pur (PurgeFinish c ws d)) = mset ws"
| "owned _ = {#}"

definition addressees :: "'t mail \<Rightarrow> nat multiset" where
  "addressees m = image_mset fst (mset m)"

definition allocated :: "nat \<Rightarrow> nat multiset" where
  "allocated n = mset [0..<n]"

lemma allocated_Suc [simp]: "allocated (Suc n) = add_mset n (allocated n)"
  by (simp add: allocated_def atLeast0_lessThan_Suc)

lemma allocated_0 [simp]: "allocated 0 = {#}"
  by (simp add: allocated_def)

lemma count_allocated: "count (allocated n) w = (if w < n then 1 else 0)"
  by (simp add: allocated_def)

definition worker_book :: "('t, 'h, 'l) pool \<Rightarrow> nat multiset \<Rightarrow> bool" where
  "worker_book s X \<longleftrightarrow>
     mset (wq_parked (workers s)) + mset (worker_cache s) + addressees (mail s) + X = allocated (next_worker s)"

lemma addressees_send [simp]: "addressees (m @ [(w, x)]) = add_mset w (addressees m)"
  by (simp add: addressees_def)

lemma addressees_recv: "recv w m = Some (x, m') \<Longrightarrow> addressees m = add_mset w (addressees m')"
  by (auto dest!: recv_Some simp: addressees_def)

lemmas wq_ok_contents = wq_ok_insert [rotated] wq_ok_detach [rotated] wq_ok_detach_None [rotated]
  wq_ok_reset [rotated] wq_ok_refresh [rotated]

lemma worker_step:
  assumes ok: "wq_ok (workers s)" and book: "worker_book s (owned p + X)"
    and step: "(s', ps) \<in> set (pool_moves cfg s p)"
  shows "worker_book s' (sum_list (map owned ps) + X)"
  using assms
  by (cases p; rename_tac q; case_tac q;
      auto simp: worker_book_def step_iffs pool_updates
      dest!: wq_ok_contents addressees_recv split: step_splits call_result.splits;
      simp add: union_ac)

lemma worker_ledger:
  assumes "started s0"
  shows "ledger (pool_moves cfg) s0 (initial_threads (options s0)) pool_entry
    (\<lambda>s M. wq_ok (workers s)) owned worker_book"
proof (unfold_locales, goal_cases)
  case (1 s M)
  with assms show ?case by (simp add: queue_ok pool_reachable_def)
next
  case 2
  with assms show ?case by (simp add: total_initial started_def fresh_pool_def worker_book_def addressees_def)
next
  case (3 p s x)
  then show ?case by (auto elim!: pool_entry.cases)
next
  case (4 s p M s' ps)
  then show ?case using worker_step by blast
qed

lemma worker_balanced: "started s0 \<Longrightarrow> pool_reachable cfg s0 s M \<Longrightarrow> worker_book s (total owned M)"
  using ledger.balanced [OF worker_ledger] unfolding pool_reachable_def by blast

section \<open>Threads of workers\<close>

text \<open>The worker whose thread a program counter is, or that will get a thread or lost it to a panic.\<close>

fun ret_runs :: "'t retrieve_pc \<Rightarrow> nat multiset" where
  "ret_runs (RetRun t w) = {#w#}" | "ret_runs (RetSpawn t w) = {#w#}"
| "ret_runs (RetUnwind t w) = mset_option w" | "ret_runs (RetAborted t w) = mset_option w"
| "ret_runs (RetSpawnPanic t w) = {#w#}" | "ret_runs (RetSpawnFailed t w) = {#w#}"
| "ret_runs _ = {#}"

fun runs :: "'t pc \<Rightarrow> nat multiset" where
  "runs (Ret p) = ret_runs p"
| "runs (Wrk (Work w)) = {#w#}"
| "runs (Wrk p) = wrk_owned p"
| "runs (Rev (RevSignal w)) = {#w#}"
| "runs (Rev (RevUnlock w)) = {#w#}"
| "runs (Rev p) = rev_owned p"
| "runs _ = {#}"

definition thread_book :: "('t, 'h, 'l) pool \<Rightarrow> nat multiset \<Rightarrow> bool" where
  "thread_book s X \<longleftrightarrow> mset (worker_cache s) + X = allocated (next_worker s)"

lemma thread_step:
  assumes "thread_book s (runs p + X)" and "(s', ps) \<in> set (pool_moves cfg s p)"
  shows "thread_book s' (sum_list (map runs ps) + X)"
  using assms
  by (cases p; rename_tac q; case_tac q;
      auto simp: thread_book_def step_iffs pool_updates
      split: step_splits call_result.splits)

lemma thread_ledger:
  assumes "started s0"
  shows "ledger (pool_moves cfg) s0 (initial_threads (options s0)) pool_entry (\<lambda>_ _. True) runs thread_book"
proof (unfold_locales, goal_cases)
  case 2
  with assms show ?case by (simp add: total_initial started_def fresh_pool_def thread_book_def)
next
  case (3 p s x)
  then show ?case by (auto elim!: pool_entry.cases)
next
  case (4 s p M s' ps)
  then show ?case using thread_step by blast
qed simp

lemma thread_balanced: "started s0 \<Longrightarrow> pool_reachable cfg s0 s M \<Longrightarrow> thread_book s (total runs M)"
  using ledger.balanced [OF thread_ledger] unfolding pool_reachable_def by blast

section \<open>Tasks\<close>

text \<open>For one task: how often it was accepted, less the workers that are running it now.\<close>

fun settled :: "'t \<Rightarrow> 't pc \<Rightarrow> int" where
  "settled t (Sub (SubDone u)) = (if u = t then 1 else 0)"
| "settled t (Wrk (WorkCall w u)) = (if u = t then - 1 else 0)"
| "settled t _ = 0"

definition in_mail :: "'t \<Rightarrow> 't mail \<Rightarrow> nat" where
  "in_mail t m = length (filter (\<lambda>x. snd x = Payload t) m)"

definition task_book :: "'t \<Rightarrow> ('t, 'h, 'l) pool \<Rightarrow> int \<Rightarrow> bool" where
  "task_book t s x \<longleftrightarrow> x = int (count_list (executed s) t) + int (in_mail t (mail s))"

lemma in_mail_send [simp]: "in_mail t (m @ [(w, x)]) = in_mail t m + (if x = Payload t then 1 else 0)"
  by (simp add: in_mail_def)

lemma in_mail_recv: "recv w m = Some (x, m') \<Longrightarrow> in_mail t m = in_mail t m' + (if x = Payload t then 1 else 0)"
  by (auto dest!: recv_Some simp: in_mail_def)

lemma task_step:
  assumes "task_book t s (settled t p + X)" and "(s', ps) \<in> set (pool_moves cfg s p)"
  shows "task_book t s' (sum_list (map (settled t) ps) + X)"
  using assms
  by (cases p; rename_tac q; case_tac q;
      auto simp: task_book_def step_iffs pool_updates dest!: in_mail_recv [of _ _ _ _ t]
      split: step_splits call_result.splits)

lemma task_ledger:
  assumes "started s0"
  shows "ledger (pool_moves cfg) s0 (initial_threads (options s0)) pool_entry (\<lambda>_ _. True) (settled t) (task_book t)"
proof (unfold_locales, goal_cases)
  case 2
  with assms show ?case by (simp add: total_initial started_def fresh_pool_def task_book_def in_mail_def)
next
  case (3 p s x)
  then show ?case by (auto elim!: pool_entry.cases)
next
  case (4 s p M s' ps)
  then show ?case by (blast intro: task_step)
qed simp

lemma task_balanced: "started s0 \<Longrightarrow> pool_reachable cfg s0 s M \<Longrightarrow> task_book t s (total (settled t) M)"
  unfolding pool_reachable_def by (rule ledger.balanced [OF task_ledger])

section \<open>What ownership gives\<close>

lemma count_total: "count (total f M) w = total (\<lambda>p. count (f p) w) M"
  by (induction M) simp_all

lemma addressees_channel: "count (addressees m) w = length (channel w m)"
  by (induction m) (auto simp: addressees_def channel_def)

text \<open>The places of one worker: each at most once, and only one of them.\<close>

lemma worker_places:
  assumes "started s0" and "pool_reachable cfg s0 s M"
  shows "count (mset (wq_parked (workers s))) w + count (mset (worker_cache s)) w
    + length (channel w (mail s)) + count (total owned M) w \<le> 1"
proof -
  have "count (mset (wq_parked (workers s)) + mset (worker_cache s) + addressees (mail s) + total owned M) w \<le> 1"
    using worker_balanced [OF assms] by (simp add: worker_book_def count_allocated)
  then show ?thesis by (simp add: addressees_channel)
qed

lemma owned_channel_empty:
  assumes "started s0" and "pool_reachable cfg s0 s M" and "p \<in># M" and "w \<in># owned p"
  shows "channel w (mail s) = []"
proof -
  have "w \<in># total owned M" using assms(3,4) by (rule total_mset_mem)
  then have "1 \<le> count (total owned M) w" by (simp only: Suc_le_eq One_nat_def count_greater_zero_iff)
  with worker_places [OF assms(1,2), of w] have "length (channel w (mail s)) = 0" by linarith
  then show ?thesis by simp
qed

lemma send_possible:
  assumes "started s0" and "pool_reachable cfg s0 s M" and "p \<in># M" and "w \<in># owned p"
  shows "sends cfg s w m q \<noteq> []"
  using owned_channel_empty [OF assms] by (simp add: sends_def has_room_def)

text \<open>The thread of a worker that is parked, or that a message is sent to, is about to take messages.\<close>

fun listens :: "nat \<Rightarrow> 't pc \<Rightarrow> bool" where
  "listens w (Wrk (Work v)) \<longleftrightarrow> v = w"
| "listens w (Rev (RevSignal v)) \<longleftrightarrow> v = w"
| "listens w (Rev (RevUnlock v)) \<longleftrightarrow> v = w"
| "listens w _ \<longleftrightarrow> False"

lemma runs_not_owned: "w \<in># runs p \<Longrightarrow> w \<notin># owned p \<Longrightarrow> listens w p"
  by (cases p; rename_tac q; case_tac q) (auto split: option.splits)

lemma total_memD: "w \<in># total f M \<Longrightarrow> \<exists>p \<in># M. w \<in># f p"
  by (induction M) auto

lemma listener:
  assumes "started s0" and "pool_reachable cfg s0 s M"
    and "w \<in> set (wq_parked (workers s)) \<or> channel w (mail s) \<noteq> []"
  shows "\<exists>p \<in># M. listens w p"
proof -
  have places: "1 \<le> count (mset (wq_parked (workers s))) w + length (channel w (mail s))"
    using assms(3) by (auto simp: Suc_le_eq)
  then have cache: "count (mset (worker_cache s)) w = 0" and free: "count (total owned M) w = 0"
    using worker_places [OF assms(1,2), of w] by linarith+
  have "w < next_worker s"
  proof (rule ccontr)
    assume "\<not> w < next_worker s"
    then have "count (mset (wq_parked (workers s)) + mset (worker_cache s) + addressees (mail s) + total owned M) w = 0"
      using worker_balanced [OF assms(1,2)] by (simp add: worker_book_def count_allocated)
    with places show False by (simp add: addressees_channel)
  qed
  moreover have "count (mset (worker_cache s) + total runs M) w = count (allocated (next_worker s)) w"
    using thread_balanced [OF assms(1,2)] by (simp add: thread_book_def)
  ultimately have "w \<in># total runs M" using cache by (simp add: count_allocated flip: count_greater_zero_iff)
  then obtain p where p: "p \<in># M" "w \<in># runs p" by (blast dest: total_memD)
  moreover have "w \<notin># total owned M" using free by (simp only: not_in_iff)
  then have "w \<notin># owned p" using total_mset_mem [OF p(1), of w owned] by metis
  ultimately show ?thesis using runs_not_owned by blast
qed

text \<open>No worker has two threads.\<close>

lemma one_thread: "started s0 \<Longrightarrow> pool_reachable cfg s0 s M \<Longrightarrow> count (total runs M) w \<le> 1"
proof -
  assume "started s0" "pool_reachable cfg s0 s M"
  then have "count (mset (worker_cache s) + total runs M) w \<le> 1"
    using thread_balanced by (fastforce simp: thread_book_def count_allocated)
  then show ?thesis by simp
qed

text \<open>A thread that holds the lock is never blocked: not on a full channel, not on anything else.\<close>

lemma holder_moves:
  assumes "started s0" and "pool_reachable cfg s0 s M" and "p \<in># M" and "holds p = 1"
  shows "pool_moves cfg s p \<noteq> []"
proof (cases "\<exists>a w ws. p = Rel (RelFinish a (w # ws))")
  case True
  then obtain a w ws where p: "p = Rel (RelFinish a (w # ws))" by blast
  then show ?thesis using send_possible [OF assms(1-3), of w] by (simp add: release_moves.simps)
next
  case False
  have signal: "signals s q \<noteq> []" for q
    by (simp add: signals_def cond_signal_def notify_one_def)
  from False assms(4) signal show ?thesis
    by (cases p; rename_tac q; case_tac q; auto split: option.splits sum.splits prod.splits list.splits
        simp: retrieve_moves.simps revert_moves.simps release_moves.simps purge_moves.simps)
qed

lemma holder_or_sender_moves:
  assumes "started s0" and "pool_reachable cfg s0 s M" and "p \<in># M"
    and "holds p = 1 \<or> (\<exists>t w. p = Sub (SubInput t w)) \<or> (\<exists>c ws d. p = Pur (PurgeFinish c ws d))"
  shows "pool_moves cfg s p \<noteq> []"
  using assms(4)
proof (elim disjE exE)
  assume "holds p = 1"
  then show ?thesis by (rule holder_moves [OF assms(1-3)])
next
  fix t w assume "p = Sub (SubInput t w)"
  then show ?thesis using send_possible [OF assms(1-3), of w] by simp
next
  fix c ws d assume p: "p = Pur (PurgeFinish c ws d)"
  then show ?thesis
    using send_possible [OF assms(1-3)] by (cases ws) (auto simp: purge_moves.simps)
qed

text \<open>How often a task was accepted.\<close>

lemma settled_split:
  "total (settled t) M
     = int (count M (Sub (SubDone t))) - int (size (filter_mset (\<lambda>p. \<exists>w. p = Wrk (WorkCall w t)) M))"
proof (induction M)
  case (add p M)
  then show ?case by (cases p; rename_tac q; case_tac q) auto
qed simp

end
