(* ===== verification/Pool_Demo.thy ===== *)
theory Pool_Demo
  imports Pool_Wakeups Pool_Ownership
begin

text \<open>
  Concrete runs of a pool of capacity one, for the witnesses of the properties: one caller has been
  served and its task runs, a second caller sleeps on the condition variable.
\<close>

definition demo_config :: "(nat, unit) config" where
  "demo_config = \<lparr>overflow_checks = True, chan_cap = 1,
     run_payload = (\<lambda>t. if t = 0 then CallOk False else CallOk True), dflt_logger = (), backtrace = ''''\<rparr>"

definition demo_options :: "(unit, unit) options" where
  "demo_options = default_options\<lparr>max_blocking_tasks := 1, disable_purge := True, logger := Some ()\<rparr>"

definition demo_pool :: "(nat, unit, unit) pool" where
  "demo_pool = go_ticktock (go_purge (empty_pool 1 (StackQ (stack_new 0)) demo_options 0))"

lemma demo_started: "started demo_pool"
  by (simp add: demo_pool_def started_def fresh_pool_def empty_pool_def stack_new_def demo_options_def
      default_options_def in_i32_def)

lemma demo_new: "core_new () 0 1 [with_options demo_options] = Some (Inr demo_pool)"
  by (simp add: core_new_def Let_def load_options_def with_options_def demo_options_def default_options_def
      demo_pool_def normal_size_def new_worker_queue_stack)

lemma demo_finite: "finite_upto 1 demo_pool"
  by (simp add: finite_upto_def demo_pool_def empty_pool_def)

lemmas demo_eval = submit_moves.simps retrieve_moves.simps worker_moves.simps revert_moves.simps release_moves.simps fetch_cached_worker_def
  add_running_def add_waiting_def get_cap_def get_running_def get_waiting_def is_closed_def
  sends_def has_room_def channel_def recv_def extract_Cons_code extract_Nil_code arith_i32_def in_i32_def
  wrap_i32_def cond_wait_def cond_check_def cond_new_def cond_resume_def cond_signal_def notify_one_def
  cond_broadcast_def broadcast_def signals_def stack_detach_def stack_insert_def stack_reset_def OPENED_def CLOSED_def
  cancel_ctx_def close_event_def stack_new_def Let_def

lemmas demo_pool_eval = demo_pool_def go_ticktock_def go_purge_def empty_pool_def publish_ticktock_ctx_def
  demo_options_def default_options_def demo_config_def

text \<open>The second caller has just gone to sleep.\<close>

definition demo_busy :: "(nat, unit, unit) pool" where
  "demo_busy = demo_pool\<lparr>running := 1, waiting := 1, next_worker := 1,
     pool_cond := \<lparr>parked = 1, tokens = 0, generation = 0, asleep = [0], woken = []\<rparr>,
     last_used := (last_used demo_pool)(0 := 0)\<rparr>"

definition demo_busy_threads :: "nat pc list" where
  "demo_busy_threads = [Ret (RetSleep 8 0), Wrk (WorkCall 0 7), Sub (SubDone 7), Tck TickStart]"

definition demo_schedule :: "(nat \<times> nat) list" where
  "demo_schedule = replicate 10 (0, 0) @ [(1, 0), (2, 0)] @ replicate 7 (0, 0)"

lemma demo_busy_play:
  "play (pool_moves demo_config) demo_pool [Sub (SubClosed 7), Sub (SubClosed 8), Tck TickStart] demo_schedule
     = Some (demo_busy, demo_busy_threads)"
  by (simp add: demo_schedule_def demo_eval demo_pool_eval demo_busy_def demo_busy_threads_def numeral_eq_Suc)

lemma demo_initial: "initial_threads (options demo_pool) = {#Tck TickStart#}"
  by (simp add: initial_threads_def demo_pool_def demo_options_def empty_pool_def)

lemma demo_play_reachable:
  assumes "play (pool_moves demo_config) demo_pool (calls @ [Tck TickStart]) schedule = Some (s, ps)"
    and "list_all (\<lambda>p. pool_entry p \<and> ok p) calls"
  shows "system ok demo_config demo_pool s (mset ps)"
proof (rule play_reachable [OF _ assms(1)])
  show "system ok demo_config demo_pool demo_pool (mset (calls @ [Tck TickStart]))"
    using reachable_enter_all [OF reachable.start assms(2), of "pool_moves demo_config" demo_pool "{#Tck TickStart#}"]
    by (simp add: demo_initial)
qed

lemma demo_busy_system:
  "ok (Sub (SubClosed 7)) \<Longrightarrow> ok (Sub (SubClosed 8)) \<Longrightarrow> system ok demo_config demo_pool demo_busy (mset demo_busy_threads)"
  using demo_play_reachable [of "[Sub (SubClosed 7), Sub (SubClosed 8)]" demo_schedule demo_busy demo_busy_threads ok]
    demo_busy_play by simp

lemma demo_busy_reachable: "pool_reachable demo_config demo_pool demo_busy (mset demo_busy_threads)"
  by (rule system_pool_reachable [OF demo_busy_system [of "\<lambda>_. True"]]) simp_all

lemma demo_busy_open: "open_system demo_config demo_pool demo_busy (mset demo_busy_threads)"
proof (rule play_reachable)
  show "open_system demo_config demo_pool demo_pool
    (mset [Sub (SubClosed 7), Sub (SubClosed 8), Tck TickStart])"
    using reachable_enter_all [OF reachable.start,
      of "\<lambda>p. pool_entry p \<and> keeps_open p" "[Sub (SubClosed 7), Sub (SubClosed 8)]"
        "until_wrap demo_config" demo_pool "{#Tck TickStart#}"]
    by (simp add: demo_initial add_mset_commute)
  show "play (until_wrap demo_config) demo_pool [Sub (SubClosed 7), Sub (SubClosed 8), Tck TickStart]
    demo_schedule = Some (demo_busy, demo_busy_threads)"
    by (simp add: until_wrap_def demo_schedule_def demo_eval demo_pool_eval demo_busy_def
        demo_busy_threads_def numeral_eq_Suc)
qed

text \<open>The first task is on its way to its worker.\<close>

definition demo_sent :: "(nat, unit, unit) pool" where
  "demo_sent = demo_pool\<lparr>running := 1, next_worker := 1, mail := [(0, Payload 7)],
     last_used := (last_used demo_pool)(0 := 0)\<rparr>"

lemma demo_sent_reachable:
  "pool_reachable demo_config demo_pool demo_sent {#Sub (SubDone 7), Wrk (Work 0), Tck TickStart#}"
proof -
  have "play (pool_moves demo_config) demo_pool [Sub (SubClosed 7), Tck TickStart] (replicate 10 (0, 0))
     = Some (demo_sent, [Sub (SubDone 7), Wrk (Work 0), Tck TickStart])"
    by (simp add: demo_eval demo_pool_eval demo_sent_def numeral_eq_Suc)
  then show ?thesis
    using demo_play_reachable [of "[Sub (SubClosed 7)]" "replicate 10 (0, 0)" demo_sent
      "[Sub (SubDone 7), Wrk (Work 0), Tck TickStart]" "\<lambda>_. True"]
    by (simp add: pool_reachable_def)
qed

text \<open>Just before that: the caller has its worker and is about to send.\<close>

definition demo_input :: "(nat, unit, unit) pool" where
  "demo_input = demo_pool\<lparr>running := 1, next_worker := 1, last_used := (last_used demo_pool)(0 := 0)\<rparr>"

lemma demo_input_reachable:
  "pool_reachable demo_config demo_pool demo_input {#Sub (SubInput 7 0), Wrk (Work 0), Tck TickStart#}"
proof -
  have "play (pool_moves demo_config) demo_pool [Sub (SubClosed 7), Tck TickStart] (replicate 9 (0, 0))
     = Some (demo_input, [Sub (SubInput 7 0), Wrk (Work 0), Tck TickStart])"
    by (simp add: demo_eval demo_pool_eval demo_input_def numeral_eq_Suc)
  then show ?thesis
    using demo_play_reachable [of "[Sub (SubClosed 7)]" "replicate 9 (0, 0)" demo_input
      "[Sub (SubInput 7 0), Wrk (Work 0), Tck TickStart]" "\<lambda>_. True"]
    by (simp add: pool_reachable_def)
qed

text \<open>A third caller is refused while the second one waits.\<close>

definition demo_refused_threads :: "nat pc list" where
  "demo_refused_threads = Sub (SubFail 9 PoolOverload) # demo_busy_threads"

lemma demo_refused_reachable: "pool_reachable demo_config demo_pool demo_busy (mset demo_refused_threads)"
proof -
  let ?calls = "[Sub (SubClosed 7), Sub (SubClosed 8), Sub (SubClosed 9)]"
  have "play (pool_moves demo_config) demo_pool (?calls @ [Tck TickStart])
      (demo_schedule @ [(3, 0)] @ replicate 6 (0, 0)) = Some (demo_busy, demo_refused_threads)"
    by (simp add: demo_schedule_def demo_eval demo_pool_eval demo_busy_def demo_refused_threads_def
        demo_busy_threads_def numeral_eq_Suc)
  then have "system (\<lambda>_. True) demo_config demo_pool demo_busy (mset demo_refused_threads)"
    by (rule demo_play_reachable) simp
  then show ?thesis by (rule system_pool_reachable)
qed

text \<open>The pool was released while the task ran; its worker, the last one, has closed the latch.\<close>

definition demo_closed :: "(nat, unit, unit) pool" where
  "demo_closed = demo_pool\<lparr>running := 0, next_worker := 1, executed := [7], pool_state := CLOSED,
     stop_ticktock := None, ctxs := [cancel with_cancel], events := [event_close event_new],
     last_used := (last_used demo_pool)(0 := 0)\<rparr>"

definition demo_closed_threads :: "nat pc list" where
  "demo_closed_threads = [Wrk (WorkRecycle 0 None), Rel RelDone, Sub (SubDone 7), Tck TickStart]"

lemma demo_closed_system:
  assumes "ok (Sub (SubClosed 7))" and "ok (Rel (RelCas ReleaseReturns))"
  shows "system ok demo_config demo_pool demo_closed (mset demo_closed_threads)"
proof -
  let ?calls = "[Sub (SubClosed 7), Rel (RelCas ReleaseReturns)]"
  let ?schedule = "replicate 10 (0, 0) @ [(1, 0), (2, 0)] @ replicate 9 (0, 0) @ [(1, 0)] @ replicate 8 (0, 0)"
  have "play (pool_moves demo_config) demo_pool (?calls @ [Tck TickStart]) ?schedule
     = Some (demo_closed, demo_closed_threads)"
    by (simp add: demo_eval demo_pool_eval demo_closed_def demo_closed_threads_def numeral_eq_Suc)
  then show ?thesis by (rule demo_play_reachable) (use assms in simp)
qed

lemma demo_closed_reachable: "pool_reachable demo_config demo_pool demo_closed (mset demo_closed_threads)"
  by (rule system_pool_reachable [OF demo_closed_system [of "\<lambda>_. True"]]) simp_all

text \<open>An idle pool was released with a timeout; \<open>release_timeout\<close> has returned.\<close>

definition demo_released :: "(nat, unit, unit) pool" where
  "demo_released = demo_pool\<lparr>pool_state := CLOSED, stop_ticktock := None, ticktock_done := 1,
     ctxs := [cancel with_cancel, cancel (with_timeout 0 (Duration 5))], events := [event_close event_new]\<rparr>"

lemmas demo_release_eval = timeout_moves.simps context_moves.simps ticktock_moves.simps ctx_done_def ctx_err_def
  timeout_result_def event_closed_def event_is_closed_def is_done_def err_def past_deadline_def cancel_def
  with_cancel_def with_timeout_def to_std_def event_close_def event_new_def

lemma demo_released_system:
  assumes "ok (Tmo (TimeoutStart (Duration 5)))"
  shows "system ok demo_config demo_pool demo_released {#Tmo (TimeoutResult (Inr ())), Tck TickDone#}"
proof -
  let ?schedule = "replicate 10 (0, 0) @ [(1, 0), (0, 0), (0, 0), (1, 0)] @ replicate 16 (0, 0)"
  have "play (pool_moves demo_config) demo_pool ([Tmo (TimeoutStart (Duration 5))] @ [Tck TickStart]) ?schedule
     = Some (demo_released, [Tmo (TimeoutResult (Inr ())), Tck TickDone])"
    by (simp add: demo_eval demo_pool_eval demo_released_def demo_release_eval numeral_eq_Suc)
  from demo_play_reachable [OF this, of ok] assms show ?thesis by simp
qed

text \<open>A task is about to reach its worker; a release with a timeout of zero has given up.\<close>

definition demo_impatient :: "(nat, unit, unit) pool" where
  "demo_impatient = demo_sent\<lparr>pool_state := CLOSED, stop_ticktock := None,
     ctxs := [cancel with_cancel, cancel (with_timeout 0 (Duration 0))]\<rparr>"

lemma demo_impatient_reachable:
  "pool_reachable demo_config demo_pool demo_impatient
    {#Tmo (TimeoutResult (Inl Timeout)), Sub (SubDone 7), Wrk (Work 0), Tck TickStart#}"
proof -
  let ?calls = "[Sub (SubClosed 7), Tmo (TimeoutStart (Duration 0))]"
  have "play (pool_moves demo_config) demo_pool (?calls @ [Tck TickStart]) (replicate 10 (0, 0) @ [(2, 0)] @ replicate 20 (0, 0))
     = Some (demo_impatient, [Tmo (TimeoutResult (Inl Timeout)), Sub (SubDone 7), Wrk (Work 0), Tck TickStart])"
    by (simp add: demo_eval demo_pool_eval demo_impatient_def demo_sent_def demo_release_eval numeral_eq_Suc)
  then have "system (\<lambda>_. True) demo_config demo_pool demo_impatient
      (mset [Tmo (TimeoutResult (Inl Timeout)), Sub (SubDone 7), Wrk (Work 0), Tck TickStart])"
    by (rule demo_play_reachable) simp
  then show ?thesis by (simp add: pool_reachable_def)
qed

end
