(* ===== verification/Pool_Races.thy ===== *)
theory Pool_Races
  imports Pool_Demo
begin

text \<open>
  What the interleavings of a pool can bring about against expectation, each as a concrete run: a wake-up
  that is lost, a panic handler that panics, a thread that is refused, a task that runs after a completed release, a latch that nobody is left to close, a queue
  out of order. For the two that last, an invariant shows that nothing that still happens repairs them.
\<close>

text \<open>The run of a schedule, for the pool it starts from and the calls that enter it.\<close>

lemma play_system:
  assumes "play (pool_moves cfg) s0 (calls @ start) schedule = Some (s, ps)"
    and "list_all (\<lambda>p. pool_entry p \<and> ok p) calls" and "mset start = initial_threads (options s0)"
  shows "system ok cfg s0 s (mset ps)"
proof (rule play_reachable [OF _ assms(1)])
  show "system ok cfg s0 s0 (mset (calls @ start))"
    using reachable_enter_all [OF reachable.start assms(2), of "pool_moves cfg" s0 "mset start"] assms(3) by simp
qed

section \<open>A wake-up that is lost\<close>

text \<open>
  The pool has one worker, which runs the stop sentinel. A caller finds the pool full; the worker ends, lowers
  \<open>running\<close> and signals, without the lock; then the caller starts to wait, under the lock, for a worker that
  is gone.
\<close>

definition demo_stranded :: "(nat, unit, unit) pool" where
  "demo_stranded = demo_pool\<lparr>waiting := 1, next_worker := 1, executed := [0], worker_cache := [0],
     pool_cond := \<lparr>parked = 1, tokens = 0, generation = 0, asleep = [0], woken = []\<rparr>,
     last_used := (last_used demo_pool)(0 := 0)\<rparr>"

definition demo_stranded_threads :: "nat pc list" where
  "demo_stranded_threads = [Ret (RetSleep 8 0), Wrk WorkDone, Sub (SubDone 0), Tck TickStart]"

lemma demo_stranded_system:
  assumes "ok (Sub (SubClosed 0))" and "ok (Sub (SubClosed 8))"
  shows "system ok demo_config demo_pool demo_stranded (mset demo_stranded_threads)"
proof -
  let ?calls = "[Sub (SubClosed 0), Sub (SubClosed 8)]"
  let ?schedule = "replicate 10 (0, 0) @ [(2, 0)] @ replicate 6 (0, 0) @ [(2, 0)] @ replicate 6 (0, 0) @ [(1, 0)]"
  have "play (pool_moves demo_config) demo_pool (?calls @ [Tck TickStart]) ?schedule
     = Some (demo_stranded, demo_stranded_threads)"
    by (simp add: demo_eval demo_pool_eval recycle_def demo_stranded_def demo_stranded_threads_def numeral_eq_Suc)
  then show ?thesis by (rule demo_play_reachable) (use assms in simp)
qed

section \<open>A panic handler that panics\<close>

text \<open>A caller waits for the only worker, whose task panics and whose panic handler panics as well.\<close>

definition demo_throwing :: "(nat, unit) config" where
  "demo_throwing = demo_config\<lparr>run_payload := (\<lambda>_. CallPanic (StaticStr ''boom''))\<rparr>"

definition demo_handled :: "(nat, unit, unit) pool" where
  "demo_handled = go_ticktock (go_purge (empty_pool 1 (StackQ (stack_new 0)) (demo_options\<lparr>panic_handler := Some ()\<rparr>) 0))"

definition demo_unsignalled :: "(nat, unit, unit) pool" where
  "demo_unsignalled = demo_handled\<lparr>waiting := 1, next_worker := 1, executed := [7], worker_cache := [0],
     reports := [Handled () (StaticStr ''boom'')],
     pool_cond := \<lparr>parked = 1, tokens = 0, generation = 0, asleep = [0], woken = []\<rparr>,
     last_used := (last_used demo_handled)(0 := 0)\<rparr>"

definition demo_unsignalled_threads :: "nat pc list" where
  "demo_unsignalled_threads = [Wrk WorkDone, Ret (RetSleep 8 0), Sub (SubDone 7), Tck TickStart]"

lemma demo_unsignalled_reachable:
  "pool_reachable demo_throwing demo_handled demo_unsignalled (mset demo_unsignalled_threads)"
proof -
  let ?calls = "[Sub (SubClosed 7), Sub (SubClosed 8)]"
  have "play (pool_moves demo_throwing) demo_handled (?calls @ [Tck TickStart])
      (demo_schedule @ [(1, 0), (0, 0), (0, 0), (0, 0), (0, 1)])
     = Some (demo_unsignalled, demo_unsignalled_threads)"
    by (simp add: demo_schedule_def demo_throwing_def demo_handled_def demo_eval demo_pool_eval recycle_def report_panic_def
        demo_unsignalled_def demo_unsignalled_threads_def numeral_eq_Suc)
  then have "system (\<lambda>_. True) demo_throwing demo_handled demo_unsignalled (mset demo_unsignalled_threads)"
    by (rule play_system) (simp_all add: initial_threads_def demo_handled_def demo_options_def empty_pool_def)
  then show ?thesis by (rule system_pool_reachable)
qed

section \<open>A worker without a thread\<close>

text \<open>The system refuses the thread of the first worker, after \<open>running\<close> has been raised.\<close>

definition demo_refused_spawn :: "(nat, unit, unit) pool" where
  "demo_refused_spawn = demo_pool\<lparr>running := 1, next_worker := 1, last_used := (last_used demo_pool)(0 := 0)\<rparr>"

lemma demo_refused_spawn_system:
  "system (tunes_upto 1) demo_config demo_pool demo_refused_spawn {#Ret (RetSpawnFailed 7 0), Tck TickStart#}"
proof -
  have "play (pool_moves demo_config) demo_pool ([Sub (SubClosed 7)] @ [Tck TickStart]) (replicate 7 (0, 0) @ [(0, 1), (0, 0)])
     = Some (demo_refused_spawn, [Ret (RetSpawnFailed 7 0), Tck TickStart])"
    by (simp add: demo_eval demo_pool_eval demo_refused_spawn_def numeral_eq_Suc)
  from play_system [OF this] have "system (tunes_upto 1) demo_config demo_pool demo_refused_spawn
      (mset [Ret (RetSpawnFailed 7 0), Tck TickStart])"
    by (simp add: demo_initial)
  then show ?thesis by simp
qed

section \<open>A late worker\<close>

text \<open>
  A caller has read the state before the pool is released with a time-out; it starts its worker after
  \<open>release_timeout\<close> has seen \<open>running\<close> at zero.
\<close>

definition demo_late :: "(nat, unit, unit) pool" where
  "demo_late = demo_released\<lparr>running := 1, next_worker := 1, executed := [7], last_used := (last_used demo_pool)(0 := 0)\<rparr>"

lemma demo_late_system:
  assumes "ok (Sub (SubClosed 7))" and "ok (Tmo (TimeoutStart (Duration 5)))"
  shows "system ok demo_config demo_pool demo_late
    (mset [Rev (RevCap 0), Sub (SubDone 7), Tmo (TimeoutResult (Inr ())), Tck TickDone])"
proof -
  let ?calls = "[Sub (SubClosed 7), Tmo (TimeoutStart (Duration 5))]"
  let ?schedule = "[(0, 0), (1, 0)] @ replicate 9 (0, 0) @ [(2, 0), (0, 0), (0, 0), (1, 0)] @ replicate 16 (0, 0)
    @ [(2, 0)] @ replicate 8 (0, 0) @ [(1, 0), (0, 0)]"
  have "play (pool_moves demo_config) demo_pool (?calls @ [Tck TickStart]) ?schedule
     = Some (demo_late, [Rev (RevCap 0), Sub (SubDone 7), Tmo (TimeoutResult (Inr ())), Tck TickDone])"
    by (simp add: demo_eval demo_pool_eval demo_released_def demo_release_eval demo_late_def numeral_eq_Suc)
  then show ?thesis by (rule demo_play_reachable) (use assms in simp)
qed

section \<open>A latch that is lost\<close>

text \<open>
  The pool is released, a reboot makes it open again, a second release closes the old latch, and the reboot
  then installs its new one.
\<close>

definition demo_unbootable :: "(nat, unit, unit) pool" where
  "demo_unbootable = demo_pool\<lparr>pool_state := CLOSED, ticktock_done := 1, stop_ticktock := Some 1, ticktock_ctx := Some 1,
     ctxs := [cancel with_cancel, with_cancel], events := [event_close event_new, event_new], all_done := 1\<rparr>"

definition demo_unbootable_threads :: "nat pc list" where
  "demo_unbootable_threads = [Tck TickDone, Reb RebDone, Rel RelDone, Tck TickDone, Rel RelDone]"

lemma demo_unbootable_reachable:
  "pool_reachable demo_config demo_pool demo_unbootable (mset demo_unbootable_threads)"
proof -
  let ?calls = "[Rel (RelCas ReleaseReturns), Reb RebState, Rel (RelCas ReleaseReturns)]"
  let ?schedule = "replicate 12 (0, 0) @ [(3, 0), (0, 0), (0, 0), (2, 0)] @ replicate 4 (0, 0) @ [(3, 0)]
    @ replicate 10 (0, 0) @ [(1, 0)] @ replicate 6 (0, 0) @ [(1, 0)] @ replicate 3 (0, 0)"
  have "play (pool_moves demo_config) demo_pool (?calls @ [Tck TickStart]) ?schedule
     = Some (demo_unbootable, demo_unbootable_threads)"
    by (simp add: demo_eval demo_pool_eval demo_release_eval reboot_moves.simps demo_unbootable_def
        demo_unbootable_threads_def numeral_eq_Suc)
  then have "system (\<lambda>_. True) demo_config demo_pool demo_unbootable (mset demo_unbootable_threads)"
    by (rule demo_play_reachable) simp
  then show ?thesis by (rule system_pool_reachable)
qed

section \<open>A queue out of order\<close>

text \<open>Worker 1 stamps itself, the clock ticks, worker 0 stamps and parks itself, then worker 1 parks.\<close>

definition demo_pair :: "(nat, unit, unit) pool" where
  "demo_pair = go_ticktock (go_purge (empty_pool 2 (StackQ (stack_new 0)) demo_options 0))"

definition demo_unsorted :: "(nat, unit, unit) pool" where
  "demo_unsorted = demo_pair\<lparr>workers := StackQ \<lparr>stack_items = [0, 1]\<rparr>, running := 2, next_worker := 2, executed := [8, 7],
     now := 10, wall_clock := 10, last_used := (last_used demo_pair)(1 := 0, 0 := 10)\<rparr>"

lemma demo_unsorted_reachable:
  "pool_reachable demo_config demo_pair demo_unsorted
    (mset [Wrk (Work 1), Wrk (Work 0), Tck (TickTick 0), Env EnvDone, Sub (SubDone 8), Sub (SubDone 7)])"
proof -
  let ?calls = "[Sub (SubClosed 7), Sub (SubClosed 8), Env (Clocks 10 0)]"
  let ?schedule = "replicate 10 (0, 0) @ [(2, 0)] @ replicate 9 (0, 0) @ [(1, 0)] @ replicate 6 (0, 0)
    @ [(4, 0), (5, 0), (0, 0), (0, 0), (0, 0), (5, 0)] @ replicate 11 (0, 0) @ [(3, 0)] @ replicate 4 (0, 0)"
  have "play (pool_moves demo_config) demo_pair (?calls @ [Tck TickStart]) ?schedule
     = Some (demo_unsorted, [Wrk (Work 1), Wrk (Work 0), Tck (TickTick 0), Env EnvDone, Sub (SubDone 8), Sub (SubDone 7)])"
    by (simp add: demo_eval demo_pool_eval demo_pair_def demo_release_eval demo_unsorted_def numeral_eq_Suc)
  then have "system (\<lambda>_. True) demo_config demo_pair demo_unsorted
      (mset [Wrk (Work 1), Wrk (Work 0), Tck (TickTick 0), Env EnvDone, Sub (SubDone 8), Sub (SubDone 7)])"
    by (rule play_system) (simp_all add: initial_threads_def demo_pair_def demo_options_def empty_pool_def)
  then show ?thesis by (rule system_pool_reachable)
qed

lemma demo_unsorted_refresh:
  "wq_refresh True (last_used demo_unsorted) 10 (Duration 5) (workers demo_unsorted) = Some ([], workers demo_unsorted)"
  by (simp add: demo_unsorted_def stack_refresh_def stack_binary_search_def stack_len_def Let_def stack_search.simps
      stack_at_def arith_i64_def arith_i32_def in_i32_def in_i64_def wrap_i32_def)

section \<open>Stuck forever\<close>

text \<open>Threads that neither wake a sleeper of generation \<open>g\<close> nor start anything that does.\<close>

fun idle :: "64 word \<Rightarrow> 't pc \<Rightarrow> bool" where
  "idle g (Ret (RetSleep t h)) \<longleftrightarrow> h = g"
| "idle g (Sub (SubDone t)) \<longleftrightarrow> True" | "idle g (Sub (SubFail t e)) \<longleftrightarrow> True"
| "idle g (Wrk WorkDone) \<longleftrightarrow> True" | "idle g (Tck q) \<longleftrightarrow> True" | "idle g (Env q) \<longleftrightarrow> True"
| "idle g p \<longleftrightarrow> False"

definition unanswered :: "64 word \<Rightarrow> ('t, 'h, 'l) pool \<Rightarrow> bool" where
  "unanswered g s \<longleftrightarrow> tokens (pool_cond s) = 0 \<and> generation (pool_cond s) = g"

lemma sleeper_idle:
  assumes "unanswered g s" and "(s', ps) \<in> set (retrieve_moves cfg s (RetSleep t g))"
  shows "unanswered g s' \<and> ps = [Ret (RetSleep t g)]"
  using assms by (auto simp: unanswered_def step_RetSleep cond_resume_def cond_check_def split: if_splits)

lemma idle_others:
  assumes "idle g p" and "(s', ps) \<in> set (pool_moves cfg s p)" and "\<forall>t. p \<noteq> Ret (RetSleep t g)"
  shows "pool_cond s' = pool_cond s \<and> list_all (idle g) ps \<and> (\<forall>t. Ret (RetSleep t g) \<notin> set ps)"
proof (cases p)
  case (Tck q)
  with assms show ?thesis by (cases q) auto
next
  case (Env q)
  with assms show ?thesis by (cases q) (auto simp: cancel_ctx_def)
qed (use assms in \<open>auto elim!: idle.elims\<close>)

lemma idle_step:
  assumes "unanswered g s" and "idle g p" and "(s', ps) \<in> set (pool_moves cfg s p)"
  shows "unanswered g s' \<and> list_all (idle g) ps
    \<and> count (mset ps) (Ret (RetSleep t g)) = count {#p#} (Ret (RetSleep t g))"
proof (cases "\<exists>t. p = Ret (RetSleep t g)")
  case True
  with assms sleeper_idle show ?thesis by fastforce
next
  case False
  with idle_others [OF assms(2,3)] assms(1) show ?thesis by (auto simp: unanswered_def count_mset_0_iff)
qed

lemma stays_stranded:
  assumes "reachable (pool_moves cfg) s0 M0 (\<lambda>p. \<exists>e. p = Env e \<and> pool_entry p) s M"
    and "unanswered g s0" and "\<forall>p \<in># M0. idle g p"
  shows "unanswered g s \<and> (\<forall>p \<in># M. idle g p) \<and> count M (Ret (RetSleep t g)) = count M0 (Ret (RetSleep t g))"
  using assms(1)
proof (induction rule: reachable.induct)
  case start
  with assms(2,3) show ?case by simp
next
  case (enter s M p)
  then show ?case by auto
next
  case (move s p M s' ps)
  then have "unanswered g s" "idle g p" by simp_all
  from idle_step [OF this move.hyps(2), of t] move.IH show ?case by (auto simp: list_all_iff)
qed

section \<open>Closed forever\<close>

text \<open>What threads can still do in a closed pool whose latch \<open>e\<close> nobody is left to close.\<close>

fun locked_out :: "nat \<Rightarrow> 't pc \<Rightarrow> bool" where
  "locked_out e (Sub (SubClosed t)) \<longleftrightarrow> True" | "locked_out e (Sub (SubDone t)) \<longleftrightarrow> True"
| "locked_out e (Sub (SubFail t er)) \<longleftrightarrow> True" | "locked_out e (Wrk WorkDone) \<longleftrightarrow> True"
| "locked_out e (Rel (RelCas a)) \<longleftrightarrow> a = ReleaseReturns" | "locked_out e (Rel (RelReturn a)) \<longleftrightarrow> a = ReleaseReturns"
| "locked_out e (Rel RelDone) \<longleftrightarrow> True"
| "locked_out e (Ctx (CtxClosed k)) \<longleftrightarrow> True" | "locked_out e (Ctx (CtxReturn k r)) \<longleftrightarrow> True"
| "locked_out e (Ctx (CtxResult k r)) \<longleftrightarrow> True" | "locked_out e (Tmo q) \<longleftrightarrow> True" | "locked_out e (Tun u) \<longleftrightarrow> True"
| "locked_out e (Reb RebState) \<longleftrightarrow> True" | "locked_out e (Reb RebAllDone) \<longleftrightarrow> True"
| "locked_out e (Reb (RebWait d)) \<longleftrightarrow> d = e" | "locked_out e (Reb RebDone) \<longleftrightarrow> True"
| "locked_out e (Tck TickDone) \<longleftrightarrow> True" | "locked_out e (Env q) \<longleftrightarrow> True"
| "locked_out e p \<longleftrightarrow> False"

definition latch_gone :: "nat \<Rightarrow> ('t, 'h, 'l) pool \<Rightarrow> bool" where
  "latch_gone e s \<longleftrightarrow> pool_state s = CLOSED \<and> all_done s = e \<and> \<not> event_closed e s"

lemma latch_gone_step:
  assumes "latch_gone e s" and "locked_out e p" and "(s', ps) \<in> set (pool_moves cfg s p)"
  shows "latch_gone e s' \<and> list_all (locked_out e) ps"
  using assms
  by (cases p; rename_tac q; case_tac q;
      simp add: latch_gone_def is_closed_def OPENED_def CLOSED_def;
      auto simp: step_iffs pool_updates event_closed_def split: step_splits)

lemma closed_forever:
  assumes "reachable (pool_moves cfg) s0 M0 pool_entry s M"
    and "latch_gone e s0" and "\<forall>p \<in># M0. locked_out e p"
  shows "latch_gone e s \<and> (\<forall>p \<in># M. locked_out e p)"
  using assms(1)
proof (induction rule: reachable.induct)
  case start
  with assms(2,3) show ?case by simp
next
  case (enter s M p)
  then show ?case by (auto elim: pool_entry.cases)
next
  case (move s p M s' ps)
  then have "latch_gone e s" "locked_out e p" by simp_all
  from latch_gone_step [OF this move.hyps(2)] move.IH show ?case by (auto simp: list_all_iff)
qed

section \<open>Properties\<close>

text \<open>C16: A wake-up can be lost for good. In an open pool of capacity one without a purge thread, a caller can
  be asleep although no worker is left (a new one could be started for it); unless someone calls the pool again, it
  sleeps forever, whatever the clocks and the contexts do.\<close>

theorem wake_up_can_be_lost:
  "pool_reachable demo_config demo_pool demo_stranded (mset demo_stranded_threads)
    \<and> Ret (RetSleep 8 0) \<in># mset demo_stranded_threads \<and> \<not> is_closed demo_stranded
    \<and> get_running demo_stranded = 0 \<and> get_cap demo_stranded = 1
    \<and> {M. \<exists>s. reachable (pool_moves demo_config) demo_stranded (mset demo_stranded_threads) (\<lambda>p. \<exists>e. p = Env e \<and> pool_entry p) s M}
        \<subseteq> {M. Ret (RetSleep 8 0) \<in># M}"
proof (intro conjI subsetI CollectI)
  have "system (\<lambda>_. True) demo_config demo_pool demo_stranded (mset demo_stranded_threads)"
    by (rule demo_stranded_system) simp_all
  then show "pool_reachable demo_config demo_pool demo_stranded (mset demo_stranded_threads)"
    by (rule system_pool_reachable)
next
  fix M assume "M \<in> {M. \<exists>s. reachable (pool_moves demo_config) demo_stranded (mset demo_stranded_threads)
      (\<lambda>p. \<exists>e. p = Env e \<and> pool_entry p) s M}"
  then obtain s where "reachable (pool_moves demo_config) demo_stranded (mset demo_stranded_threads)
      (\<lambda>p. \<exists>e. p = Env e \<and> pool_entry p) s M" by blast
  from stays_stranded [OF this, of 0 8] have "count M (Ret (RetSleep 8 0)) = 1"
    by (simp add: unanswered_def demo_stranded_def demo_stranded_threads_def)
  then show "Ret (RetSleep 8 0) \<in># M" by (metis count_eq_zero_iff zero_neq_one)
qed (simp_all add: demo_stranded_threads_def demo_stranded_def demo_pool_def empty_pool_def is_closed_def OPENED_def CLOSED_def
      get_running_def get_cap_def)

text \<open>Whoever waits for a worker whose panic handler panics is not woken, without any race.\<close>

lemma panicking_handler_strands:
  "pool_reachable demo_throwing demo_handled demo_unsignalled (mset demo_unsignalled_threads)
    \<and> get_running demo_unsignalled = 0 \<and> get_cap demo_unsignalled = 1
    \<and> {M. \<exists>s. reachable (pool_moves demo_throwing) demo_unsignalled (mset demo_unsignalled_threads) (\<lambda>p. \<exists>e. p = Env e \<and> pool_entry p) s M}
        \<subseteq> {M. Ret (RetSleep 8 0) \<in># M}"
proof (intro conjI demo_unsignalled_reachable subsetI CollectI)
  fix M assume "M \<in> {M. \<exists>s. reachable (pool_moves demo_throwing) demo_unsignalled (mset demo_unsignalled_threads)
      (\<lambda>p. \<exists>e. p = Env e \<and> pool_entry p) s M}"
  then obtain s where "reachable (pool_moves demo_throwing) demo_unsignalled (mset demo_unsignalled_threads)
      (\<lambda>p. \<exists>e. p = Env e \<and> pool_entry p) s M" by blast
  from stays_stranded [OF this, of 0 8] have "count M (Ret (RetSleep 8 0)) = 1"
    by (simp add: unanswered_def demo_unsignalled_def demo_unsignalled_threads_def)
  then show "Ret (RetSleep 8 0) \<in># M" by (metis count_eq_zero_iff zero_neq_one)
qed (simp_all add: demo_unsignalled_def demo_handled_def empty_pool_def get_running_def get_cap_def)

text \<open>
  One refused thread makes a pool of capacity one useless: the slot stays taken, and whatever is called
  afterwards, short of a larger capacity, no worker ever runs.
\<close>

lemma refused_spawn_leaks:
  "{(s, M). reachable (pool_moves demo_config) demo_refused_spawn {#Ret (RetSpawnFailed 7 0), Tck TickStart#}
       (\<lambda>p. pool_entry p \<and> tunes_upto 1 p) s M}
     \<subseteq> {(s, M). get_running s = 1 \<and> (\<forall>w. Wrk (Work w) \<notin># M)}"
proof (rule subsetI, clarsimp, intro conjI allI)
  fix s and M :: "nat pc multiset"
  let ?stuck = "Ret (RetSpawnFailed 7 0) :: nat pc"
  assume r: "reachable (pool_moves demo_config) demo_refused_spawn {#?stuck, Tck TickStart#} (\<lambda>p. pool_entry p \<and> tunes_upto 1 p) s M"
  have "?stuck \<in># M" by (rule stuck_stays [OF r]) simp_all
  then obtain N where M: "M = add_mset ?stuck N" by (metis insert_DiffM)
  have "system (tunes_upto 1) demo_config demo_pool s M"
    using reachable_trans [OF demo_refused_spawn_system r] .
  from capacity_respected [OF demo_started demo_finite this] M have n: "running s = 1" "total alive N = 0" by simp_all
  then show "get_running s = 1" by (simp add: get_running_def)
  fix w show "Wrk (Work w) \<notin># M" using total_nat_zeroD [OF n(2), of "Wrk (Work w)"] M by auto
qed

text \<open>A task can run, and its worker stay behind, after \<open>release_timeout\<close> has returned \<open>Ok\<close>.\<close>

lemma late_worker:
  "pool_reachable demo_config demo_pool demo_late (mset [Rev (RevCap 0), Sub (SubDone 7), Tmo (TimeoutResult (Inr ())), Tck TickDone])
    \<and> get_running demo_late = 1 \<and> executed demo_late = [7] \<and> executed demo_released = []"
proof (intro conjI)
  have "system (\<lambda>_. True) demo_config demo_pool demo_late
      (mset [Rev (RevCap 0), Sub (SubDone 7), Tmo (TimeoutResult (Inr ())), Tck TickDone])"
    by (rule demo_late_system) simp_all
  then show "pool_reachable demo_config demo_pool demo_late
      (mset [Rev (RevCap 0), Sub (SubDone 7), Tmo (TimeoutResult (Inr ())), Tck TickDone])"
    by (rule system_pool_reachable)
qed (simp_all add: demo_late_def get_running_def demo_released_def demo_pool_def empty_pool_def)

text \<open>A reboot that a release overtakes can leave a closed pool that no call whatever makes usable again.\<close>

lemma unbootable_pool:
  "pool_reachable demo_config demo_pool demo_unbootable (mset demo_unbootable_threads)
    \<and> {s. \<exists>M. reachable (pool_moves demo_config) demo_unbootable (mset demo_unbootable_threads) pool_entry s M}
        \<subseteq> {s. is_closed s \<and> \<not> event_closed (all_done s) s}"
proof (intro conjI demo_unbootable_reachable subsetI CollectI)
  fix s assume "s \<in> {s. \<exists>M. reachable (pool_moves demo_config) demo_unbootable (mset demo_unbootable_threads) pool_entry s M}"
  then obtain M where "reachable (pool_moves demo_config) demo_unbootable (mset demo_unbootable_threads) pool_entry s M"
    by blast
  from closed_forever [OF this, of 1] have "latch_gone 1 s"
    by (simp add: latch_gone_def demo_unbootable_def demo_unbootable_threads_def event_closed_def event_is_closed_def event_new_def)
  then show "is_closed s" "\<not> event_closed (all_done s) s" by (auto simp: latch_gone_def is_closed_def)
qed

text \<open>A purge can keep a worker that has expired, because the queue is out of order.\<close>

lemma expired_worker_kept:
  "pool_reachable demo_config demo_pair demo_unsorted
     (mset [Wrk (Work 1), Wrk (Work 0), Tck (TickTick 0), Env EnvDone, Sub (SubDone 8), Sub (SubDone 7)])
    \<and> last_used demo_unsorted 1 \<le> 10 - as_nanos (Duration 5) \<and> 1 \<in> set (wq_parked (workers demo_unsorted))
    \<and> wq_refresh True (last_used demo_unsorted) 10 (Duration 5) (workers demo_unsorted) = Some ([], workers demo_unsorted)"
  using demo_unsorted_reachable demo_unsorted_refresh by (simp add: demo_unsorted_def)

end
