(* ===== verification/Pool_Flavours.thy ===== *)
theory Pool_Flavours
  imports Pool_Steps
begin

text \<open>
  The three kinds of pool (src/src/pool.rs, src/src/pool_func.rs, src/src/pool_func_generic.rs): the
  closure with which each turns a payload into work, their constructors, what \<open>try_submit\<close> and
  \<open>try_invoke\<close> report, and \<open>submit\<close> and \<open>invoke\<close> on top of them. A user function is opaque: \<open>run\<close> tells of
  each body or argument whether calling it returns (\<open>None\<close>) or panics with a value. The methods that
  only forward to the core are its operations in Pool_State and Pool_Threads.
\<close>

section \<open>Payloads\<close>

definition after_call :: "panic_value option \<Rightarrow> bool \<Rightarrow> call_result" where
  "after_call panicked r = (case panicked of Some v \<Rightarrow> CallPanic v | None \<Rightarrow> CallOk r)"

text \<open>A \<open>Task\<close> and an \<open>AnyArg\<close> are options; \<open>None\<close> is the nil of the original.\<close>

definition pool_payload :: "('f \<Rightarrow> panic_value option) \<Rightarrow> 'f option \<Rightarrow> call_result" where
  "pool_payload run task =
     (case task of
        None \<Rightarrow> CallOk False
      | Some body \<Rightarrow> after_call (run body) True)"

definition func_payload :: "('a option \<Rightarrow> panic_value option) \<Rightarrow> 'a option \<Rightarrow> call_result" where
  "func_payload pf argument =
     (if argument = None then CallOk False else after_call (pf argument) True)"

text \<open>An argument for \<open>invoke\<close>; the sentinel \<open>None\<close> is not one.\<close>

definition arg :: "'a \<Rightarrow> 'a option" where
  "arg v = Some v"

definition generic_payload :: "('a \<Rightarrow> panic_value option) \<Rightarrow> 'a \<Rightarrow> call_result" where
  "generic_payload pf argument = after_call (pf argument) True"

section \<open>Constructors\<close>

text \<open>
  The environment of a constructor is a configuration whose \<open>run_payload\<close> it replaces, and the clock.
\<close>

definition with_core ::
  "('t, 'l) config \<Rightarrow> (error + ('t, 'h, 'l) pool) option \<Rightarrow> (error + ('t, 'l) config \<times> ('t, 'h, 'l) pool) option" where
  "with_core cfg core = map_option (map_sum id (Pair cfg)) core"

definition pool_new ::
  "('f option, 'l) config \<Rightarrow> i64 \<Rightarrow> ('f \<Rightarrow> panic_value option) \<Rightarrow> i32 \<Rightarrow> ('h, 'l) opt list \<Rightarrow>
    (error + ('f option, 'l) config \<times> ('f option, 'h, 'l) pool) option" where
  "pool_new env clock run n opts =
     with_core (env\<lparr>run_payload := pool_payload run\<rparr>) (core_new (dflt_logger env) clock n opts)"

definition pool_with_func_new ::
  "('a option, 'l) config \<Rightarrow> i64 \<Rightarrow> i32 \<Rightarrow> ('a option \<Rightarrow> panic_value option) option \<Rightarrow> ('h, 'l) opt list \<Rightarrow>
    (error + ('a option, 'l) config \<times> ('a option, 'h, 'l) pool) option" where
  "pool_with_func_new env clock n pf opts =
     (case pf of
        None \<Rightarrow> Some (Inl LackPoolFunc)
      | Some f \<Rightarrow> with_core (env\<lparr>run_payload := func_payload f\<rparr>) (core_new (dflt_logger env) clock n opts))"

definition pool_with_func_generic_new ::
  "('a, 'l) config \<Rightarrow> i64 \<Rightarrow> i32 \<Rightarrow> ('a \<Rightarrow> panic_value option) option \<Rightarrow> ('h, 'l) opt list \<Rightarrow>
    (error + ('a, 'l) config \<times> ('a, 'h, 'l) pool) option" where
  "pool_with_func_generic_new env clock n pf opts =
     (case pf of
        None \<Rightarrow> Some (Inl LackPoolFunc)
      | Some f \<Rightarrow> with_core (env\<lparr>run_payload := generic_payload f\<rparr>) (core_new (dflt_logger env) clock n opts))"

text \<open>The pool behind the functions of the crate root (src/src/lib.rs), created when it is first used.\<close>

definition default_ants_pool ::
  "('f option, 'l) config \<Rightarrow> i64 \<Rightarrow> ('f \<Rightarrow> panic_value option) \<Rightarrow>
    (error + ('f option, 'l) config \<times> ('f option, 'h, 'l) pool) option" where
  "default_ants_pool env clock run = pool_new env clock run DEFAULT_ANTS_POOL_SIZE []"

section \<open>Results of a submission\<close>

text \<open>A caller that is done returns; on failure \<open>try_submit\<close> hands its payload back and \<open>submit\<close> drops it.\<close>

fun try_submit_result :: "'t pc \<Rightarrow> ((error \<times> 't) + unit) option" where
  "try_submit_result (Sub (SubDone t)) = Some (Inr ())"
| "try_submit_result (Sub (SubFail t e)) = Some (Inl (e, t))"
| "try_submit_result _ = None"

definition submit_result :: "'t pc \<Rightarrow> (error + unit) option" where
  "submit_result p = map_option (map_sum fst id) (try_submit_result p)"

section \<open>What the constructors give\<close>

lemma with_core_Inr:
  "with_core cfg core = Some (Inr (cfg', s)) \<longleftrightarrow> cfg' = cfg \<and> core = Some (Inr s)"
  by (cases core) (auto simp: with_core_def map_sum_def split: sum.splits)

lemma with_core_Inl: "with_core cfg core = Some (Inl e) \<longleftrightarrow> core = Some (Inl e)"
  by (cases core) (auto simp: with_core_def map_sum_def split: sum.splits)

lemma with_core_None: "with_core cfg core = None \<longleftrightarrow> core = None"
  by (simp add: with_core_def)

text \<open>Only the nil payload of the two dynamic flavours stops a worker without a panic.\<close>

lemma payload_stops:
  "pool_payload run t = CallOk False \<longleftrightarrow> t = None"
  "func_payload pf a = CallOk False \<longleftrightarrow> a = None"
  "func_payload pf (arg v) \<noteq> CallOk False"
  "generic_payload gf x \<noteq> CallOk False"
  by (auto simp: pool_payload_def func_payload_def generic_payload_def after_call_def arg_def split: option.splits)

section \<open>Properties\<close>

text \<open>A pool that dispatches to a fixed function cannot be made without one, whatever the other
  arguments; with one, the constructor fails exactly as the core's does.\<close>

lemma flavours_need_a_function:
  fixes f :: "'a option \<Rightarrow> panic_value option" and g :: "'b \<Rightarrow> panic_value option"
  shows "pool_with_func_new env clock n None opts = Some (Inl LackPoolFunc)
    \<and> pool_with_func_generic_new env' clock n None opts' = Some (Inl LackPoolFunc)
    \<and> (pool_with_func_new env clock n (Some f) opts = Some (Inl e)
        \<longleftrightarrow> core_new (dflt_logger env) clock n opts = (Some (Inl e) :: (error + ('a option, 'h, 'l) pool) option))
    \<and> (pool_with_func_generic_new env' clock n (Some g) opts' = Some (Inl e)
        \<longleftrightarrow> core_new (dflt_logger env') clock n opts' = (Some (Inl e) :: (error + ('b, 'g, 'm) pool) option))"
  by (simp add: pool_with_func_new_def pool_with_func_generic_new_def with_core_Inl)

text \<open>What a worker of a \<open>Pool\<close> does with a task: a nil task stops the worker without running
  anything, a task that returns sends the worker back to the queue, and a task that panics ends this
  worker with the panic's value, and no other.\<close>

lemma task_outcomes:
  assumes "pool_new env clock run n opts = Some (Inr (cfg, s0))"
  shows "pool_moves cfg s (Wrk (WorkCall w t)) =
    [(s\<lparr>executed := executed s @ [t]\<rparr>,
      [case t of
         None \<Rightarrow> Wrk (WorkExit w None)
       | Some body \<Rightarrow> (case run body of
             None \<Rightarrow> Rev (RevCap w)
           | Some v \<Rightarrow> Wrk (WorkExit w (Some v)))])]"
  using assms
  by (auto simp: pool_new_def with_core_Inr worker_moves.simps pool_payload_def after_call_def split: option.splits)

end
