(* ===== verification/Pool_Alone.thy ===== *)
theory Pool_Alone
  imports Pool_Flavours Pool_Steps
begin

text \<open>
  One thread of a pool on its own: \<open>run_alone\<close> lets it move until it has returned or is blocked, and
  collects the threads it spawns. \<open>deliver_alone\<close> is a whole call of \<open>try_submit\<close> that nobody
  interferes with; it satisfies an abstract specification that has one clause per outcome.
\<close>

section \<open>Running a thread to its end\<close>

text \<open>
  The first move is taken where there is a choice. Fuel bounds the number of steps; a call of
  \<open>try_submit\<close> that does not wait takes at most ten.
\<close>

fun run_alone :: "('t, 'l) config \<Rightarrow> nat \<Rightarrow> ('t, 'h, 'l) pool \<Rightarrow> 't pc \<Rightarrow> (('t, 'h, 'l) pool \<times> 't pc \<times> 't pc list) option" where
  "run_alone cfg 0 s p = None"
| "run_alone cfg (Suc n) s p =
     (case pool_moves cfg s p of
        [] \<Rightarrow> Some (s, p, [])
      | (s', ps) # _ \<Rightarrow>
          (case ps of
             [] \<Rightarrow> None
           | q # spawned \<Rightarrow>
               map_option (\<lambda>(s'', r, rs). (s'', r, spawned @ rs)) (run_alone cfg n s' q)))"

definition deliver_alone ::
  "('t, 'l) config \<Rightarrow> ('t, 'h, 'l) pool \<Rightarrow> 't \<Rightarrow> (((error \<times> 't) + unit) \<times> ('t, 'h, 'l) pool) option" where
  "deliver_alone cfg s t =
     Option.bind (run_alone cfg 12 s (Sub (SubClosed t))) (\<lambda>(s', p, spawned).
       map_option (\<lambda>r. (r, s')) (try_submit_result p))"

section \<open>The specification of a submission\<close>

text \<open>Which worker serves the caller, and how the pool looks before the task is sent.\<close>

datatype retrieval = Refused error | Blocked | Reused nat | Started nat

definition retrieve_spec :: "('t, 'h, 'l) pool \<Rightarrow> retrieval" where
  "retrieve_spec s =
     (if pool_state s = CLOSED then Refused PoolClosed
      else if wq_parked (workers s) \<noteq> [] then Reused (case wq_detach (workers s) of Some (Some w, q) \<Rightarrow> w)
      else if capacity s = - 1 \<or> running s < capacity s
        then Started (if worker_cache s = [] then next_worker s else last (worker_cache s))
      else if nonblocking (options s)
          \<or> (max_blocking_tasks (options s) \<noteq> 0 \<and> max_blocking_tasks (options s) \<le> waiting s)
        then Refused PoolOverload
      else Blocked)"

text \<open>A pool at rest: nobody holds the lock and every channel of a worker at hand is empty.\<close>

definition at_rest :: "('t, 'h, 'l) pool \<Rightarrow> bool" where
  "at_rest s \<longleftrightarrow> wq_ok (workers s) \<and> lock_state s = 0 \<and> in_i32 (running s + 1) \<and> tokens (pool_cond s) = 0
     \<and> (\<forall>w. w \<in> set (wq_parked (workers s)) \<or> w \<in> set (worker_cache s) \<or> w = next_worker s \<longrightarrow> channel w (mail s) = [])"

lemmas retrieve_eval = submit_moves.simps retrieve_moves.simps fetch_cached_worker_def get_cap_def get_running_def
  get_waiting_def is_closed_def add_running_def

lemma has_room_empty: "channel w m = [] \<Longrightarrow> has_room n w m"
  by (simp add: has_room_def)

lemma deliver_refused:
  assumes "at_rest s" and "retrieve_spec s = Refused e"
  shows "deliver_alone cfg s t = Some (Inl (e, t), s)"
proof -
  have ok: "wq_ok (workers s)" "lock_state s = 0" using assms(1) by (simp_all add: at_rest_def)
  show ?thesis
  proof (cases "pool_state s = CLOSED")
    case True
    with assms(2) show ?thesis
      by (simp add: retrieve_spec_def deliver_alone_def numeral_eq_Suc retrieve_eval)
  next
    case False
    with assms(2) have none: "wq_parked (workers s) = []"
      and full: "capacity s \<noteq> - 1" "\<not> running s < capacity s"
        "nonblocking (options s) \<or> max_blocking_tasks (options s) \<noteq> 0 \<and> max_blocking_tasks (options s) \<le> waiting s"
      and e: "e = PoolOverload"
      by (auto simp: retrieve_spec_def split: if_splits)
    have d: "wq_detach (workers s) = Some (None, workers s)"
      using ok(1) none wq.detach_empty [of "workers s"] by (simp add: wq_ok_def)
    have "s\<lparr>lock_state := 0\<rparr> = s" using ok(2) by simp
    with False full e ok(2) d show ?thesis
      by (auto simp: deliver_alone_def numeral_eq_Suc retrieve_eval)
  qed
qed

text \<open>The pool after a caller got worker \<open>w\<close> and sent it task \<open>t\<close>.\<close>

definition reuse_effect :: "nat \<Rightarrow> 't \<Rightarrow> ('t, 'h, 'l) pool \<Rightarrow> ('t, 'h, 'l) pool" where
  "reuse_effect w t s =
     s\<lparr>workers := (case wq_detach (workers s) of Some (r, q) \<Rightarrow> q | None \<Rightarrow> workers s),
       mail := mail s @ [(w, Payload t)]\<rparr>"

definition start_effect :: "nat \<Rightarrow> 't \<Rightarrow> ('t, 'h, 'l) pool \<Rightarrow> ('t, 'h, 'l) pool" where
  "start_effect w t s = (add_running 1 (snd (fetch_cached_worker s)))\<lparr>mail := mail s @ [(w, Payload t)]\<rparr>"

lemma deliver_reused:
  assumes rest: "at_rest s" and spec: "retrieve_spec s = Reused w"
  shows "deliver_alone cfg s t = Some (Inr (), reuse_effect w t s)"
proof -
  have ok: "wq_ok (workers s)" "lock_state s = 0" using rest by (simp_all add: at_rest_def)
  have parked: "wq_parked (workers s) \<noteq> []" and opn: "pool_state s \<noteq> CLOSED"
    using spec by (auto simp: retrieve_spec_def split: if_splits)
  obtain v q where d: "wq_detach (workers s) = Some (Some v, q)"
    using ok(1) parked wq.detach_law [of "workers s"] by (auto simp: wq_ok_def)
  then have w: "v = w" using spec parked opn by (simp add: retrieve_spec_def)
  have "v \<in> set (wq_parked (workers s))"
    using wq_ok_detach [OF ok(1) d] by (metis set_mset_mset union_single_eq_member)
  then have "channel w (mail s) = []" using rest w by (simp add: at_rest_def)
  then have "has_room (chan_cap cfg) w (mail s)" by (rule has_room_empty)
  moreover have "s\<lparr>lock_state := 0\<rparr> = s" using ok(2) by simp
  ultimately show ?thesis
    using opn ok(2) d w
    by (simp add: deliver_alone_def numeral_eq_Suc retrieve_eval sends_def reuse_effect_def)
qed

lemma deliver_started:
  assumes rest: "at_rest s" and spec: "retrieve_spec s = Started w"
  shows "deliver_alone cfg s t = Some (Inr (), start_effect w t s)"
proof -
  have ok: "wq_ok (workers s)" "lock_state s = 0" "in_i32 (running s + 1)" using rest by (simp_all add: at_rest_def)
  have none: "wq_parked (workers s) = []" and opn: "pool_state s \<noteq> CLOSED"
    and room: "capacity s = - 1 \<or> running s < capacity s"
    and w: "w = (if worker_cache s = [] then next_worker s else last (worker_cache s))"
    using spec by (auto simp: retrieve_spec_def split: if_splits)
  have d: "wq_detach (workers s) = Some (None, workers s)"
    using ok(1) none wq.detach_empty [of "workers s"] by (simp add: wq_ok_def)
  have "channel w (mail s) = []" using rest w by (simp add: at_rest_def)
  then have "has_room (chan_cap cfg) w (mail s)" by (rule has_room_empty)
  then show ?thesis
    using opn ok(2,3) d w room
    by (cases "worker_cache s = []"; cases "capacity s = - 1";
        simp add: deliver_alone_def numeral_eq_Suc retrieve_eval sends_def start_effect_def)
qed

text \<open>A caller that sleeps with no token and no broadcast since never returns by itself.\<close>

lemma sleeper_stays:
  assumes "tokens (pool_cond s) = 0" and "generation (pool_cond s) = g"
  shows "Option.bind (run_alone cfg n s (Ret (RetSleep t g)))
    (\<lambda>(s', p, spawned). map_option (\<lambda>r. (r, s')) (try_submit_result p)) = None"
  using assms
proof (induction n arbitrary: s)
  case (Suc n)
  show ?case
  proof (cases "cond_resume (pool_cond s) g")
    case Nil
    then show ?thesis by (simp add: retrieve_moves.simps)
  next
    case (Cons r rs)
    obtain leaves c where r: "r = (leaves, c)" by (cases r)
    have "(leaves, c) \<in> set (cond_resume (pool_cond s) g)" using Cons r by simp
    then have c: "\<not> leaves" "tokens c = 0" "generation c = g"
      using Suc.prems by (auto simp: cond_resume_def cond_check_def split: if_splits)
    from Suc.IH [of "s\<lparr>pool_cond := c\<rparr>"] c Cons r show ?thesis
      by (auto simp: retrieve_moves.simps Option.bind_map_option comp_def split_beta split: Option.bind_splits)
  qed
qed simp

lemma deliver_blocked:
  assumes rest: "at_rest s" and spec: "retrieve_spec s = Blocked"
  shows "deliver_alone cfg s t = None"
proof -
  have ok: "wq_ok (workers s)" "lock_state s = 0" "tokens (pool_cond s) = 0" using rest by (simp_all add: at_rest_def)
  have none: "wq_parked (workers s) = []" and opn: "pool_state s \<noteq> CLOSED"
    and full: "capacity s \<noteq> - 1" "\<not> running s < capacity s"
      "\<not> (nonblocking (options s) \<or> max_blocking_tasks (options s) \<noteq> 0 \<and> max_blocking_tasks (options s) \<le> waiting s)"
    using spec by (auto simp: retrieve_spec_def split: if_splits)
  have d: "wq_detach (workers s) = Some (None, workers s)"
    using ok(1) none wq.detach_empty [of "workers s"] by (simp add: wq_ok_def)
  obtain c where w: "cond_wait (pool_cond s) = (False, generation (pool_cond s), c)"
    and c: "tokens c = 0" "generation c = generation (pool_cond s)"
    using ok(3) by (simp add: cond_wait_def cond_check_def Let_def)
  define m :: nat where "m = 4"
  have fuel: "12 = Suc (Suc (Suc (Suc (Suc (Suc (Suc (Suc m)))))))" by (simp add: m_def)
  let ?s = "s\<lparr>waiting := wrap_i32 (waiting s + 1), pool_cond := c, lock_state := 0\<rparr>"
  have "Option.bind (run_alone cfg m ?s (Ret (RetSleep t (generation (pool_cond s)))))
      (\<lambda>(s', p, spawned). map_option (\<lambda>r. (r, s')) (try_submit_result p)) = None"
    by (rule sleeper_stays) (simp_all add: c)
  then show ?thesis
    using opn ok(2) d full w
    by (simp add: deliver_alone_def fuel retrieve_eval add_waiting_def option.map_id0)
qed

section \<open>The whole specification\<close>

lemma deliver_alone_spec:
  assumes "at_rest s"
  shows "deliver_alone cfg s t =
    (case retrieve_spec s of
       Refused e \<Rightarrow> Some (Inl (e, t), s)
     | Blocked \<Rightarrow> None
     | Reused w \<Rightarrow> Some (Inr (), reuse_effect w t s)
     | Started w \<Rightarrow> Some (Inr (), start_effect w t s))"
  using deliver_refused [OF assms] deliver_blocked [OF assms] deliver_reused [OF assms] deliver_started [OF assms]
  by (cases "retrieve_spec s") simp_all

end
