(* ===== verification/Pool_Lifecycle.thy ===== *)
theory Pool_Lifecycle
  imports Pool_Alone
begin

text \<open>
  Whole calls of \<open>release\<close> and \<open>reboot\<close> that nobody interferes with: they return within a number of steps
  that depends only on the number of parked workers, and leave the pool as \<open>release_effect\<close> and
  \<open>reboot_effect\<close> say.
\<close>

lemma run_alone_step:
  "pool_moves cfg s p = (s', [q]) # ms \<Longrightarrow> run_alone cfg (Suc n) s p = run_alone cfg n s' q"
  by (simp add: option.map_id0 split_beta flip: id_def)

lemma run_alone_spawn:
  "pool_moves cfg s p = (s', q # spawned) # ms \<Longrightarrow>
    run_alone cfg (Suc n) s p = map_option (\<lambda>(s'', r, rs). (s'', r, spawned @ rs)) (run_alone cfg n s' q)"
  by simp

section \<open>Release\<close>

text \<open>A pool whose queue and channels are at rest: every parked worker is parked once and has no message.\<close>

definition queue_at_rest :: "('t, 'h, 'l) pool \<Rightarrow> bool" where
  "queue_at_rest s \<longleftrightarrow> wq_ok (workers s) \<and> lock_state s = 0 \<and> distinct (wq_parked (workers s))
     \<and> (\<forall>w \<in> set (wq_parked (workers s)). channel w (mail s) = [])"

definition finish_all :: "nat list \<Rightarrow> 't mail" where
  "finish_all ws = map (\<lambda>w. (w, Finish)) ws"

lemma channel_finish_all:
  "distinct ws \<Longrightarrow> channel w (m @ finish_all ws) = channel w m @ (if w \<in> set ws then [Finish] else [])"
  by (induction ws arbitrary: m) (auto simp: finish_all_def channel_def filter_empty_conv)

abbreviation cancel_if :: "nat option \<Rightarrow> ('t, 'h, 'l) pool \<Rightarrow> ('t, 'h, 'l) pool" where
  "cancel_if r s \<equiv> (case r of None \<Rightarrow> s | Some c \<Rightarrow> cancel_ctx c s)"

definition release_effect :: "nat list \<Rightarrow> nat any_queue \<Rightarrow> ('t, 'h, 'l) pool \<Rightarrow> ('t, 'h, 'l) pool" where
  "release_effect fin q s =
     (let s1 = cancel_if (stop_purge s) (s\<lparr>pool_state := CLOSED, stop_purge := None\<rparr>);
          s2 = cancel_if (stop_ticktock s) (s1\<lparr>stop_ticktock := None\<rparr>);
          s3 = broadcast (s2\<lparr>workers := q, mail := mail s @ finish_all fin\<rparr>)
      in if running s = 0 then close_event (all_done s) s3 else s3)"

lemma finish_loop:
  "distinct ws \<Longrightarrow> \<forall>w \<in> set ws. channel w (mail s) = [] \<Longrightarrow>
    run_alone cfg (Suc (length ws + n)) s (Rel (RelFinish a ws)) =
    run_alone cfg n (s\<lparr>mail := mail s @ finish_all ws, lock_state := 0\<rparr>) (Rel (RelBroadcast a))"
proof (induction ws arbitrary: s)
  case Nil
  have "pool_moves cfg s (Rel (RelFinish a [])) = [(unlock s, [Rel (RelBroadcast a)])]"
    by (simp add: release_moves.simps)
  from run_alone_step [OF this] show ?case by (simp add: finish_all_def)
next
  case (Cons w ws)
  let ?s = "s\<lparr>mail := mail s @ [(w, Finish)]\<rparr>"
  have "pool_moves cfg s (Rel (RelFinish a (w # ws))) = [(?s, [Rel (RelFinish a ws)])]"
    using Cons.prems(2) by (simp add: release_moves.simps sends_def has_room_empty)
  from run_alone_step [OF this]
  have "run_alone cfg (Suc (length (w # ws) + n)) s (Rel (RelFinish a (w # ws)))
      = run_alone cfg (Suc (length ws + n)) ?s (Rel (RelFinish a ws))" by simp
  also have "\<dots> = run_alone cfg n (?s\<lparr>mail := mail ?s @ finish_all ws, lock_state := 0\<rparr>) (Rel (RelBroadcast a))"
    by (rule Cons.IH) (use Cons.prems in \<open>auto simp: channel_send\<close>)
  finally show ?case by (simp add: finish_all_def)
qed

lemma release_end:
  "run_alone cfg (Suc (Suc (Suc (Suc (Suc (Suc n)))))) s (Rel (RelBroadcast ReleaseReturns)) =
    Some (if running s = 0 then close_event (all_done s) (broadcast s) else broadcast s, Rel RelDone, [])"
  by (simp add: release_moves.simps broadcast_def get_running_def)

lemma release_middle:
  assumes rest: "queue_at_rest s" and reset: "wq_reset (workers s) = Some (fin, q)"
  shows "run_alone cfg (length fin + 9 + n) s (Rel (RelLock ReleaseReturns)) =
    (let s' = broadcast (s\<lparr>workers := q, mail := mail s @ finish_all fin\<rparr>)
     in Some (if running s = 0 then close_event (all_done s) s' else s', Rel RelDone, []))"
proof -
  have ok: "wq_ok (workers s)" "lock_state s = 0" "distinct (wq_parked (workers s))"
    "\<forall>w \<in> set (wq_parked (workers s)). channel w (mail s) = []"
    using rest by (simp_all add: queue_at_rest_def)
  have fin: "distinct fin" "\<forall>w \<in> set fin. channel w (mail s) = []"
    using wq_ok_reset [OF ok(1) reset] ok(3,4) by (metis mset_eq_imp_distinct_iff, metis mset_eq_setD)
  let ?s2 = "s\<lparr>lock_state := 1, workers := q\<rparr>"
  have "length fin + 9 + n = Suc (Suc (Suc (length fin + Suc (Suc (Suc (Suc (Suc (Suc n))))))))" by simp
  moreover have "pool_moves cfg s (Rel (RelLock ReleaseReturns)) = [(s\<lparr>lock_state := 1\<rparr>, [Rel (RelReset ReleaseReturns)])]"
    using ok(2) by simp
  moreover have "pool_moves cfg (s\<lparr>lock_state := 1\<rparr>) (Rel (RelReset ReleaseReturns)) = [(?s2, [Rel (RelFinish ReleaseReturns fin)])]"
    using reset by (simp add: release_moves.simps)
  ultimately have "run_alone cfg (length fin + 9 + n) s (Rel (RelLock ReleaseReturns)) =
    run_alone cfg (Suc (length fin + Suc (Suc (Suc (Suc (Suc (Suc n))))))) ?s2 (Rel (RelFinish ReleaseReturns fin))"
    by (simp only: run_alone_step)
  also have "\<dots> = run_alone cfg (Suc (Suc (Suc (Suc (Suc (Suc n)))))) (?s2\<lparr>mail := mail ?s2 @ finish_all fin, lock_state := 0\<rparr>)
      (Rel (RelBroadcast ReleaseReturns))"
    by (rule finish_loop) (use fin in simp_all)
  also have "?s2\<lparr>mail := mail ?s2 @ finish_all fin, lock_state := 0\<rparr> = s\<lparr>workers := q, mail := mail s @ finish_all fin\<rparr>"
    by (rule pool.equality) (simp_all add: ok(2))
  finally show ?thesis by (simp add: release_end Let_def del: run_alone.simps)
qed

lemma release_alone:
  assumes rest: "queue_at_rest s" and opn: "pool_state s = OPENED" and reset: "wq_reset (workers s) = Some (fin, q)"
  shows "run_alone cfg (length fin + 14) s (Rel (RelCas ReleaseReturns)) = Some (release_effect fin q s, Rel RelDone, [])"
proof -
  define m where "m = length fin + 9"
  have fuel: "length fin + 14 = Suc (Suc (Suc (Suc (Suc m))))" by (simp add: m_def)
  let ?s = "cancel_if (stop_ticktock s) ((cancel_if (stop_purge s) (s\<lparr>pool_state := CLOSED, stop_purge := None\<rparr>))\<lparr>stop_ticktock := None\<rparr>)"
  obtain n where "run_alone cfg (length fin + 14) s (Rel (RelCas ReleaseReturns)) = run_alone cfg (m + n) ?s (Rel (RelLock ReleaseReturns))"
  proof -
    have "run_alone cfg (Suc (Suc (Suc (Suc (Suc m))))) s (Rel (RelCas ReleaseReturns)) = run_alone cfg (m + n) ?s (Rel (RelLock ReleaseReturns))"
      if "n = (if stop_purge s = None then 1 else 0) + (if stop_ticktock s = None then 1 else 0)" for n
      using opn that
      by (cases "stop_purge s"; cases "stop_ticktock s"; simp add: cancel_ctx_def split_beta option.map_id0 flip: id_def)
    then show ?thesis using that fuel by simp
  qed
  moreover have "queue_at_rest ?s" using rest by (auto simp: queue_at_rest_def cancel_ctx_def split: option.split)
  moreover have "wq_reset (workers ?s) = Some (fin, q)" using reset by (auto simp: cancel_ctx_def split: option.split)
  ultimately show ?thesis
    using release_middle [of ?s fin q cfg n]
    by (simp add: m_def release_effect_def Let_def cancel_ctx_def split: option.split)
qed

section \<open>Reboot\<close>

text \<open>A released pool that is quiet: its latch is closed and its background threads have exited.\<close>

definition quiet :: "('t, 'h, 'l) pool \<Rightarrow> bool" where
  "quiet s \<longleftrightarrow> pool_state s = CLOSED \<and> event_closed (all_done s) s \<and> ticktock_done s = 1
     \<and> (disable_purge (options s) \<or> purge_done s = 1)"

definition reboot_effect :: "('t, 'h, 'l) pool \<Rightarrow> ('t, 'h, 'l) pool" where
  "reboot_effect s =
     (let s1 = go_purge (s\<lparr>pool_state := OPENED, purge_done := 0\<rparr>);
          s2 = go_ticktock (s1\<lparr>ticktock_done := 0\<rparr>)
      in s2\<lparr>events := events s2 @ [event_new], all_done := length (events s2)\<rparr>)"

definition background_threads :: "('h, 'l) options \<Rightarrow> 't pc list" where
  "background_threads opts = (if disable_purge opts then [] else [Pur PurgeStart]) @ [Tck TickStart]"

lemma background_initial: "mset (background_threads opts) = initial_threads opts"
  by (simp add: background_threads_def initial_threads_def)

lemma reboot_alone:
  assumes "quiet s"
  shows "run_alone cfg 17 s (Reb RebState) = Some (reboot_effect s, Reb RebDone, background_threads (options s))"
  using assms
  by (cases "disable_purge (options s)")
    (simp_all add: numeral_eq_Suc quiet_def reboot_effect_def background_threads_def event_closed_def
      go_purge_def go_ticktock_def publish_purge_ctx_def publish_ticktock_ctx_def Let_def)

end
