(* ===== verification/Pool_Background.thy ===== *)
theory Pool_Background
  imports Pool_Lifecycle
begin

text \<open>
  One round of each background thread that nobody interferes with: \<open>purge_stale_workers\<close> and
  \<open>ticktock\<close> from one tick to the next. \<open>solo\<close> is the number of steps of a thread that moves alone.
\<close>

fun solo :: "('t, 'l) config \<Rightarrow> nat \<Rightarrow> ('t, 'h, 'l) pool \<Rightarrow> 't pc \<Rightarrow> (('t, 'h, 'l) pool \<times> 't pc) option" where
  "solo cfg 0 s p = Some (s, p)"
| "solo cfg (Suc n) s p =
     (case pool_moves cfg s p of
        (s', [q]) # ms \<Rightarrow> solo cfg n s' q
      | _ \<Rightarrow> None)"


text \<open>What a thread does alone it can do in the system, whatever the other threads are.\<close>

lemma solo_reachable:
  "solo cfg n s p = Some (s', p') \<Longrightarrow> reachable (pool_moves cfg) s0 M0 entry s (add_mset p M) \<Longrightarrow>
    reachable (pool_moves cfg) s0 M0 entry s' (add_mset p' M)"
proof (induction n arbitrary: s p)
  case (Suc n)
  then obtain s1 q ms where m: "pool_moves cfg s p = (s1, [q]) # ms" "solo cfg n s1 q = Some (s', p')"
    by (auto split: list.splits prod.splits)
  have "reachable (pool_moves cfg) s0 M0 entry s1 (mset [q] + M)"
    by (rule reachable.move [OF Suc.prems(2)]) (simp add: m)
  with Suc.IH [OF m(2)] show ?case by simp
qed simp

section \<open>Purging\<close>





section \<open>The clock\<close>

lemma ticktock_alone:
  assumes "pool_state s = OPENED" and "\<not> ctx_done c s"
  shows "solo cfg 3 s (Tck (TickTick c)) = Some (s\<lparr>now := wall_clock s\<rparr>, Tck (TickTick c))"
  using assms by (simp add: numeral_eq_Suc is_closed_def OPENED_def CLOSED_def)

section \<open>Property\<close>





end
