(* ===== verification/Panic_Hook.thy ===== *)
theory Panic_Hook
  imports Interleaving
begin

text \<open>
  The panic hook of src/src/worker.rs. A panic calls the hook of the process before it unwinds. The crate
  wraps that hook once, when its first pool is made, in one that stays silent on a thread whose
  \<open>IN_TASK\<close> is set; \<open>call\<close> sets it around a payload. Threads of the program, pools and workers
  interleave; \<open>panic_log\<close> records of every panic whether it was raised inside a payload and which hook
  reported it. Programs that replace the hook themselves are not covered.
\<close>

section \<open>State\<close>

text \<open>A hook of the program (or the default one), or the closure of \<open>install_panic_hook\<close> with what it captures.\<close>

datatype 'k hook = Other 'k | Quiet "'k hook"

datatype once = Incomplete | Running | Complete

text \<open>\<open>in_task\<close> is \<open>None\<close> for a thread whose thread-locals are destroyed.\<close>

record 'k hook_state =
  hook :: "'k hook"
  installed :: once
  in_task :: "nat \<Rightarrow> bool option"
  next_thread :: nat
  panic_log :: "(bool \<times> 'k option) list"

text \<open>A thread outside the crate, which holds a pool or not; a worker between payloads; a thread on its way out.\<close>

datatype 'k hook_pc =
    Program nat bool
  | InstallOnce nat | InstallTake nat | InstallSet nat "'k hook" | InstallFinish nat
  | Worker nat | CallSet nat | CallRun nat | CallUnset nat bool
  | Exiting nat

section \<open>The hook\<close>





section \<open>Steps\<close>







section \<open>Threads and their flags\<close>

primrec thread_of :: "'k hook_pc \<Rightarrow> nat" where
  "thread_of (Program t b) = t" | "thread_of (InstallOnce t) = t" | "thread_of (InstallTake t) = t"
| "thread_of (InstallSet t h) = t" | "thread_of (InstallFinish t) = t" | "thread_of (Worker t) = t"
| "thread_of (CallSet t) = t" | "thread_of (CallRun t) = t" | "thread_of (CallUnset t b) = t" | "thread_of (Exiting t) = t"

fun in_payload :: "'k hook_pc \<Rightarrow> bool" where
  "in_payload (CallRun t) \<longleftrightarrow> True" | "in_payload (CallUnset t b) \<longleftrightarrow> True" | "in_payload _ \<longleftrightarrow> False"







section \<open>The books\<close>







text \<open>What a step does to the threads and their flags.\<close>

definition threads_fit :: "'k hook_state \<Rightarrow> 'k hook_pc \<Rightarrow> 'k hook_state \<Rightarrow> 'k hook_pc list \<Rightarrow> bool" where
  "threads_fit s p s' ps \<longleftrightarrow>
     (case ps of
        [] \<Rightarrow> s' = s
      | q # rs \<Rightarrow> thread_of q = thread_of p \<and>
          (case rs of
             [] \<Rightarrow> next_thread s' = next_thread s \<and> (\<forall>u. u \<noteq> thread_of p \<longrightarrow> in_task s' u = in_task s u)
               \<and> (in_task s' (thread_of p) = Some True \<longleftrightarrow> in_payload q)
           | r # rs' \<Rightarrow> rs' = [] \<and> q = p \<and> thread_of r = next_thread s \<and> \<not> in_payload r
               \<and> next_thread s' = next_thread s + 1 \<and> in_task s' = (in_task s)(next_thread s := Some False)))"

lemma threads_fit_simps [simp]:
  "threads_fit s p s' [] \<longleftrightarrow> s' = s"
  "threads_fit s p s' [q] \<longleftrightarrow> thread_of q = thread_of p \<and> next_thread s' = next_thread s
     \<and> (\<forall>u. u \<noteq> thread_of p \<longrightarrow> in_task s' u = in_task s u) \<and> (in_task s' (thread_of p) = Some True \<longleftrightarrow> in_payload q)"
  "threads_fit s p s' [q, r] \<longleftrightarrow> q = p \<and> thread_of r = next_thread s \<and> \<not> in_payload r
     \<and> next_thread s' = next_thread s + 1 \<and> in_task s' = (in_task s)(next_thread s := Some False)"
  by (auto simp: threads_fit_def)










section \<open>The property\<close>





end
