(* ===== verification/Go_Log.thy ===== *)
theory Go_Log
  imports Ants_Error
begin

text \<open>
  The line format of Go's logger (src/src/deps/golog.rs). The calendar fields of the current time
  are an input: chrono, which reads them, is not part of the repository. Flags are 32-bit words.
\<close>

unbundle bit_operations_syntax

type_synonym flags = "32 word"

definition LDATE :: flags where "LDATE = 1"
definition LTIME :: flags where "LTIME = push_bit 1 1"
definition LMICROSECONDS :: flags where "LMICROSECONDS = push_bit 2 1"
definition LUTC :: flags where "LUTC = push_bit 5 1"
definition LMSGPREFIX :: flags where "LMSGPREFIX = push_bit 6 1"
definition LSTD_FLAGS :: flags where "LSTD_FLAGS = LDATE OR LTIME"

lemmas flag_defs = LDATE_def LTIME_def LMICROSECONDS_def LUTC_def LMSGPREFIX_def LSTD_FLAGS_def

datatype target = Stdout | Stderr

record std_logger =
  target :: target
  prefix :: string
  flags :: flags

section \<open>Decimal rendering with zero padding\<close>

fun show_nat :: "nat \<Rightarrow> string" where
  "show_nat n =
     (if n < 10 then [char_of (48 + n)] else show_nat (n div 10) @ [char_of (48 + n mod 10)])"

declare show_nat.simps [simp del]

definition pad :: "nat \<Rightarrow> nat \<Rightarrow> string" where
  "pad w n = replicate (w - length (show_nat n)) CHR ''0'' @ show_nat n"

text \<open>A signed value counts its sign towards the width.\<close>

definition pad_int :: "nat \<Rightarrow> int \<Rightarrow> string" where
  "pad_int w x = (if x < 0 then CHR ''-'' # pad (w - 1) (nat (- x)) else pad w (nat x))"

section \<open>The header\<close>

record stamp =
  year :: int
  month :: nat
  day :: nat
  hour :: nat
  minute :: nat
  second :: nat
  nanosecond :: nat

definition fields :: "stamp \<Rightarrow> int \<times> nat \<times> nat \<times> nat \<times> nat \<times> nat \<times> nat" where
  "fields now = (year now, month now, day now, hour now, minute now, second now,
                 nanosecond now div 1000)"

definition write_timestamp :: "flags \<Rightarrow> stamp \<Rightarrow> stamp \<Rightarrow> string" where
  "write_timestamp fl utc local =
     (let (y, mo, d, h, mi, s, micros) = (if fl AND LUTC \<noteq> 0 then fields utc else fields local)
      in (if fl AND LDATE \<noteq> 0
          then pad_int 4 y @ ''/'' @ pad 2 mo @ ''/'' @ pad 2 d @ '' '' else [])
       @ (if fl AND (LTIME OR LMICROSECONDS) \<noteq> 0
          then pad 2 h @ '':'' @ pad 2 mi @ '':'' @ pad 2 s
             @ (if fl AND LMICROSECONDS \<noteq> 0 then ''.'' @ pad 6 micros else []) @ '' ''
          else []))"

definition log_header :: "std_logger \<Rightarrow> stamp \<Rightarrow> stamp \<Rightarrow> string" where
  "log_header lg utc local =
     (if flags lg AND LMSGPREFIX = 0 then prefix lg else [])
     @ (if flags lg AND (LDATE OR LTIME OR LMICROSECONDS) \<noteq> 0
        then write_timestamp (flags lg) utc local else [])
     @ (if flags lg AND LMSGPREFIX \<noteq> 0 then prefix lg else [])"

definition ends_with :: "char \<Rightarrow> string \<Rightarrow> bool" where
  "ends_with c s \<longleftrightarrow> s \<noteq> [] \<and> last s = c"

definition format_line :: "std_logger \<Rightarrow> stamp \<Rightarrow> stamp \<Rightarrow> string \<Rightarrow> string" where
  "format_line lg utc local message =
     (let line = log_header lg utc local @ message
      in if ends_with CHR ''\<newline>'' line then line else line @ ''\<newline>'')"

definition printf :: "std_logger \<Rightarrow> stamp \<Rightarrow> stamp \<Rightarrow> string \<Rightarrow> target \<times> string" where
  "printf lg utc local message = (target lg, format_line lg utc local message)"

text \<open>The logger a pool uses when none was configured.\<close>

definition default_logger :: std_logger where
  "default_logger = \<lparr>target = Stderr, prefix = ''[ants]: '',
                     flags = LSTD_FLAGS OR LMSGPREFIX OR LMICROSECONDS\<rparr>"

section \<open>Lengths\<close>

lemma length_show_nat_le: "0 < w \<Longrightarrow> n < 10 ^ w \<Longrightarrow> length (show_nat n) \<le> w"
proof (induction n arbitrary: w rule: show_nat.induct)
  case (1 n)
  show ?case
  proof (cases "n < 10")
    case True
    with "1.prems" show ?thesis by (simp add: show_nat.simps [of n])
  next
    case False
    with "1.prems" obtain v where w: "w = Suc v" "0 < v"
      by (cases w; cases "w = 1") auto
    with "1.prems" have "n div 10 < 10 ^ v"
      by (simp add: less_mult_imp_div_less mult.commute)
    with "1.IH" [OF False w(2)] False w(1) show ?thesis
      by (simp add: show_nat.simps [of n])
  qed
qed

lemma length_pad [simp]: "0 < w \<Longrightarrow> n < 10 ^ w \<Longrightarrow> length (pad w n) = w"
  using length_show_nat_le [of w n] by (simp add: pad_def)

lemma length_pad_int [simp]:
  "1 < w \<Longrightarrow> 0 \<le> x \<Longrightarrow> x < 10 ^ w \<Longrightarrow> length (pad_int w x) = w"
  by (simp add: pad_int_def nat_less_iff)

text \<open>A time of day in the four-digit years, outside a leap second.\<close>

definition plain_stamp :: "stamp \<Rightarrow> bool" where
  "plain_stamp t \<longleftrightarrow> 0 \<le> year t \<and> year t < 10000 \<and> month t < 100 \<and> day t < 100
     \<and> hour t < 100 \<and> minute t < 100 \<and> second t < 100 \<and> nanosecond t < 1000000000"

lemma length_write_timestamp:
  assumes "plain_stamp utc" and "plain_stamp local"
  shows "length (write_timestamp fl utc local) =
    (if fl AND LDATE \<noteq> 0 then 11 else 0)
    + (if fl AND LMICROSECONDS \<noteq> 0 then 16 else if fl AND (LTIME OR LMICROSECONDS) \<noteq> 0 then 9 else 0)"
proof -
  have micro: "nanosecond t div 1000 < 10 ^ 6" if "plain_stamp t" for t
    using that by (simp add: plain_stamp_def div_less_iff_less_mult)
  have sub: "fl AND (LTIME OR LMICROSECONDS) \<noteq> 0" if "fl AND LMICROSECONDS \<noteq> 0"
    using that by (auto simp: bit_eq_iff bit_and_iff bit_or_iff)
  show ?thesis
    using assms micro [OF assms(1)] micro [OF assms(2)] sub
    by (auto simp: write_timestamp_def fields_def plain_stamp_def Let_def)
qed

section \<open>The line\<close>

lemma format_line_newline: "ends_with CHR ''\<newline>'' (format_line lg utc local message)"
  by (simp add: format_line_def Let_def ends_with_def)

lemma format_line_message:
  "message \<noteq> [] \<Longrightarrow> format_line lg utc local message
     = log_header lg utc local @ message @ (if last message = CHR ''\<newline>'' then [] else ''\<newline>'')"
  by (simp add: format_line_def Let_def ends_with_def)

lemma format_line_idem_newline:
  "message \<noteq> [] \<Longrightarrow> last message \<noteq> CHR ''\<newline>'' \<Longrightarrow>
     format_line lg utc local (message @ ''\<newline>'') = format_line lg utc local message"
  by (simp add: format_line_message)

section \<open>Properties\<close>

text \<open>The line a pool logs by default: the local date and time with microseconds, 27 characters for
  the years 0 to 9999, then the prefix, the message, and one newline.\<close>

lemma default_log_line:
  assumes "plain_stamp local" and "message \<noteq> []" and "last message \<noteq> CHR ''\<newline>''"
  shows "\<exists>header. format_line default_logger utc local message = header @ ''[ants]: '' @ message @ ''\<newline>''
    \<and> length header = 27
    \<and> header = pad_int 4 (year local) @ ''/'' @ pad 2 (month local) @ ''/'' @ pad 2 (day local) @ '' ''
        @ pad 2 (hour local) @ '':'' @ pad 2 (minute local) @ '':'' @ pad 2 (second local)
        @ ''.'' @ pad 6 (nanosecond local div 1000) @ '' ''"
proof -
  let ?h = "pad_int 4 (year local) @ ''/'' @ pad 2 (month local) @ ''/'' @ pad 2 (day local) @ '' ''
        @ pad 2 (hour local) @ '':'' @ pad 2 (minute local) @ '':'' @ pad 2 (second local)
        @ ''.'' @ pad 6 (nanosecond local div 1000) @ '' ''"
  have "nanosecond local div 1000 < 10 ^ 6"
    using assms(1) by (simp add: plain_stamp_def div_less_iff_less_mult)
  then have "length ?h = 27" using assms(1) by (simp add: plain_stamp_def)
  moreover have "log_header default_logger utc local = ?h @ ''[ants]: ''"
    by (simp add: log_header_def write_timestamp_def default_logger_def Go_Log.fields_def flag_defs Let_def)
  ultimately show ?thesis
    using assms(2,3) by (intro exI [of _ ?h]) (simp add: format_line_message)
qed

definition demo_stamp :: stamp where
  "demo_stamp = \<lparr>year = 2024, month = 2, day = 29, hour = 7, minute = 5, second = 9, nanosecond = 1234567\<rparr>"

lemma default_log_line_example:
  "\<exists>header. format_line default_logger demo_stamp demo_stamp ''hi'' = header @ ''[ants]: '' @ ''hi'' @ ''\<newline>''
    \<and> length header = 27
    \<and> header = pad_int 4 (year demo_stamp) @ ''/'' @ pad 2 (month demo_stamp) @ ''/'' @ pad 2 (day demo_stamp) @ '' ''
        @ pad 2 (hour demo_stamp) @ '':'' @ pad 2 (minute demo_stamp) @ '':'' @ pad 2 (second demo_stamp)
        @ ''.'' @ pad 6 (nanosecond demo_stamp div 1000) @ '' ''"
  by (rule default_log_line) (simp_all add: plain_stamp_def demo_stamp_def)

end
