(* ===== verification/Multi_Pool.thy ===== *)
theory Multi_Pool
  imports Go_Log
begin

text \<open>
  Several pools behind one facade (src/src/multipool.rs): the load-balancing strategies, the trait
  \<open>Poolish\<close> with what a multi-pool needs of its pools, and \<open>MultiPoolCore\<close>, which the three kinds of
  multi-pool (src/src/multipool.rs, multipool_func.rs, multipool_func_generic.rs) wrap.

  The trait is a record of operations on an opaque pool \<open>'p\<close>, and \<open>None\<close> is a call that does not
  return (it blocks for good, or panics). Each call of a pool is one step: what happens inside it is
  the subject of Pool_Threads.
\<close>

section \<open>Load balancing\<close>

datatype load_balancing_strategy = LoadBalancingStrategy i32

definition ROUND_ROBIN :: load_balancing_strategy where "ROUND_ROBIN = LoadBalancingStrategy 2"
definition LEAST_TASKS :: load_balancing_strategy where "LEAST_TASKS = LoadBalancingStrategy 4"

lemma strategies_distinct [simp]: "ROUND_ROBIN \<noteq> LEAST_TASKS" "LEAST_TASKS \<noteq> ROUND_ROBIN"
  by (simp_all add: ROUND_ROBIN_def LEAST_TASKS_def)

section \<open>The trait\<close>

text \<open>A scoped thread that calls \<open>release_context\<close> returns its result or panics.\<close>

datatype outcome = Returned "error + unit" | Panicked

record ('p, 'a, 'c) poolish =
  deliver :: "'a \<Rightarrow> 'p \<Rightarrow> (((error \<times> 'a) + unit) \<times> 'p) option"
  running_of :: "'p \<Rightarrow> i32"
  free_of :: "'p \<Rightarrow> i32 option"
  waiting_of :: "'p \<Rightarrow> i32"
  cap_of :: "'p \<Rightarrow> i32"
  tune_of :: "i32 \<Rightarrow> 'p \<Rightarrow> 'p option"
  release_of :: "'p \<Rightarrow> 'p option"
  release_context_of :: "'c option \<Rightarrow> 'p \<Rightarrow> (outcome \<times> 'p) option"
  reboot_of :: "'p \<Rightarrow> 'p option"

text \<open>All of a list of calls return.\<close>

fun each :: "('p \<Rightarrow> 'q option) \<Rightarrow> 'p list \<Rightarrow> 'q list option" where
  "each f [] = Some []"
| "each f (p # ps) = Option.bind (f p) (\<lambda>q. map_option (Cons q) (each f ps))"

section \<open>Releasing all pools\<close>

definition pool_outcome :: "nat \<Rightarrow> outcome \<Rightarrow> error + unit" where
  "pool_outcome index r =
     (case r of
        Returned (Inl err) \<Rightarrow> Inl (Pools (''pool '' @ show_nat index @ '': '' @ error_to_string err))
      | Returned (Inr u) \<Rightarrow> Inr ()
      | Panicked \<Rightarrow> Inr ())"

definition separator :: string where "separator = '' | ''"

fun push_errors :: "string \<Rightarrow> (error + unit) list \<Rightarrow> string" where
  "push_errors detail [] = detail"
| "push_errors detail (Inl err # outcomes) = push_errors (detail @ error_to_string err @ separator) outcomes"
| "push_errors detail (Inr u # outcomes) = push_errors detail outcomes"

definition has_suffix :: "string \<Rightarrow> string \<Rightarrow> bool" where
  "has_suffix pat s \<longleftrightarrow> length pat \<le> length s \<and> drop (length s - length pat) s = pat"

function trim_end_matches :: "string \<Rightarrow> string \<Rightarrow> string" where
  "trim_end_matches s pat =
     (if pat \<noteq> [] \<and> has_suffix pat s then trim_end_matches (take (length s - length pat) s) pat else s)"
  by auto
termination
  by (relation "measure (\<lambda>(s, pat). length s)") (auto simp: has_suffix_def length_greater_0_conv [symmetric] simp del: length_greater_0_conv)

declare trim_end_matches.simps [simp del]

definition aggregate :: "(error + unit) list \<Rightarrow> error + unit" where
  "aggregate outcomes =
     (let detail = push_errors [] outcomes
      in if detail = [] then Inr () else Inl (Pools (trim_end_matches detail separator)))"

definition release_pools :: "('p, 'a, 'c) poolish \<Rightarrow> 'c option \<Rightarrow> 'p list \<Rightarrow> ((error + unit) \<times> 'p list) option" where
  "release_pools P ctx ps =
     map_option (\<lambda>rs. (aggregate (map (\<lambda>(i, r). pool_outcome i (fst r)) (enumerate 0 rs)), map snd rs))
       (each (release_context_of P ctx) ps)"

section \<open>The core\<close>

record 'p multi_pool =
  pools :: "'p list"
  index :: "32 word"
  mp_state :: i32
  mp_lbs :: load_balancing_strategy

text \<open>
  \<open>mk i\<close> is the outcome of the \<open>i\<close>-th call of the closure. When one fails, the pools made so far
  are released (they come with the error, as they are afterwards).
\<close>

fun make_pools :: "('p \<Rightarrow> 'p option) \<Rightarrow> (nat \<Rightarrow> (error + 'p) option) \<Rightarrow> nat \<Rightarrow> nat \<Rightarrow> 'p list \<Rightarrow>
    ((error \<times> 'p list) + 'p list) option" where
  "make_pools release mk i 0 ps = Some (Inr ps)"
| "make_pools release mk i (Suc n) ps =
     (case mk i of
        None \<Rightarrow> None
      | Some (Inr p) \<Rightarrow> make_pools release mk (i + 1) n (ps @ [p])
      | Some (Inl err) \<Rightarrow> map_option (\<lambda>released. Inl (err, released)) (each release ps))"

definition multi_pool_new :: "('p, 'a, 'c) poolish \<Rightarrow> i32 \<Rightarrow> load_balancing_strategy \<Rightarrow>
    (nat \<Rightarrow> (error + 'p) option) \<Rightarrow> ((error \<times> 'p list) + 'p multi_pool) option" where
  "multi_pool_new P n lbs mk =
     (if n \<le> 0 then Some (Inl (InvalidMultiPoolSize, []))
      else if lbs \<noteq> ROUND_ROBIN \<and> lbs \<noteq> LEAST_TASKS then Some (Inl (InvalidLoadBalancingStrategy, []))
      else map_option (map_sum id (\<lambda>ps. \<lparr>pools = ps, index = - 1, mp_state = OPENED, mp_lbs = lbs\<rparr>))
             (make_pools (release_of P) mk 0 (nat n) []))"

fun least_loop :: "('p \<Rightarrow> i32) \<Rightarrow> i32 \<Rightarrow> i32 \<Rightarrow> nat \<Rightarrow> 'p list \<Rightarrow> i32" where
  "least_loop run least_tasks best candidate [] = best"
| "least_loop run least_tasks best candidate (pool # rest) =
     (let running = run pool
      in if running < least_tasks then least_loop run running (wrap_i32 (int candidate)) (candidate + 1) rest
         else least_loop run least_tasks best (candidate + 1) rest)"

text \<open>\<open>next\<close> panics when there is no pool, which the constructor rules out.\<close>

definition next_pool :: "('p, 'a, 'c) poolish \<Rightarrow> load_balancing_strategy \<Rightarrow> 'p multi_pool \<Rightarrow> (i32 \<times> 'p multi_pool) option" where
  "next_pool P lbs mp =
     (if lbs = ROUND_ROBIN then
        (let ticket = index mp + 1; n = of_nat (length (pools mp)) :: 32 word
         in if n = 0 then None else Some (wrap_i32 (uint (ticket mod n)), mp\<lparr>index := ticket\<rparr>))
      else if lbs = LEAST_TASKS then Some (least_loop (running_of P) i32_max 0 0 (pools mp), mp)
      else Some (- 1, mp))"

definition mp_is_closed :: "'p multi_pool \<Rightarrow> bool" where "mp_is_closed mp \<longleftrightarrow> mp_state mp = CLOSED"

text \<open>One delivery to the pool that a strategy selects.\<close>

definition deliver_by :: "('p, 'a, 'c) poolish \<Rightarrow> load_balancing_strategy \<Rightarrow> 'a \<Rightarrow> 'p multi_pool \<Rightarrow>
    (((error \<times> 'a) + unit) \<times> 'p multi_pool) option" where
  "deliver_by P lbs argument mp =
     Option.bind (next_pool P lbs mp) (\<lambda>(i, mp').
     Option.bind (idx (pools mp') (usize_of_i32 i)) (\<lambda>p.
     map_option (\<lambda>(r, p'). (r, mp'\<lparr>pools := (pools mp')[usize_of_i32 i := p']\<rparr>)) (deliver P argument p)))"

definition dispatch :: "('p, 'a, 'c) poolish \<Rightarrow> 'a \<Rightarrow> 'p multi_pool \<Rightarrow> ((error + unit) \<times> 'p multi_pool) option" where
  "dispatch P argument mp =
     (if mp_is_closed mp then Some (Inl PoolClosed, mp)
      else Option.bind (deliver_by P (mp_lbs mp) argument mp) (\<lambda>(r, mp').
        case r of
          Inr u \<Rightarrow> Some (Inr (), mp')
        | Inl (err, argument') \<Rightarrow>
            if err \<noteq> PoolOverload \<or> mp_lbs mp' \<noteq> ROUND_ROBIN then Some (Inl err, mp')
            else map_option (\<lambda>(r, mp''). (map_sum fst id r, mp'')) (deliver_by P LEAST_TASKS argument' mp')))"

text \<open>\<open>sum()\<close> adds from the left with the build's overflow behaviour.\<close>

fun sum_i32 :: "bool \<Rightarrow> i32 \<Rightarrow> i32 list \<Rightarrow> i32 option" where
  "sum_i32 oc acc [] = Some acc"
| "sum_i32 oc acc (x # xs) = Option.bind (arith_i32 oc (acc + x)) (\<lambda>acc'. sum_i32 oc acc' xs)"

definition mp_running :: "bool \<Rightarrow> ('p, 'a, 'c) poolish \<Rightarrow> 'p multi_pool \<Rightarrow> i32 option" where
  "mp_running oc P mp = sum_i32 oc 0 (map (running_of P) (pools mp))"

definition mp_free :: "bool \<Rightarrow> ('p, 'a, 'c) poolish \<Rightarrow> 'p multi_pool \<Rightarrow> i32 option" where
  "mp_free oc P mp = Option.bind (each (free_of P) (pools mp)) (sum_i32 oc 0)"

definition mp_waiting :: "bool \<Rightarrow> ('p, 'a, 'c) poolish \<Rightarrow> 'p multi_pool \<Rightarrow> i32 option" where
  "mp_waiting oc P mp = sum_i32 oc 0 (map (waiting_of P) (pools mp))"

definition mp_cap :: "bool \<Rightarrow> ('p, 'a, 'c) poolish \<Rightarrow> 'p multi_pool \<Rightarrow> i32 option" where
  "mp_cap oc P mp = sum_i32 oc 0 (map (cap_of P) (pools mp))"

definition pool_at :: "'p multi_pool \<Rightarrow> i32 \<Rightarrow> error + 'p" where
  "pool_at mp i =
     (if i < 0 \<or> length (pools mp) \<le> usize_of_i32 i then Inl InvalidPoolIndex
      else Inr (pools mp ! usize_of_i32 i))"

definition running_by_index :: "('p, 'a, 'c) poolish \<Rightarrow> 'p multi_pool \<Rightarrow> i32 \<Rightarrow> error + i32" where
  "running_by_index P mp i = map_sum id (running_of P) (pool_at mp i)"

definition free_by_index :: "('p, 'a, 'c) poolish \<Rightarrow> 'p multi_pool \<Rightarrow> i32 \<Rightarrow> (error + i32) option" where
  "free_by_index P mp i = (case pool_at mp i of Inl e \<Rightarrow> Some (Inl e) | Inr p \<Rightarrow> map_option Inr (free_of P p))"

definition waiting_by_index :: "('p, 'a, 'c) poolish \<Rightarrow> 'p multi_pool \<Rightarrow> i32 \<Rightarrow> error + i32" where
  "waiting_by_index P mp i = map_sum id (waiting_of P) (pool_at mp i)"

definition mp_tune :: "('p, 'a, 'c) poolish \<Rightarrow> i32 \<Rightarrow> 'p multi_pool \<Rightarrow> 'p multi_pool option" where
  "mp_tune P n mp = map_option (\<lambda>ps. mp\<lparr>pools := ps\<rparr>) (each (tune_of P n) (pools mp))"

definition mp_release_context :: "('p, 'a, 'c) poolish \<Rightarrow> 'c option \<Rightarrow> 'p multi_pool \<Rightarrow>
    ((error + unit) \<times> 'p multi_pool) option" where
  "mp_release_context P ctx mp =
     (if mp_state mp \<noteq> OPENED then Some (Inl PoolClosed, mp)
      else map_option (\<lambda>(r, ps). (r, mp\<lparr>mp_state := CLOSED, pools := ps\<rparr>)) (release_pools P ctx (pools mp)))"

text \<open>\<open>timeout_ctx\<close> is the context that \<open>with_timeout\<close> made; it is cancelled when the release is over.\<close>

definition mp_release_timeout :: "('p, 'a, 'c) poolish \<Rightarrow> 'c \<Rightarrow> ('c \<Rightarrow> 'c) \<Rightarrow> 'p multi_pool \<Rightarrow>
    ((error + unit) \<times> 'c \<times> 'p multi_pool) option" where
  "mp_release_timeout P timeout_ctx cancel mp =
     map_option (\<lambda>(r, mp'). (r, cancel timeout_ctx, mp')) (mp_release_context P (Some timeout_ctx) mp)"

definition mp_reboot :: "('p, 'a, 'c) poolish \<Rightarrow> 'p multi_pool \<Rightarrow> 'p multi_pool option" where
  "mp_reboot P mp =
     (if mp_state mp = CLOSED
      then map_option (\<lambda>ps. mp\<lparr>mp_state := OPENED, index := 0, pools := ps\<rparr>) (each (reboot_of P) (pools mp))
      else Some mp)"

section \<open>Rotation\<close>

text \<open>A multi-pool as its constructor leaves it, as far as the number of pools goes.\<close>

definition mp_sized :: "'p multi_pool \<Rightarrow> bool" where
  "mp_sized mp \<longleftrightarrow> pools mp \<noteq> [] \<and> int (length (pools mp)) \<le> i32_max"

lemma unat_len: "n \<le> 2147483647 \<Longrightarrow> unat (of_nat n :: 32 word) = n"
  by (simp add: unsigned_of_nat take_bit_nat_eq_self)

lemma next_round_robin:
  assumes "mp_sized mp"
  shows "next_pool P ROUND_ROBIN mp =
    Some (int (unat (index mp + 1) mod length (pools mp)), mp\<lparr>index := index mp + 1\<rparr>)"
proof -
  let ?n = "length (pools mp)" and ?t = "index mp + 1"
  have n: "0 < ?n" "?n \<le> 2147483647" using assms by (auto simp: mp_sized_def)
  note u = unat_len [OF n(2)]
  have nz: "(of_nat ?n :: 32 word) \<noteq> 0"
  proof
    assume "(of_nat ?n :: 32 word) = 0"
    then have "unat (of_nat ?n :: 32 word) = 0" by (simp only: unat_0)
    with u n(1) show False by linarith
  qed
  have "unat (?t mod of_nat ?n) = unat ?t mod ?n" by (simp only: unat_mod_distrib u)
  then have r: "uint (?t mod of_nat ?n) = int (unat ?t mod ?n)" by (metis of_nat_unat)
  have "unat ?t mod ?n < ?n" using n(1) by (rule mod_less_divisor)
  then have "in_i32 (int (unat ?t mod ?n))" using n(2) by (simp add: in_i32_def)
  then have "wrap_i32 (uint (?t mod of_nat ?n)) = int (unat ?t mod ?n)"
    by (simp only: r wrap_i32_in)
  with nz show ?thesis by (simp only: next_pool_def Let_def if_True if_False refl)
qed

fun picks :: "('p, 'a, 'c) poolish \<Rightarrow> nat \<Rightarrow> 'p multi_pool \<Rightarrow> i32 list option" where
  "picks P 0 mp = Some []"
| "picks P (Suc k) mp = Option.bind (next_pool P ROUND_ROBIN mp) (\<lambda>(i, mp'). map_option (Cons i) (picks P k mp'))"

lemma picks_rotate:
  "mp_sized mp \<Longrightarrow> picks P k mp =
    Some (map (\<lambda>j. int (unat (index mp + 1 + of_nat j) mod length (pools mp))) [0..<k])"
proof (induction k arbitrary: mp)
  case (Suc k)
  let ?mp = "mp\<lparr>index := index mp + 1\<rparr>"
  have "mp_sized ?mp" using Suc.prems by (simp add: mp_sized_def)
  from Suc.IH [OF this] next_round_robin [OF Suc.prems, of P]
  show ?case by (simp add: upt_conv_Cons map_Suc_upt [symmetric] algebra_simps del: upt_Suc)
qed simp

lemma count_list_upt: "count_list [0..<n] i = (if i < n then 1 else 0)"
  by (induction n) (auto simp: count_list_append)

lemma count_rotation: "i < n \<Longrightarrow> count_list (map (\<lambda>j. j mod n) [0..<n * m]) i = m"
proof (induction m)
  case (Suc m)
  have "map (\<lambda>j. j mod n) [n * m..<n * m + n] = map (\<lambda>j. (n * m + j) mod n) [0..<n]"
    by (simp add: map_add_upt [symmetric] comp_def add.commute del: map_add_upt)
  also have "\<dots> = map (\<lambda>j. j) [0..<n]" by (rule map_cong) simp_all
  also have "\<dots> = [0..<n]" by simp
  finally have "count_list (map (\<lambda>j. j mod n) [n * m..<n * m + n]) i = 1"
    using Suc.prems by (simp add: count_list_upt)
  moreover have "[0..<n * Suc m] = [0..<n * m] @ [n * m..<n * m + n]"
    using upt_add_eq_append [of 0 "n * m" n] by (simp add: add.commute)
  ultimately show ?case using Suc by (simp add: count_list_append)
qed simp

section \<open>The least loaded pool\<close>

definition leftmost_min :: "('p \<Rightarrow> i32) \<Rightarrow> 'p list \<Rightarrow> i32 \<Rightarrow> i32 \<Rightarrow> bool" where
  "leftmost_min run ps least best \<longleftrightarrow> (\<forall>p \<in> set ps. least \<le> run p)
     \<and> (\<forall>j < length ps. int j < best \<longrightarrow> least < run (ps ! j)) \<and> 0 \<le> best
     \<and> (ps = [] \<and> best = 0 \<and> least = i32_max \<or> nat best < length ps \<and> least = run (ps ! nat best))"

lemma least_loop_min:
  assumes "leftmost_min run qs least best" and "\<forall>p \<in> set ps. run p \<le> i32_max"
    and "int (length (qs @ ps)) \<le> i32_max"
  shows "\<exists>l. leftmost_min run (qs @ ps) l (least_loop run least best (length qs) ps)"
  using assms
proof (induction ps arbitrary: qs least best)
  case Nil
  then show ?case by auto
next
  case (Cons p ps)
  let ?least = "if run p < least then run p else least"
  let ?best = "if run p < least then int (length qs) else best"
  have "leftmost_min run (qs @ [p]) ?least ?best"
  proof -
    have "\<forall>j < length qs. least \<le> run (qs ! j)" using Cons.prems(1) by (simp add: leftmost_min_def)
    with Cons.prems(1,2) show ?thesis
      by (auto simp: leftmost_min_def nth_append less_Suc_eq intro: less_le_trans)
  qed
  with Cons.IH [of "qs @ [p]" ?least ?best] Cons.prems(2,3)
  show ?case by (cases "run p < least") (simp_all add: Let_def wrap_i32_def)
qed

lemma next_least:
  assumes "mp_sized mp" and "\<forall>p \<in> set (pools mp). running_of P p \<le> i32_max"
  shows "\<exists>i < length (pools mp). next_pool P LEAST_TASKS mp = Some (int i, mp)
    \<and> (\<forall>p \<in> set (pools mp). running_of P (pools mp ! i) \<le> running_of P p)
    \<and> (\<forall>j < i. running_of P (pools mp ! i) < running_of P (pools mp ! j))"
proof -
  have "leftmost_min (running_of P) [] i32_max 0" by (simp add: leftmost_min_def)
  from least_loop_min [OF this assms(2)] assms(1)
  obtain l where l: "leftmost_min (running_of P) (pools mp) l (least_loop (running_of P) i32_max 0 0 (pools mp))"
    by (auto simp: mp_sized_def)
  let ?b = "least_loop (running_of P) i32_max 0 0 (pools mp)"
  have "nat ?b < length (pools mp)" "l = running_of P (pools mp ! nat ?b)" "0 \<le> ?b"
    using l assms(1) by (auto simp: leftmost_min_def mp_sized_def)
  with l show ?thesis
    by (intro exI [of _ "nat ?b"]) (auto simp: leftmost_min_def next_pool_def)
qed

section \<open>Dispatching\<close>

lemma deliver_by_at:
  assumes "next_pool P lbs mp = Some (int i, mp')" and "i < length (pools mp')" and "mp_sized mp'"
  shows "deliver_by P lbs a mp =
    map_option (\<lambda>(r, p'). (r, mp'\<lparr>pools := (pools mp')[i := p']\<rparr>)) (deliver P a (pools mp' ! i))"
proof -
  have "in_i32 (int i)" using assms(2,3) by (simp add: mp_sized_def in_i32_def)
  with assms(1,2) show ?thesis by (simp add: deliver_by_def)
qed

text \<open>The pool that the strategy selects, as an index.\<close>

definition selects :: "('p, 'a, 'c) poolish \<Rightarrow> load_balancing_strategy \<Rightarrow> 'p multi_pool \<Rightarrow> nat \<Rightarrow> bool" where
  "selects P lbs mp i \<longleftrightarrow> i < length (pools mp) \<and>
     (if lbs = ROUND_ROBIN then i = unat (index mp + 1) mod length (pools mp)
      else (\<forall>p \<in> set (pools mp). running_of P (pools mp ! i) \<le> running_of P p)
         \<and> (\<forall>j < i. running_of P (pools mp ! i) < running_of P (pools mp ! j)))"

definition advance :: "load_balancing_strategy \<Rightarrow> 'p multi_pool \<Rightarrow> 'p multi_pool" where
  "advance lbs mp = (if lbs = ROUND_ROBIN then mp\<lparr>index := index mp + 1\<rparr> else mp)"

lemma advance_simps [simp]:
  "pools (advance lbs mp) = pools mp" "mp_lbs (advance lbs mp) = mp_lbs mp"
  "mp_state (advance lbs mp) = mp_state mp" "mp_sized (advance lbs mp) = mp_sized mp"
  by (simp_all add: advance_def mp_sized_def)

lemma next_selects:
  assumes "mp_sized mp" and "lbs = ROUND_ROBIN \<or> lbs = LEAST_TASKS"
    and "\<forall>p \<in> set (pools mp). running_of P p \<le> i32_max"
  shows "\<exists>i. selects P lbs mp i \<and> next_pool P lbs mp = Some (int i, advance lbs mp)"
proof (cases "lbs = ROUND_ROBIN")
  case True
  have "unat (index mp + 1) mod length (pools mp) < length (pools mp)"
    using assms(1) by (simp add: mp_sized_def)
  with True next_round_robin [OF assms(1)] show ?thesis by (auto simp: selects_def advance_def)
next
  case False
  then have "lbs = LEAST_TASKS" using assms(2) by simp
  with next_least [OF assms(1,3)] show ?thesis by (auto simp: selects_def advance_def)
qed

text \<open>
  What \<open>dispatch\<close> does with an open multi-pool: the selected pool gets the task; only if it is
  overloaded under round robin, the least loaded pool (after that attempt) gets what came back.
\<close>

lemma dispatch_selected:
  assumes "mp_sized mp" and "\<not> mp_is_closed mp" and "mp_lbs mp = ROUND_ROBIN \<or> mp_lbs mp = LEAST_TASKS"
    and "\<forall>p \<in> set (pools mp). running_of P p \<le> i32_max"
  shows "\<exists>i. selects P (mp_lbs mp) mp i \<and> dispatch P a mp =
    Option.bind (deliver P a (pools mp ! i)) (\<lambda>(r, p').
      let mp' = (advance (mp_lbs mp) mp)\<lparr>pools := (pools mp)[i := p']\<rparr> in
      case r of
        Inr u \<Rightarrow> Some (Inr (), mp')
      | Inl (e, b) \<Rightarrow>
          if e = PoolOverload \<and> mp_lbs mp = ROUND_ROBIN
          then map_option (\<lambda>(r, mp''). (map_sum fst id r, mp'')) (deliver_by P LEAST_TASKS b mp')
          else Some (Inl e, mp'))"
proof -
  obtain i where i: "selects P (mp_lbs mp) mp i" "next_pool P (mp_lbs mp) mp = Some (int i, advance (mp_lbs mp) mp)"
    using next_selects [OF assms(1,3,4)] by blast
  then have "i < length (pools (advance (mp_lbs mp) mp))" by (simp add: selects_def)
  note d = deliver_by_at [OF i(2) this, simplified, OF assms(1)]
  have "dispatch P a mp =
    Option.bind (deliver P a (pools mp ! i)) (\<lambda>(r, p').
      let mp' = (advance (mp_lbs mp) mp)\<lparr>pools := (pools mp)[i := p']\<rparr> in
      case r of
        Inr u \<Rightarrow> Some (Inr (), mp')
      | Inl (e, b) \<Rightarrow>
          if e = PoolOverload \<and> mp_lbs mp = ROUND_ROBIN
          then map_option (\<lambda>(r, mp''). (map_sum fst id r, mp'')) (deliver_by P LEAST_TASKS b mp')
          else Some (Inl e, mp'))"
    using assms(2)
    by (cases "deliver P a (pools mp ! i)")
      (auto simp: dispatch_def d Let_def split: sum.splits)
  with i(1) show ?thesis by blast
qed

section \<open>Sums and indices\<close>

lemma sum_i32_exact:
  "\<forall>x \<in> set xs. 0 \<le> x \<Longrightarrow> 0 \<le> acc \<Longrightarrow> acc + sum_list xs \<le> i32_max \<Longrightarrow> sum_i32 oc acc xs = Some (acc + sum_list xs)"
proof (induction xs arbitrary: acc)
  case (Cons x xs)
  have "0 \<le> sum_list xs" using Cons.prems(1) by (intro sum_list_nonneg) simp
  with Cons.prems have "in_i32 (acc + x)" by (simp add: in_i32_def)
  with Cons show ?case by (simp add: add.assoc)
qed simp

lemma sum_i32_wraps: "sum_i32 False acc xs = Some (if xs = [] then acc else wrap_i32 (acc + sum_list xs))"
proof (induction xs arbitrary: acc)
  case (Cons x xs)
  show ?case
    by (cases "xs = []") (simp_all add: Cons.IH arith_i32_def wrap_i32_add add.assoc)
qed simp

lemma pool_at_cases:
  assumes "int (length (pools mp)) \<le> i32_max" and "in_i32 i"
  shows "pool_at mp i = (if 0 \<le> i \<and> nat i < length (pools mp) then Inr (pools mp ! nat i) else Inl InvalidPoolIndex)"
  using assms by (auto simp: pool_at_def)

section \<open>Aggregated errors\<close>

fun join_with :: "string \<Rightarrow> string list \<Rightarrow> string" where
  "join_with sep [] = []"
| "join_with sep [x] = x"
| "join_with sep (x # y # ys) = x @ sep @ join_with sep (y # ys)"

definition failures :: "(error + unit) list \<Rightarrow> string list" where
  "failures outcomes = [error_to_string e. Inl e \<leftarrow> outcomes]"

lemma push_errors_concat:
  "push_errors detail outcomes = detail @ concat (map (\<lambda>m. m @ separator) (failures outcomes))"
proof (induction detail outcomes rule: push_errors.induct)
  case (2 detail err outcomes)
  then show ?case by (simp add: failures_def)
qed (simp_all add: failures_def)

lemma concat_join: "ms \<noteq> [] \<Longrightarrow> concat (map (\<lambda>m. m @ sep) ms) = join_with sep ms @ sep"
  by (induction sep ms rule: join_with.induct) simp_all

lemma last_join: "ms \<noteq> [] \<Longrightarrow> \<forall>m \<in> set ms. m \<noteq> [] \<Longrightarrow> join_with sep ms \<noteq> [] \<and> last (join_with sep ms) = last (last ms)"
  by (induction sep ms rule: join_with.induct) auto

lemma trim_once:
  assumes "t \<noteq> []" and "last t \<noteq> CHR '' ''"
  shows "trim_end_matches (t @ separator) separator = t"
proof -
  have "\<not> has_suffix separator t"
  proof
    assume h: "has_suffix separator t"
    then have "t = take (length t - 3) t @ separator"
      by (metis append_take_drop_id has_suffix_def separator_def length_Cons list.size(3) numeral_3_eq_3)
    then have "last t = CHR '' ''" by (metis last_appendR last_ConsL last_ConsR list.distinct(1) separator_def)
    with assms(2) show False by simp
  qed
  then have "trim_end_matches t separator = t" by (simp add: trim_end_matches.simps [of t])
  then show ?thesis
    by (subst trim_end_matches.simps) (simp add: has_suffix_def separator_def)
qed

lemma aggregate_join:
  assumes "\<forall>m \<in> set (failures outcomes). m \<noteq> [] \<and> last m \<noteq> CHR '' ''"
  shows "aggregate outcomes =
    (if failures outcomes = [] then Inr () else Inl (Pools (join_with separator (failures outcomes))))"
proof (cases "failures outcomes = []")
  case True
  then show ?thesis by (simp add: aggregate_def push_errors_concat)
next
  case False
  let ?ms = "failures outcomes"
  have j: "join_with separator ?ms \<noteq> []" "last (join_with separator ?ms) \<noteq> CHR '' ''"
    using last_join [OF False, of separator] assms False by auto
  have "push_errors [] outcomes = join_with separator ?ms @ separator"
    using concat_join [OF False] by (simp add: push_errors_concat)
  moreover have "push_errors [] outcomes \<noteq> []" using calculation j by simp
  ultimately show ?thesis using False trim_once [OF j] by (simp add: aggregate_def)
qed

text \<open>The text of one pool's failure never ends in the separator.\<close>

lemma pool_outcome_text:
  "pool_outcome i (Returned (Inl e)) = Inl e' \<Longrightarrow> \<forall>d. e \<noteq> Pools d \<Longrightarrow>
    error_to_string e' \<noteq> [] \<and> last (error_to_string e') \<noteq> CHR '' ''"
  using error_to_string_nonempty [of e] error_to_string_last [of e]
  by (auto simp: pool_outcome_def)

section \<open>Construction\<close>

lemma make_pools_all:
  "\<forall>j < n. mk (i + j) = Some (Inr (f j)) \<Longrightarrow> make_pools release mk i n ps = Some (Inr (ps @ map f [0..<n]))"
proof (induction n arbitrary: i ps f)
  case (Suc n)
  have "mk i = Some (Inr (f 0))" using Suc.prems by (metis add.right_neutral zero_less_Suc)
  moreover have "\<forall>j < n. mk (i + 1 + j) = Some (Inr (f (Suc j)))"
    using Suc.prems by (metis Suc_less_eq add.assoc plus_1_eq_Suc)
  ultimately show ?case
    using Suc.IH [of "i + 1" "\<lambda>j. f (Suc j)" "ps @ [f 0]"]
    by (simp add: upt_conv_Cons map_Suc_upt [symmetric] comp_def del: upt_Suc)
qed simp

lemma make_pools_fails:
  assumes "k < n" and "mk (i + k) = Some (Inl e)" and "\<forall>j < k. mk (i + j) = Some (Inr (f j))"
  shows "make_pools release mk i n ps =
    map_option (\<lambda>released. Inl (e, released)) (each release (ps @ map f [0..<k]))"
  using assms
proof (induction k arbitrary: n i ps f)
  case 0
  then show ?case by (cases n) simp_all
next
  case (Suc k)
  obtain m where n: "n = Suc m" "k < m" using Suc.prems(1) by (cases n) auto
  have "mk i = Some (Inr (f 0))" using Suc.prems(3) by (metis add.right_neutral zero_less_Suc)
  moreover have "\<forall>j < k. mk (i + 1 + j) = Some (Inr (f (Suc j)))"
    using Suc.prems(3) by (metis Suc_less_eq add.assoc plus_1_eq_Suc)
  moreover have "mk (i + 1 + k) = Some (Inl e)" using Suc.prems(2) by simp
  ultimately show ?case
    using Suc.IH [OF n(2), of "i + 1" "\<lambda>j. f (Suc j)" "ps @ [f 0]"] n(1)
    by (simp add: upt_conv_Cons map_Suc_upt [symmetric] comp_def del: upt_Suc)
qed

section \<open>What a multi-pool relies on\<close>

text \<open>
  The interface: a pool that refuses a task hands that very task back, and reports a 32-bit count of
  running workers. Then the task that ends up in a pool is the one that was submitted, even when
  another pool refused it first.
\<close>

locale poolish_contract =
  fixes P :: "('p, 'a, 'c) poolish" and ok :: "'p \<Rightarrow> bool"
  assumes gives_back: "ok p \<Longrightarrow> deliver P a p = Some (Inl (e, b), p') \<Longrightarrow> b = a"
    and stays_ok: "ok p \<Longrightarrow> deliver P a p = Some (r, p') \<Longrightarrow> ok p'"
    and running_range: "ok p \<Longrightarrow> running_of P p \<le> i32_max"
begin

lemma second_attempt:
  assumes "mp_sized mp" and "\<forall>p \<in> set (pools mp). ok p"
    and "deliver_by P LEAST_TASKS a mp = Some (Inr u, mp')"
  shows "\<exists>p p'. p \<in> set (pools mp) \<and> p' \<in> set (pools mp') \<and> deliver P a p = Some (Inr (), p')"
proof -
  have "\<forall>p \<in> set (pools mp). running_of P p \<le> i32_max" using assms(2) running_range by blast
  from next_least [OF assms(1) this] obtain i where
    i: "i < length (pools mp)" "next_pool P LEAST_TASKS mp = Some (int i, mp)" by blast
  from deliver_by_at [OF i(2,1) assms(1), of a] assms(3) obtain p' where
    p: "deliver P a (pools mp ! i) = Some (Inr u, p')" "mp' = mp\<lparr>pools := (pools mp)[i := p']\<rparr>"
    by (cases "deliver P a (pools mp ! i)") auto
  from i(1) p(2) have "pools mp ! i \<in> set (pools mp)" "p' \<in> set (pools mp')"
    by (simp_all add: set_update_memI)
  with p(1) show ?thesis by (intro exI [of _ "pools mp ! i"] exI [of _ p']) simp
qed

lemma dispatch_carries:
  assumes sized: "mp_sized mp" and opn: "\<not> mp_is_closed mp"
    and lbs: "mp_lbs mp = ROUND_ROBIN \<or> mp_lbs mp = LEAST_TASKS"
    and ok: "\<forall>p \<in> set (pools mp). ok p" and d: "dispatch P a mp = Some (Inr (), mp')"
  shows "\<exists>p p'. ok p \<and> p' \<in> set (pools mp') \<and> deliver P a p = Some (Inr (), p')"
proof -
  have range: "\<forall>p \<in> set (pools mp). running_of P p \<le> i32_max" using ok running_range by blast
  obtain i where sel: "selects P (mp_lbs mp) mp i" and di: "dispatch P a mp =
    Option.bind (deliver P a (pools mp ! i)) (\<lambda>(r, p').
      let mp' = (advance (mp_lbs mp) mp)\<lparr>pools := (pools mp)[i := p']\<rparr> in
      case r of
        Inr u \<Rightarrow> Some (Inr (), mp')
      | Inl (e, b) \<Rightarrow>
          if e = PoolOverload \<and> mp_lbs mp = ROUND_ROBIN
          then map_option (\<lambda>(r, mp''). (map_sum fst id r, mp'')) (deliver_by P LEAST_TASKS b mp')
          else Some (Inl e, mp'))"
    using dispatch_selected [OF sized opn lbs range, of a] by blast
  have i: "i < length (pools mp)" using sel by (simp add: selects_def)
  obtain r p' where r: "deliver P a (pools mp ! i) = Some (r, p')"
    using di d by (cases "deliver P a (pools mp ! i)") auto
  note rest = di [unfolded r d Option.bind.simps prod.case, symmetric]
  let ?mp1 = "(advance (mp_lbs mp) mp)\<lparr>pools := (pools mp)[i := p']\<rparr>"
  have oki: "ok (pools mp ! i)" using ok i by simp
  show ?thesis
  proof (cases r)
    case (Inr u)
    then have "p' \<in> set (pools mp')" using rest i by (auto simp: Let_def intro: set_update_memI)
    with Inr r oki show ?thesis by auto
  next
    case (Inl eb)
    then obtain e b where eb: "r = Inl (e, b)" by (cases eb) auto
    have b: "b = a" using gives_back [OF oki] r eb by simp
    obtain u where second: "deliver_by P LEAST_TASKS a ?mp1 = Some (Inr u, mp')"
      using rest eb b by (auto simp: Let_def split: if_splits)
    have "mp_sized ?mp1" using sized by (simp add: mp_sized_def)
    moreover have "\<forall>p \<in> set (pools ?mp1). ok p"
      using ok stays_ok [OF oki r] by (auto dest: set_update_subset_insert [THEN subsetD])
    ultimately show ?thesis using second_attempt [OF _ _ second] by blast
  qed
qed

end

section \<open>Properties\<close>

lemma count_list_map_int: "count_list (map int xs) (int i) = count_list xs i"
  by (induction xs) simp_all

lemma count_rotation_from: "i < n \<Longrightarrow> count_list (map (\<lambda>j. (a + j) mod n) [0..<n * m]) i = m"
proof (induction a)
  case 0
  then show ?case using count_rotation [of i n m] by simp
next
  case (Suc a)
  let ?f = "\<lambda>a. map (\<lambda>j. (a + j) mod n) [0..<n * m]"
  have "?f a @ [(a + n * m) mod n] = map (\<lambda>j. (a + j) mod n) [0..<Suc (n * m)]" by simp
  also have "\<dots> = (a mod n) # ?f (Suc a)" by (simp add: map_upt_Suc del: upt_Suc)
  finally have "?f a @ [a mod n] = (a mod n) # ?f (Suc a)" by simp
  then have "count_list (?f a @ [a mod n]) i = count_list ((a mod n) # ?f (Suc a)) i" by simp
  then show ?case using Suc by (simp split: if_splits)
qed

text \<open>C32: Round robin is fair: over \<open>m\<close> full rounds, without a wrap-around of the 32-bit ticket, it picks
  every pool exactly \<open>m\<close> times, wherever the rotation starts.\<close>

theorem round_robin_fair:
  assumes "mp_sized mp" and "unat (index mp + 1) + length (pools mp) * m \<le> 2 ^ 32" and "i < length (pools mp)"
  shows "\<exists>is. picks P (length (pools mp) * m) mp = Some is \<and> count_list is (int i) = m"
proof -
  let ?n = "length (pools mp)" and ?a = "unat (index mp + 1)"
  have "unat (index mp + 1 + of_nat j) = ?a + j" if "j < ?n * m" for j
    using that assms(2) by (simp add: unat_word_ariths unsigned_of_nat take_bit_nat_eq_self mod_less)
  then have "picks P (?n * m) mp = Some (map int (map (\<lambda>j. (?a + j) mod ?n) [0..<?n * m]))"
    using picks_rotate [OF assms(1), of P "?n * m"] by simp
  moreover have "count_list (map int (map (\<lambda>j. (?a + j) mod ?n) [0..<?n * m])) (int i) = m"
    using count_rotation_from [OF assms(3), of ?a m] by (simp only: count_list_map_int)
  ultimately show ?thesis by blast
qed

text \<open>A multi-pool of plain counters for concrete runs: a pool is its number of running workers and its
  capacity; it takes a task while it has room.\<close>

definition demo_poolish :: "(i32 \<times> i32, nat, unit) poolish" where
  "demo_poolish = \<lparr>deliver = (\<lambda>t (r, c). if r < c then Some (Inr (), (r + 1, c)) else Some (Inl (PoolOverload, t), (r, c))),
     running_of = fst, free_of = (\<lambda>(r, c). Some (c - r)), waiting_of = (\<lambda>p. 0), cap_of = snd,
     tune_of = (\<lambda>n (r, c). Some (r, n)), release_of = Some, release_context_of = (\<lambda>c p. Some (Returned (Inr ()), p)),
     reboot_of = Some\<rparr>"

definition demo_multi :: "load_balancing_strategy \<Rightarrow> (i32 \<times> i32) multi_pool" where
  "demo_multi lbs = \<lparr>pools = [(2, 2), (1, 2), (0, 2)], index = - 1, mp_state = OPENED, mp_lbs = lbs\<rparr>"

theorem round_robin_fair_witness:
  "\<exists>is. picks demo_poolish (length (pools (demo_multi ROUND_ROBIN)) * 4) (demo_multi ROUND_ROBIN) = Some is
    \<and> count_list is (int 2) = 4"
  by (rule round_robin_fair) (simp_all add: mp_sized_def demo_multi_def)

text \<open>C33: An open multi-pool first offers a task to the pool its strategy selects. If that pool is
  overloaded, and only then, and only under round robin, the task that came back is offered once more, to
  the pool that is least loaded after the first attempt; any other error is the caller's.\<close>

theorem dispatch_attempts:
  assumes "mp_sized mp" and "\<not> mp_is_closed mp" and "mp_lbs mp = ROUND_ROBIN \<or> mp_lbs mp = LEAST_TASKS"
    and "\<forall>p \<in> set (pools mp). running_of P p \<le> i32_max"
  shows "\<exists>i. selects P (mp_lbs mp) mp i \<and> dispatch P a mp =
    Option.bind (deliver P a (pools mp ! i)) (\<lambda>(r, p').
      let mp' = (advance (mp_lbs mp) mp)\<lparr>pools := (pools mp)[i := p']\<rparr> in
      case r of
        Inr u \<Rightarrow> Some (Inr (), mp')
      | Inl (e, b) \<Rightarrow>
          if e = PoolOverload \<and> mp_lbs mp = ROUND_ROBIN
          then map_option (\<lambda>(r, mp''). (map_sum fst id r, mp'')) (deliver_by P LEAST_TASKS b mp')
          else Some (Inl e, mp'))"
  using assms by (rule dispatch_selected)

theorem dispatch_attempts_witness:
  "\<exists>i. selects demo_poolish (mp_lbs (demo_multi ROUND_ROBIN)) (demo_multi ROUND_ROBIN) i
    \<and> dispatch demo_poolish 7 (demo_multi ROUND_ROBIN) =
    Option.bind (deliver demo_poolish 7 (pools (demo_multi ROUND_ROBIN) ! i)) (\<lambda>(r, p').
      let mp' = (advance (mp_lbs (demo_multi ROUND_ROBIN)) (demo_multi ROUND_ROBIN))
        \<lparr>pools := (pools (demo_multi ROUND_ROBIN))[i := p']\<rparr> in
      case r of
        Inr u \<Rightarrow> Some (Inr (), mp')
      | Inl (e, b) \<Rightarrow>
          if e = PoolOverload \<and> mp_lbs (demo_multi ROUND_ROBIN) = ROUND_ROBIN
          then map_option (\<lambda>(r, mp''). (map_sum fst id r, mp'')) (deliver_by demo_poolish LEAST_TASKS b mp')
          else Some (Inl e, mp'))"
  by (rule dispatch_attempts)
    (simp_all add: mp_sized_def demo_multi_def demo_poolish_def mp_is_closed_def)

text \<open>The failures of the pools, each with the index of its pool.\<close>

fun failed_pools :: "nat \<Rightarrow> outcome list \<Rightarrow> string list" where
  "failed_pools i [] = []"
| "failed_pools i (Returned (Inl e) # rs) = (''pool '' @ show_nat i @ '': '' @ error_to_string e) # failed_pools (i + 1) rs"
| "failed_pools i (r # rs) = failed_pools (i + 1) rs"

lemma failures_failed_pools:
  "failures (map (\<lambda>(i, r). pool_outcome i (fst r)) (enumerate n rs)) = failed_pools n (map fst rs)"
proof (induction rs arbitrary: n)
  case (Cons r rs)
  then show ?case
    by (cases "fst r"; cases "case fst r of Returned x \<Rightarrow> x | Panicked \<Rightarrow> Inr ()")
      (auto simp: failures_def pool_outcome_def split: outcome.splits sum.splits)
qed (simp add: failures_def)

lemma failed_pools_text:
  assumes "\<forall>e. Returned (Inl e) \<in> set rs \<longrightarrow> (\<forall>d. e \<noteq> Pools d)"
  shows "\<forall>m \<in> set (failed_pools i rs). m \<noteq> [] \<and> last m \<noteq> CHR '' ''"
  using assms
  by (induction i rs rule: failed_pools.induct) (auto simp: error_to_string_nonempty error_to_string_last)

text \<open>C34: Releasing a multi-pool reports every pool that failed, by index and in order, separated by
  bars without a trailing one; it succeeds exactly when no pool failed (a release that panicked counts as
  a success), and every pool was released.\<close>

theorem release_reports_every_failure:
  assumes "each (release_context_of P ctx) ps = Some rs"
    and "\<forall>e. Returned (Inl e) \<in> set (map fst rs) \<longrightarrow> (\<forall>d. e \<noteq> Pools d)"
  shows "release_pools P ctx ps =
    Some (if failed_pools 0 (map fst rs) = [] then Inr ()
          else Inl (Pools (join_with separator (failed_pools 0 (map fst rs)))), map snd rs)"
proof -
  let ?os = "map (\<lambda>(i, r). pool_outcome i (fst r)) (enumerate 0 rs)"
  have fp: "failures ?os = failed_pools 0 (map fst rs)" by (rule failures_failed_pools)
  have "aggregate ?os = (if failures ?os = [] then Inr () else Inl (Pools (join_with separator (failures ?os))))"
    by (rule aggregate_join) (use failed_pools_text [OF assms(2)] fp in simp)
  with fp assms(1) show ?thesis by (simp add: release_pools_def)
qed

definition demo_failing :: "(nat, nat, unit) poolish" where
  "demo_failing = \<lparr>deliver = (\<lambda>t p. None), running_of = (\<lambda>p. 0), free_of = (\<lambda>p. None), waiting_of = (\<lambda>p. 0),
     cap_of = (\<lambda>p. 0), tune_of = (\<lambda>n. Some), release_of = Some,
     release_context_of = (\<lambda>c p. Some (if p = 1 then Returned (Inr ()) else Returned (Inl PoolClosed), p + 10)),
     reboot_of = Some\<rparr>"

theorem release_reports_every_failure_witness:
  "release_pools demo_failing None [0, 1, 2] =
    Some (if failed_pools 0 [Returned (Inl PoolClosed), Returned (Inr ()), Returned (Inl PoolClosed)] = [] then Inr ()
          else Inl (Pools (join_with separator
            (failed_pools 0 [Returned (Inl PoolClosed), Returned (Inr ()), Returned (Inl PoolClosed)]))), [10, 11, 12])"
  using release_reports_every_failure [of demo_failing None "[0, 1, 2]"
      "[(Returned (Inl PoolClosed), 10), (Returned (Inr ()), 11), (Returned (Inl PoolClosed), 12)]"]
  by (simp add: demo_failing_def)

text \<open>A multi-pool is made of all its pools or of none: if the pools can be made it holds them in
  order, and its rotation starts at the first one; if one of them fails, the error is reported and the
  pools made before it are all released.\<close>

lemma construction_all_or_nothing:
  assumes "0 < n" and "lbs = ROUND_ROBIN \<or> lbs = LEAST_TASKS" and "k \<le> nat n"
    and "\<forall>j < k. mk j = Some (Inr (f j))" and "k < nat n \<Longrightarrow> mk k = Some (Inl e)"
  shows "multi_pool_new P n lbs mk =
    (if k = nat n
     then Some (Inr \<lparr>pools = map f [0..<nat n], index = - 1, mp_state = OPENED, mp_lbs = lbs\<rparr>)
     else map_option (\<lambda>released. Inl (e, released)) (each (release_of P) (map f [0..<k])))"
proof (cases "k = nat n")
  case True
  then show ?thesis
    using assms make_pools_all [of "nat n" mk 0 f "release_of P" "[]"] by (auto simp: multi_pool_new_def)
next
  case False
  then show ?thesis
    using assms make_pools_fails [of k "nat n" mk 0 e f "release_of P" "[]"]
    by (auto simp: multi_pool_new_def option.map_comp comp_def)
qed

lemma construction_all_or_nothing_example:
  "multi_pool_new demo_failing 3 LEAST_TASKS (\<lambda>j. if j < 2 then Some (Inr (5 * j)) else Some (Inl InvalidPoolExpiry)) =
    (if 2 = nat 3
     then Some (Inr \<lparr>pools = map ((*) 5) [0..<nat 3], index = - 1, mp_state = OPENED, mp_lbs = LEAST_TASKS\<rparr>)
     else map_option (\<lambda>released. Inl (InvalidPoolExpiry, released)) (each (release_of demo_failing) (map ((*) 5) [0..<2])))"
  by (rule construction_all_or_nothing) simp_all

lemma sum_i32_panics:
  "\<forall>x \<in> set xs. 0 \<le> x \<Longrightarrow> 0 \<le> acc \<Longrightarrow> acc \<le> i32_max \<Longrightarrow> i32_max < acc + sum_list xs \<Longrightarrow> sum_i32 True acc xs = None"
proof (induction xs arbitrary: acc)
  case (Cons x xs)
  then show ?case by (cases "acc + x \<le> i32_max") (simp_all add: arith_i32_def in_i32_def)
qed simp

text \<open>The capacity of a multi-pool of limited pools is the sum of the capacities as long as that fits
  32 bits; beyond, a build with overflow checks panics and a build without them reports the sum wrapped
  around. Two pools of the default size are enough.\<close>

lemma multi_capacity:
  assumes "\<forall>p \<in> set (pools mp). 0 \<le> cap_of P p" and "pools mp \<noteq> []"
  shows "mp_cap True P mp =
      (if (\<Sum>p \<leftarrow> pools mp. cap_of P p) \<le> i32_max then Some (\<Sum>p \<leftarrow> pools mp. cap_of P p) else None)
    \<and> mp_cap False P mp = Some (wrap_i32 (\<Sum>p \<leftarrow> pools mp. cap_of P p))"
  using assms sum_i32_exact [of "map (cap_of P) (pools mp)" 0 True] sum_i32_panics [of "map (cap_of P) (pools mp)" 0]
  by (auto simp: mp_cap_def sum_i32_wraps)

definition demo_huge :: "(i32 \<times> i32) multi_pool" where
  "demo_huge = \<lparr>pools = [(0, i32_max), (0, i32_max)], index = 0, mp_state = OPENED, mp_lbs = LEAST_TASKS\<rparr>"

lemma multi_capacity_example:
  "mp_cap True demo_poolish demo_huge =
      (if (\<Sum>p \<leftarrow> pools demo_huge. cap_of demo_poolish p) \<le> i32_max then Some (\<Sum>p \<leftarrow> pools demo_huge. cap_of demo_poolish p) else None)
    \<and> mp_cap False demo_poolish demo_huge = Some (wrap_i32 (\<Sum>p \<leftarrow> pools demo_huge. cap_of demo_poolish p))"
  by (rule multi_capacity) (simp_all add: demo_huge_def demo_poolish_def)

end
