(* ===== verification/Multi_Pool_Core.thy ===== *)
theory Multi_Pool_Core
  imports Multi_Pool Pool_Alone
begin

text \<open>
  The pools of this crate as \<open>Poolish\<close> (the three \<open>impl Poolish\<close> blocks of src/src/multipool*.rs forward
  to the same core): every operation is a thread of Pool_Threads run on its own, and the multi-pools
  on top of them. They meet the contract of the trait.
\<close>

section \<open>Operations run on their own\<close>

definition alone :: "('t, 'l) config \<Rightarrow> nat \<Rightarrow> 't pc \<Rightarrow> ('t, 'h, 'l) pool \<Rightarrow> ('t, 'h, 'l) pool option" where
  "alone cfg fuel p s = map_option fst (run_alone cfg fuel s p)"

definition release_context_alone ::
  "('t, 'l) config \<Rightarrow> nat \<Rightarrow> nat option \<Rightarrow> ('t, 'h, 'l) pool \<Rightarrow> (outcome \<times> ('t, 'h, 'l) pool) option" where
  "release_context_alone cfg fuel ctx s =
     Option.bind (run_alone cfg fuel s (Ctx (CtxClosed (ContextCall ctx)))) (\<lambda>(s', p, spawned).
       case p of
         Ctx (CtxResult k r) \<Rightarrow> Some (Returned r, s')
       | Rel RelAborted \<Rightarrow> Some (Panicked, s')
       | _ \<Rightarrow> None)"

definition core_poolish :: "('t, 'l) config \<Rightarrow> nat \<Rightarrow> (('t, 'h, 'l) pool, 't, nat) poolish" where
  "core_poolish cfg fuel =
     \<lparr>deliver = (\<lambda>t s. deliver_alone cfg s t), running_of = get_running,
      free_of = free (overflow_checks cfg), waiting_of = get_waiting, cap_of = get_cap,
      tune_of = (\<lambda>n. alone cfg fuel (Tun (TuneCap n))),
      release_of = alone cfg fuel (Rel (RelCas ReleaseReturns)),
      release_context_of = release_context_alone cfg fuel,
      reboot_of = alone cfg fuel (Reb RebState)\<rparr>"

text \<open>
  The three \<open>impl Poolish\<close> blocks: \<open>deliver\<close> is \<open>try_submit\<close> for a \<open>Pool\<close> and \<open>try_invoke\<close> for the other two,
  which differ from it only in the type of the payload.
\<close>

definition pool_poolish :: "('f option, 'l) config \<Rightarrow> nat \<Rightarrow> (('f option, 'h, 'l) pool, 'f option, nat) poolish" where
  "pool_poolish = core_poolish"

definition func_poolish :: "('a option, 'l) config \<Rightarrow> nat \<Rightarrow> (('a option, 'h, 'l) pool, 'a option, nat) poolish" where
  "func_poolish = core_poolish"

definition generic_poolish :: "('a, 'l) config \<Rightarrow> nat \<Rightarrow> (('a, 'h, 'l) pool, 'a, nat) poolish" where
  "generic_poolish = core_poolish"

section \<open>The three multi-pools\<close>

definition multi_pool_of_pools where
  "multi_pool_of_pools env clock fuel run n size_per_pool lbs opts =
     multi_pool_new (pool_poolish (env\<lparr>run_payload := pool_payload run\<rparr>) fuel) n lbs
       (\<lambda>i. map_option (map_sum id snd) (pool_new env clock run size_per_pool opts))"

definition multi_pool_with_func where
  "multi_pool_with_func env clock fuel pf n size_per_pool lbs opts =
     multi_pool_new (func_poolish (env\<lparr>run_payload := func_payload (the pf)\<rparr>) fuel) n lbs
       (\<lambda>i. map_option (map_sum id snd) (pool_with_func_new env clock size_per_pool pf opts))"

definition multi_pool_with_func_generic where
  "multi_pool_with_func_generic env clock fuel pf n size_per_pool lbs opts =
     multi_pool_new (generic_poolish (env\<lparr>run_payload := generic_payload (the pf)\<rparr>) fuel) n lbs
       (\<lambda>i. map_option (map_sum id snd) (pool_with_func_generic_new env clock size_per_pool pf opts))"

section \<open>The contract\<close>

text \<open>The task a submitting thread carries.\<close>

fun carries :: "'t pc \<Rightarrow> 't option" where
  "carries (Sub (SubClosed t)) = Some t" | "carries (Sub (SubInput t w)) = Some t"
| "carries (Sub (SubDone t)) = Some t" | "carries (Sub (SubFail t e)) = Some t"
| "carries (Ret (RetLock t)) = Some t" | "carries (Ret (RetDetach t)) = Some t"
| "carries (Ret (RetCap t)) = Some t" | "carries (Ret (RetRunning t c)) = Some t"
| "carries (Ret (RetFetch t)) = Some t" | "carries (Ret (RetRun t w)) = Some t"
| "carries (Ret (RetSpawn t w)) = Some t" | "carries (Ret (RetUnlock t w)) = Some t"
| "carries (Ret (RetLimit t)) = Some t" | "carries (Ret (RetRefuse t e)) = Some t"
| "carries (Ret (RetEnqueue t)) = Some t" | "carries (Ret (RetWait t)) = Some t"
| "carries (Ret (RetSleep t g)) = Some t" | "carries (Ret (RetRelock t)) = Some t"
| "carries (Ret (RetAwake t)) = Some t" | "carries (Ret (RetClosed t)) = Some t"
| "carries (Ret (RetUnwind t w)) = Some t" | "carries (Ret (RetAborted t w)) = Some t"
| "carries (Ret (RetSpawnPanic t w)) = Some t" | "carries (Ret (RetSpawnFailed t w)) = Some t"
| "carries _ = None"

lemma carries_step:
  "carries p = Some t \<Longrightarrow> (s', q # qs) \<in> set (pool_moves cfg s p) \<Longrightarrow> carries q = Some t"
  by (cases p; rename_tac r; case_tac r) (auto simp: step_iffs split: if_splits)

definition i32_running :: "('t, 'h, 'l) pool \<Rightarrow> bool" where
  "i32_running s \<longleftrightarrow> in_i32 (running s)"

lemma i32_running_step:
  "i32_running s \<Longrightarrow> (s', ps) \<in> set (pool_moves cfg s p) \<Longrightarrow> i32_running s'"
  by (cases p; rename_tac q; case_tac q;
      auto simp: i32_running_def step_iffs pool_updates split: if_splits option.splits ctx_call.splits)

lemma run_alone_keeps:
  "run_alone cfg n s p = Some (s', q, qs) \<Longrightarrow>
    (carries p = Some t \<longrightarrow> carries q = Some t) \<and> (i32_running s \<longrightarrow> i32_running s')"
proof (induction n arbitrary: s p s' q qs)
  case (Suc n)
  show ?case
  proof (cases "pool_moves cfg s p")
    case Nil
    with Suc.prems show ?thesis by simp
  next
    case (Cons m ms)
    obtain s1 ps where m: "m = (s1, ps)" by (cases m)
    with Cons Suc.prems obtain p1 spawned rs where ps: "ps = p1 # spawned"
      and rest: "run_alone cfg n s1 p1 = Some (s', q, rs)"
      by (auto split: list.splits)
    have "(s1, p1 # spawned) \<in> set (pool_moves cfg s p)" using Cons m ps by simp
    from Suc.IH [OF rest] carries_step [OF _ this, of t] i32_running_step [OF _ this] show ?thesis by simp
  qed
qed simp

lemma deliver_alone_keeps:
  assumes "deliver_alone cfg s t = Some (r, s')"
  shows "(r = Inl (e, b) \<longrightarrow> b = t) \<and> (i32_running s \<longrightarrow> i32_running s')"
proof -
  obtain p qs where p: "run_alone cfg 12 s (Sub (SubClosed t)) = Some (s', p, qs)" "try_submit_result p = Some r"
    using assms by (auto simp: deliver_alone_def bind_eq_Some_conv)
  with run_alone_keeps [OF p(1), of t] show ?thesis
    by (cases p rule: try_submit_result.cases) auto
qed

interpretation pools: poolish_contract "core_poolish cfg fuel" i32_running for cfg fuel
proof (unfold_locales, goal_cases)
  case (1 p a e b p')
  then show ?case using deliver_alone_keeps [of cfg p a "Inl (e, b)" p'] by (simp add: core_poolish_def)
next
  case (2 p a r p')
  then show ?case using deliver_alone_keeps [of cfg p a r p'] by (simp add: core_poolish_def)
next
  case (3 p)
  then show ?case by (simp add: core_poolish_def i32_running_def in_i32_def get_running_def)
qed

end
