(* ===== verification/Public_Api.thy ===== *)
theory Public_Api
  imports Multi_Pool_Core
begin

text \<open>
  The public methods of the pools and of the multi-pools: requests, and what each method does with one. A
  method of a pool answers at once or becomes a thread of Pool_Threads; a method of a multi-pool is one
  operation of \<open>MultiPoolCore\<close>. The methods of the three flavours, and the functions of the crate root
  on the default pool, forward to the same core operations. The entries of the interleaving model are
  exactly the calls that users can make, with the moves of the environment.
\<close>

section \<open>Pools\<close>

datatype 't request =
    Submit 't | Running | Free | Waiting | Cap | Tune i32 | IsClosed
  | Release | ReleaseTimeout duration | ReleaseContext "nat option" | Reboot

text \<open>An answer of a getter (\<open>None\<close> is the overflow panic of \<open>free\<close>), or the thread the caller becomes.\<close>

datatype 't response = Number "i32 option" | Truth bool | Call "'t pc"

fun core_request :: "('t, 'l) config \<Rightarrow> ('t, 'h, 'l) pool \<Rightarrow> 't request \<Rightarrow> 't response" where
  "core_request cfg s (Submit t) = Call (Sub (SubClosed t))"
| "core_request cfg s Running = Number (Some (get_running s))"
| "core_request cfg s Free = Number (free (overflow_checks cfg) s)"
| "core_request cfg s Waiting = Number (Some (get_waiting s))"
| "core_request cfg s Cap = Number (Some (get_cap s))"
| "core_request cfg s (Tune n) = Call (Tun (TuneCap n))"
| "core_request cfg s IsClosed = Truth (is_closed s)"
| "core_request cfg s Release = Call (Rel (RelCas ReleaseReturns))"
| "core_request cfg s (ReleaseTimeout d) = Call (Tmo (TimeoutStart d))"
| "core_request cfg s (ReleaseContext c) = Call (Ctx (CtxClosed (ContextCall c)))"
| "core_request cfg s Reboot = Call (Reb RebState)"

text \<open>The methods of \<open>Pool\<close>, \<open>PoolWithFunc\<close> and \<open>PoolWithFuncGeneric\<close>; \<open>submit\<close> is called \<open>invoke\<close> in the latter two.\<close>

definition pool_request ::
  "('f option, 'l) config \<Rightarrow> ('f option, 'h, 'l) pool \<Rightarrow> 'f option request \<Rightarrow> 'f option response" where
  "pool_request = core_request"

definition func_request ::
  "('a option, 'l) config \<Rightarrow> ('a option, 'h, 'l) pool \<Rightarrow> 'a option request \<Rightarrow> 'a option response" where
  "func_request = core_request"

definition generic_request ::
  "('a, 'l) config \<Rightarrow> ('a, 'h, 'l) pool \<Rightarrow> 'a request \<Rightarrow> 'a response" where
  "generic_request = core_request"

text \<open>
  The functions of the crate root: the first one called makes the default pool (\<open>made\<close> is the pool if it
  is made already). \<open>None\<close> is the panic of the \<open>expect\<close>. There is a function for every request but
  \<open>Waiting\<close>, \<open>Tune\<close> and \<open>IsClosed\<close>.
\<close>

definition default_request ::
  "('f option, 'l) config \<Rightarrow> i64 \<Rightarrow> ('f \<Rightarrow> panic_value option) \<Rightarrow>
    (('f option, 'l) config \<times> ('f option, 'h, 'l) pool) option \<Rightarrow> 'f option request \<Rightarrow>
    ('f option response \<times> ('f option, 'l) config \<times> ('f option, 'h, 'l) pool) option" where
  "default_request env clock run made r =
     (case (case made of
              Some p \<Rightarrow> Some p
            | None \<Rightarrow> (case default_ants_pool env clock run of Some (Inr p) \<Rightarrow> Some p | _ \<Rightarrow> None)) of
        None \<Rightarrow> None
      | Some (cfg, s) \<Rightarrow> Some (pool_request cfg s r, cfg, s))"

text \<open>What a finished call returns to its caller.\<close>

fun returned :: "'t pc \<Rightarrow> (error + unit) option" where
  "returned (Rel RelDone) = Some (Inr ())"
| "returned (Ctx (CtxResult k r)) = Some r"
| "returned (Tmo (TimeoutResult r)) = Some r"
| "returned (Tun TuneDone) = Some (Inr ())"
| "returned (Reb RebDone) = Some (Inr ())"
| "returned p = submit_result p"

text \<open>A request whose integers are 32-bit values.\<close>

fun typed :: "'t request \<Rightarrow> bool" where
  "typed (Tune n) \<longleftrightarrow> in_i32 n"
| "typed r \<longleftrightarrow> True"

text \<open>Every entry of the interleaving model is a call of a method or a move of the environment.\<close>

lemma entries_are_calls:
  "pool_entry p \<longleftrightarrow> (\<exists>r. typed r \<and> core_request cfg s r = Call p)
     \<or> (\<exists>w d. p = Env (Clocks w d)) \<or> (\<exists>dl. p = Env (NewCtx dl))"
proof
  assume "pool_entry p"
  then show "(\<exists>r. typed r \<and> core_request cfg s r = Call p)
     \<or> (\<exists>w d. p = Env (Clocks w d)) \<or> (\<exists>dl. p = Env (NewCtx dl))"
  proof cases
    case (1 t) then show ?thesis by (intro disjI1 exI [of _ "Submit t"]) simp
  next
    case 2 then show ?thesis by (intro disjI1 exI [of _ Release]) simp
  next
    case (3 c) then show ?thesis by (intro disjI1 exI [of _ "ReleaseContext c"]) simp
  next
    case (4 d) then show ?thesis by (intro disjI1 exI [of _ "ReleaseTimeout d"]) simp
  next
    case (5 n) then show ?thesis by (intro disjI1 exI [of _ "Tune n"]) simp
  next
    case 6 then show ?thesis by (intro disjI1 exI [of _ Reboot]) simp
  qed auto
next
  assume "(\<exists>r. typed r \<and> core_request cfg s r = Call p)
     \<or> (\<exists>w d. p = Env (Clocks w d)) \<or> (\<exists>dl. p = Env (NewCtx dl))"
  then show "pool_entry p"
  proof (elim disjE exE conjE)
    fix r assume "typed r" and "core_request cfg s r = Call p"
    then show ?thesis by (cases r) auto
  qed auto
qed

text \<open>A call that has returned makes no further step.\<close>

lemma returned_stays: "returned p = Some r \<Longrightarrow> pool_moves cfg s p = []"
  by (cases p; rename_tac q; case_tac q) (simp_all add: submit_result_def)

section \<open>Multi-pools\<close>

datatype ('a, 'c) multi_request =
    MSubmit 'a | MRunning | MRunningBy i32 | MFree | MFreeBy i32 | MWaiting | MWaitingBy i32 | MCap
  | MTune i32 | MIsClosed | MReleaseTimeout 'c | MReleaseContext "'c option" | MReboot

datatype multi_response = MNumber i32 | MIndexed "error + i32" | MTruth bool | MResult "error + unit"

text \<open>
  \<open>None\<close> is a call that panics or does not return. The context that \<open>release_timeout\<close> makes comes with the
  request; what becomes of it after the call is \<open>mp_release_timeout\<close>'s matter.
\<close>

fun core_multi_request :: "bool \<Rightarrow> ('p, 'a, 'c) poolish \<Rightarrow> 'p multi_pool \<Rightarrow> ('a, 'c) multi_request \<Rightarrow>
    (multi_response \<times> 'p multi_pool) option" where
  "core_multi_request oc P mp (MSubmit a) = map_option (map_prod MResult id) (dispatch P a mp)"
| "core_multi_request oc P mp MRunning = map_option (\<lambda>n. (MNumber n, mp)) (mp_running oc P mp)"
| "core_multi_request oc P mp (MRunningBy i) = Some (MIndexed (running_by_index P mp i), mp)"
| "core_multi_request oc P mp MFree = map_option (\<lambda>n. (MNumber n, mp)) (mp_free oc P mp)"
| "core_multi_request oc P mp (MFreeBy i) = map_option (\<lambda>r. (MIndexed r, mp)) (free_by_index P mp i)"
| "core_multi_request oc P mp MWaiting = map_option (\<lambda>n. (MNumber n, mp)) (mp_waiting oc P mp)"
| "core_multi_request oc P mp (MWaitingBy i) = Some (MIndexed (waiting_by_index P mp i), mp)"
| "core_multi_request oc P mp MCap = map_option (\<lambda>n. (MNumber n, mp)) (mp_cap oc P mp)"
| "core_multi_request oc P mp (MTune n) = map_option (Pair (MResult (Inr ()))) (mp_tune P n mp)"
| "core_multi_request oc P mp MIsClosed = Some (MTruth (mp_is_closed mp), mp)"
| "core_multi_request oc P mp (MReleaseTimeout c) =
     map_option (\<lambda>(r, c', mp'). (MResult r, mp')) (mp_release_timeout P c id mp)"
| "core_multi_request oc P mp (MReleaseContext c) = map_option (map_prod MResult id) (mp_release_context P c mp)"
| "core_multi_request oc P mp MReboot = map_option (Pair (MResult (Inr ()))) (mp_reboot P mp)"

definition multi_pool_request ::
  "('f option, 'l) config \<Rightarrow> nat \<Rightarrow> ('f option, 'h, 'l) pool multi_pool \<Rightarrow> ('f option, nat) multi_request \<Rightarrow>
    (multi_response \<times> ('f option, 'h, 'l) pool multi_pool) option" where
  "multi_pool_request cfg fuel = core_multi_request (overflow_checks cfg) (pool_poolish cfg fuel)"

definition multi_func_request ::
  "('a option, 'l) config \<Rightarrow> nat \<Rightarrow> ('a option, 'h, 'l) pool multi_pool \<Rightarrow> ('a option, nat) multi_request \<Rightarrow>
    (multi_response \<times> ('a option, 'h, 'l) pool multi_pool) option" where
  "multi_func_request cfg fuel = core_multi_request (overflow_checks cfg) (func_poolish cfg fuel)"

definition multi_generic_request ::
  "('a, 'l) config \<Rightarrow> nat \<Rightarrow> ('a, 'h, 'l) pool multi_pool \<Rightarrow> ('a, nat) multi_request \<Rightarrow>
    (multi_response \<times> ('a, 'h, 'l) pool multi_pool) option" where
  "multi_generic_request cfg fuel = core_multi_request (overflow_checks cfg) (generic_poolish cfg fuel)"

text \<open>No request changes how many pools there are, or the strategy.\<close>

lemma each_length: "each f ps = Some qs \<Longrightarrow> length qs = length ps"
  by (induction ps arbitrary: qs) (auto simp: bind_eq_Some_conv)

lemma next_pool_shape: "next_pool P lbs mp = Some (i, mp') \<Longrightarrow> pools mp' = pools mp \<and> mp_lbs mp' = mp_lbs mp"
  by (auto simp: next_pool_def Let_def split: if_splits)

lemma deliver_by_shape:
  "deliver_by P lbs a mp = Some (r, mp') \<Longrightarrow> length (pools mp') = length (pools mp) \<and> mp_lbs mp' = mp_lbs mp"
  by (auto simp: deliver_by_def bind_eq_Some_conv dest: next_pool_shape)

lemma dispatch_shape:
  assumes "dispatch P a mp = Some (r, mp')"
  shows "length (pools mp') = length (pools mp) \<and> mp_lbs mp' = mp_lbs mp"
proof (cases "mp_is_closed mp")
  case True
  with assms show ?thesis by (simp add: dispatch_def)
next
  case False
  with assms obtain r1 mp1 where d: "deliver_by P (mp_lbs mp) a mp = Some (r1, mp1)"
    by (cases "deliver_by P (mp_lbs mp) a mp") (auto simp: dispatch_def)
  note one = deliver_by_shape [OF d]
  show ?thesis
  proof (cases r1)
    case (Inr u)
    with assms False d one show ?thesis by (simp add: dispatch_def)
  next
    case (Inl eb)
    obtain e b where "eb = (e, b)" by (cases eb)
    with Inl assms False d one show ?thesis
      using deliver_by_shape [of P LEAST_TASKS b mp1] by (auto simp: dispatch_def split: if_splits)
  qed
qed

lemma multi_request_shape:
  assumes "core_multi_request oc P mp r = Some (a, mp')"
  shows "length (pools mp') = length (pools mp) \<and> mp_lbs mp' = mp_lbs mp"
  using assms
  by (cases r) (auto simp: mp_tune_def mp_release_context_def mp_release_timeout_def mp_reboot_def release_pools_def
      split: if_splits dest!: dispatch_shape each_length)

end
