(* ===== verification/Multi_Threads.thy ===== *)
theory Multi_Threads
  imports Multi_Pool_Core
begin

text \<open>
  The threads of a multi-pool of the crate's pools (\<open>MultiPoolCore\<close> of src/src/multipool.rs): its
  operations as step functions that interleave with each other and with all threads of all its pools. A
  call of a pool is a thread of Pool_Threads with a frame, which says what its caller goes on with
  when the pool has returned. Every read of a pool in the search for the least loaded one is a step
  of its own; \<open>release_pools\<close> spawns one thread for each pool and joins them in order.

  A context is shared by the pools; each pool keeps a copy, which the steps of this theory create,
  move on in time and cancel together. A handle of a context is the list of its copies' numbers.
\<close>

section \<open>State and program counters\<close>

text \<open>A thread of \<open>release_pools\<close>: its pool, the context it passes on, and what \<open>join\<close> will return.\<close>

record handle =
  handle_pool :: nat
  handle_ctx :: "nat option"
  handle_result :: "outcome option"

record ('t, 'h, 'l) multi_state =
  multi :: "('t, 'h, 'l) pool multi_pool"
  handles :: "handle list"

datatype attempt = First | Second

datatype frame = Nobody | Delivering attempt | Tuning i32 | Rebooting | Releasing nat

datatype multi_call = ContextRelease "nat list option" | TimeoutRelease "nat list"

datatype (plugins only:) 't mpc =
    In nat frame "'t pc"
  | MpSubmit 't | MpNext attempt 't | MpLeast attempt 't i32 i32 nat | MpDeliver attempt 't i32
  | MpDone 't | MpFail 't error | MpPanic 't
  | MpTune i32 nat | MpTuned
  | MpTimeout duration | MpRelease multi_call | MpSpawn multi_call "nat list" | MpJoin multi_call "nat list" "outcome list"
  | MpReturn multi_call "error + unit" | MpReleased multi_call "error + unit"
  | MpReboot | MpIndex | MpRebootNext nat | MpRebooted
  | MpClocks i64 nat | MpNewCtx "nat option" | MpUserCtx "nat list" | MpEnvDone

type_synonym ('t, 'h, 'l) multi_moves = "(('t, 'h, 'l) multi_state \<times> 't mpc list) list"

abbreviation mpools :: "('t, 'h, 'l) multi_state \<Rightarrow> ('t, 'h, 'l) pool list" where
  "mpools S \<equiv> pools (multi S)"

definition set_pools :: "('t, 'h, 'l) pool list \<Rightarrow> ('t, 'h, 'l) multi_state \<Rightarrow> ('t, 'h, 'l) multi_state" where
  "set_pools ps S = S\<lparr>multi := multi S\<lparr>pools := ps\<rparr>\<rparr>"

section \<open>Calls of a pool\<close>

text \<open>The first thread of a step carries on with the call, the others are new.\<close>

definition tag :: "nat \<Rightarrow> frame \<Rightarrow> 't pc list \<Rightarrow> 't mpc list" where
  "tag i fr ps = (case ps of [] \<Rightarrow> [] | p # spawned \<Rightarrow> In i fr p # map (In i Nobody) spawned)"

text \<open>What the caller does with the result of \<open>deliver\<close>.\<close>

definition after_failure :: "attempt \<Rightarrow> load_balancing_strategy \<Rightarrow> 't \<Rightarrow> error \<Rightarrow> 't mpc" where
  "after_failure a lbs t e =
     (if a = Second \<or> e \<noteq> PoolOverload \<or> lbs \<noteq> ROUND_ROBIN then MpFail t e else MpNext Second t)"

definition finish_handle :: "nat \<Rightarrow> outcome \<Rightarrow> handle list \<Rightarrow> handle list" where
  "finish_handle j r hs = hs[j := (hs ! j)\<lparr>handle_result := Some r\<rparr>]"

text \<open>A call that has returned leaves its thread behind in the pool, as a thread of nobody.\<close>

definition resume :: "('t, 'h, 'l) multi_state \<Rightarrow> nat \<Rightarrow> frame \<Rightarrow> 't pc \<Rightarrow> ('t, 'h, 'l) multi_moves" where
  "resume S i fr p =
     (case fr of
        Nobody \<Rightarrow> []
      | Delivering a \<Rightarrow>
          (case p of
             Sub (SubDone t) \<Rightarrow> [(S, [MpDone t, In i Nobody p])]
           | Sub (SubFail t e) \<Rightarrow> [(S, [after_failure a (mp_lbs (multi S)) t e, In i Nobody p])]
           | _ \<Rightarrow> [])
      | Tuning n \<Rightarrow> if p = Tun TuneDone then [(S, [MpTune n (i + 1), In i Nobody p])] else []
      | Rebooting \<Rightarrow> if p = Reb RebDone then [(S, [MpRebootNext (i + 1), In i Nobody p])] else []
      | Releasing j \<Rightarrow>
          (case p of
             Ctx (CtxResult k r) \<Rightarrow> [(S\<lparr>handles := finish_handle j (Returned r) (handles S)\<rparr>, [In i Nobody p])]
           | Rel RelAborted \<Rightarrow> [(S\<lparr>handles := finish_handle j Panicked (handles S)\<rparr>, [In i Nobody p])]
           | _ \<Rightarrow> []))"

definition in_moves :: "('t, 'l) config \<Rightarrow> ('t, 'h, 'l) multi_state \<Rightarrow> nat \<Rightarrow> frame \<Rightarrow> 't pc \<Rightarrow> ('t, 'h, 'l) multi_moves" where
  "in_moves cfg S i fr p =
     (if i < length (mpools S) then
        map (\<lambda>(s', ps). (set_pools ((mpools S)[i := s']) S, tag i fr ps)) (pool_moves cfg (mpools S ! i) p)
        @ resume S i fr p
      else [])"

section \<open>The operations\<close>

definition all_pools :: "(nat \<Rightarrow> ('t, 'h, 'l) pool \<Rightarrow> ('t, 'h, 'l) pool) \<Rightarrow> ('t, 'h, 'l) multi_state \<Rightarrow> ('t, 'h, 'l) multi_state" where
  "all_pools f S = set_pools (map (\<lambda>i. f i (mpools S ! i)) [0..<length (mpools S)]) S"

definition ctx_copies :: "('t, 'h, 'l) multi_state \<Rightarrow> nat list" where
  "ctx_copies S = map (\<lambda>s. length (ctxs s)) (mpools S)"

fun context_of :: "multi_call \<Rightarrow> nat \<Rightarrow> nat option" where
  "context_of (ContextRelease c) i = map_option (\<lambda>cs. cs ! i) c"
| "context_of (TimeoutRelease cs) i = Some (cs ! i)"

primrec multi_moves :: "('t, 'l) config \<Rightarrow> ('t, 'h, 'l) multi_state \<Rightarrow> 't mpc \<Rightarrow> ('t, 'h, 'l) multi_moves" where
  "multi_moves cfg S (In i fr p) = in_moves cfg S i fr p"
| "multi_moves cfg S (MpSubmit t) =
     [(S, [if mp_is_closed (multi S) then MpFail t PoolClosed else MpNext First t])]"
| "multi_moves cfg S (MpNext a t) =
     (let lbs = (if a = First then mp_lbs (multi S) else LEAST_TASKS)
      in if lbs = LEAST_TASKS then [(S, [MpLeast a t i32_max 0 0])]
         else (case next_pool (core_poolish cfg 0) lbs (multi S) of
                 None \<Rightarrow> [(S, [MpPanic t])]
               | Some (i, mp) \<Rightarrow> [(S\<lparr>multi := mp\<rparr>, [MpDeliver a t i])]))"
| "multi_moves cfg S (MpLeast a t least best c) =
     (if c < length (mpools S) then
        (let r = get_running (mpools S ! c)
         in [(S, [if r < least then MpLeast a t r (wrap_i32 (int c)) (c + 1) else MpLeast a t least best (c + 1)])])
      else [(S, [MpDeliver a t best])])"
| "multi_moves cfg S (MpDeliver a t i) =
     [(S, [if usize_of_i32 i < length (mpools S)
           then In (usize_of_i32 i) (Delivering a) (Sub (SubClosed t)) else MpPanic t])]"
| "multi_moves cfg S (MpDone t) = []"
| "multi_moves cfg S (MpFail t e) = []"
| "multi_moves cfg S (MpPanic t) = []"
| "multi_moves cfg S (MpTune n i) =
     [(S, [if i < length (mpools S) then In i (Tuning n) (Tun (TuneCap n)) else MpTuned])]"
| "multi_moves cfg S MpTuned = []"
| "multi_moves cfg S (MpTimeout d) =
     [(all_pools (\<lambda>i s. s\<lparr>ctxs := ctxs s @ [with_timeout (instant s) d]\<rparr>) S, [MpRelease (TimeoutRelease (ctx_copies S))])]"
| "multi_moves cfg S (MpRelease k) =
     (if mp_state (multi S) = OPENED
      then [(S\<lparr>multi := multi S\<lparr>mp_state := CLOSED\<rparr>\<rparr>, [MpSpawn k []])]
      else [(S, [MpReturn k (Inl PoolClosed)])])"
| "multi_moves cfg S (MpSpawn k js) =
     (let i = length js
      in if i < length (mpools S) then
           [(S\<lparr>handles := handles S @ [\<lparr>handle_pool = i, handle_ctx = context_of k i, handle_result = None\<rparr>]\<rparr>,
             [MpSpawn k (js @ [length (handles S)]),
              In i (Releasing (length (handles S))) (Ctx (CtxClosed (ContextCall (context_of k i))))])]
         else [(S, [MpJoin k js []])])"
| "multi_moves cfg S (MpJoin k js rs) =
     (if length rs < length js then
        (case handle_result (handles S ! (js ! length rs)) of
           None \<Rightarrow> []
         | Some r \<Rightarrow> [(S, [MpJoin k js (rs @ [r])])])
      else [(S, [MpReturn k (aggregate (map (\<lambda>(i, r). pool_outcome i r) (enumerate 0 rs)))])])"
| "multi_moves cfg S (MpReturn k r) =
     (case k of
        ContextRelease c \<Rightarrow> [(S, [MpReleased k r])]
      | TimeoutRelease cs \<Rightarrow> [(all_pools (\<lambda>i. cancel_ctx (cs ! i)) S, [MpReleased k r])])"
| "multi_moves cfg S (MpReleased k r) = []"
| "multi_moves cfg S MpReboot =
     (if mp_state (multi S) = CLOSED then [(S\<lparr>multi := multi S\<lparr>mp_state := OPENED\<rparr>\<rparr>, [MpIndex])] else [(S, [MpRebooted])])"
| "multi_moves cfg S MpIndex = [(S\<lparr>multi := multi S\<lparr>index := 0\<rparr>\<rparr>, [MpRebootNext 0])]"
| "multi_moves cfg S (MpRebootNext i) =
     [(S, [if i < length (mpools S) then In i Rebooting (Reb RebState) else MpRebooted])]"
| "multi_moves cfg S MpRebooted = []"
| "multi_moves cfg S (MpClocks w d) =
     [(all_pools (\<lambda>i s. s\<lparr>wall_clock := w, instant := instant s + d\<rparr>) S, [MpEnvDone])]"
| "multi_moves cfg S (MpNewCtx dl) =
     [(all_pools (\<lambda>i s. s\<lparr>ctxs := ctxs s @ [\<lparr>cancelled = event_new, deadline = dl\<rparr>]\<rparr>) S, [MpUserCtx (ctx_copies S)])]"
| "multi_moves cfg S (MpUserCtx cs) = [(all_pools (\<lambda>i. cancel_ctx (cs ! i)) S, [MpEnvDone])]"
| "multi_moves cfg S MpEnvDone = []"

inductive multi_entry :: "'t mpc \<Rightarrow> bool" where
  "multi_entry (MpSubmit t)"
| "in_i32 n \<Longrightarrow> multi_entry (MpTune n 0)"
| "multi_entry (MpRelease (ContextRelease c))"
| "multi_entry (MpTimeout d)"
| "multi_entry MpReboot"
| "multi_entry (MpClocks w d)"
| "multi_entry (MpNewCtx dl)"

definition multi_start :: "('t, 'h, 'l) multi_state \<Rightarrow> 't mpc multiset" where
  "multi_start S = (\<Sum>i<length (mpools S). image_mset (In i Nobody) (initial_threads (options (mpools S ! i))))"

definition multi_reachable ::
  "('t, 'l) config \<Rightarrow> ('t, 'h, 'l) multi_state \<Rightarrow> ('t, 'h, 'l) multi_state \<Rightarrow> 't mpc multiset \<Rightarrow> bool" where
  "multi_reachable cfg S0 = reachable (multi_moves cfg) S0 (multi_start S0) multi_entry"

end
