(* ===== verification/Multi_System.thy ===== *)
theory Multi_System
  imports Multi_Threads Pool_Ownership Pool_Shutdown
begin

text \<open>
  A multi-pool under full interleaving is, seen from each of its pools, a run of that pool: the
  projection of a reachable system onto pool \<open>i\<close> is reachable in the system of that pool alone. Every
  invariant of a pool therefore holds for the pools of a multi-pool.
\<close>

section \<open>The projection\<close>

text \<open>
  What a thread of the multi-pool is for pool \<open>i\<close>: the thread inside it, or the holder of the cancel
  function of a context it has a copy of.
\<close>

fun context_holder :: "nat \<Rightarrow> multi_call \<Rightarrow> 't pc multiset" where
  "context_holder i (ContextRelease c) = {#}"
| "context_holder i (TimeoutRelease cs) = {#Env (UserCtx (cs ! i))#}"

primrec proj :: "nat \<Rightarrow> 't mpc \<Rightarrow> 't pc multiset" where
  "proj i (In j fr p) = (if j = i then {#p#} else {#})"
| "proj i (MpSubmit t) = {#}" | "proj i (MpNext a t) = {#}" | "proj i (MpLeast a t l b c) = {#}"
| "proj i (MpDeliver a t n) = {#}" | "proj i (MpDone t) = {#}" | "proj i (MpFail t e) = {#}" | "proj i (MpPanic t) = {#}"
| "proj i (MpTune n j) = {#}" | "proj i MpTuned = {#}" | "proj i (MpTimeout d) = {#}"
| "proj i (MpRelease k) = context_holder i k" | "proj i (MpSpawn k js) = context_holder i k"
| "proj i (MpJoin k js rs) = context_holder i k" | "proj i (MpReturn k r) = context_holder i k"
| "proj i (MpReleased k r) = (case k of ContextRelease c \<Rightarrow> {#} | TimeoutRelease cs \<Rightarrow> {#Env EnvDone#})"
| "proj i MpReboot = {#}" | "proj i MpIndex = {#}" | "proj i (MpRebootNext j) = {#}" | "proj i MpRebooted = {#}"
| "proj i (MpClocks w d) = {#}" | "proj i (MpNewCtx dl) = {#}"
| "proj i (MpUserCtx cs) = {#Env (UserCtx (cs ! i))#}" | "proj i MpEnvDone = {#Env EnvDone#}"

text \<open>
  The calls of its pools that a thread of the multi-pool is still going to make are in \<open>E\<close>. A multi-pool
  submits, releases with a context and shares the environment with its pools in any case.
\<close>

fun calls_fit :: "('t pc \<Rightarrow> bool) \<Rightarrow> 't mpc \<Rightarrow> bool" where
  "calls_fit E (In i (Tuning n) p) \<longleftrightarrow> E (Tun (TuneCap n))"
| "calls_fit E (In i Rebooting p) \<longleftrightarrow> E (Reb RebState)"
| "calls_fit E (MpTune n i) \<longleftrightarrow> E (Tun (TuneCap n))"
| "calls_fit E MpReboot \<longleftrightarrow> E (Reb RebState)" | "calls_fit E MpIndex \<longleftrightarrow> E (Reb RebState)"
| "calls_fit E (MpRebootNext i) \<longleftrightarrow> E (Reb RebState)"
| "calls_fit E q \<longleftrightarrow> True"

definition usual_calls :: "('t pc \<Rightarrow> bool) \<Rightarrow> bool" where
  "usual_calls E \<longleftrightarrow> (\<forall>t. E (Sub (SubClosed t))) \<and> (\<forall>c. E (Ctx (CtxClosed (ContextCall c))))
     \<and> (\<forall>w d. E (Env (Clocks w d))) \<and> (\<forall>dl. E (Env (NewCtx dl)))"

lemma proj_tag: "sum_list (map (proj i) (tag j fr ps)) = (if j = i then mset ps else {#})"
proof (cases ps)
  case (Cons p spawned)
  have "sum_list (map (proj i) (map (In j Nobody) qs)) = (if j = i then mset qs else {#})" for qs :: "'a pc list"
    by (induction qs) auto
  with Cons show ?thesis by (simp add: tag_def)
qed (simp add: tag_def)

lemma mpools_set [simp]: "mpools (set_pools ps S) = ps"
  by (simp add: set_pools_def)

lemma all_pools_nth [simp]: "i < length (mpools S) \<Longrightarrow> mpools (all_pools f S) ! i = f i (mpools S ! i)"
  by (simp add: all_pools_def)

lemma all_pools_length [simp]: "length (mpools (all_pools f S)) = length (mpools S)"
  by (simp add: all_pools_def)

lemma ctx_copies_nth [simp]: "i < length (mpools S) \<Longrightarrow> ctx_copies S ! i = length (ctxs (mpools S ! i))"
  by (simp add: ctx_copies_def)

lemma next_pool_pools: "next_pool P lbs mp = Some (i, mp') \<Longrightarrow> pools mp' = pools mp"
  by (auto simp: next_pool_def Let_def split: if_splits)

section \<open>One step\<close>

abbreviation pool_system ::
  "('t pc \<Rightarrow> bool) \<Rightarrow> ('t, 'l) config \<Rightarrow> ('t, 'h, 'l) pool \<Rightarrow> ('t, 'h, 'l) pool \<Rightarrow> 't pc multiset \<Rightarrow> bool" where
  "pool_system E cfg s0 \<equiv> reachable (pool_moves cfg) s0 (initial_threads (options s0)) E"

lemma env_enter_move:
  assumes "pool_system E cfg s0 s M" and "E (Env e)" and "(s', ps) \<in> set (env_moves s e)"
  shows "pool_system E cfg s0 s' (mset ps + M)"
  using reachable.move [OF reachable.enter [OF assms(1,2)]] assms(3) by simp

lemma in_moves_cases:
  assumes "(S', qs) \<in> set (in_moves cfg S j fr p)"
  obtains (inside) s' ps where "j < length (mpools S)" "(s', ps) \<in> set (pool_moves cfg (mpools S ! j) p)"
      "S' = set_pools ((mpools S)[j := s']) S" "qs = tag j fr ps"
    | (returns) "j < length (mpools S)" "(S', qs) \<in> set (resume S j fr p)"
  using assms by (auto simp: in_moves_def split: if_splits)

lemma in_resume:
  "(S', qs) \<in> set (resume S i fr p) \<longleftrightarrow>
     (\<exists>a t. fr = Delivering a \<and> p = Sub (SubDone t) \<and> S' = S \<and> qs = [MpDone t, In i Nobody p])
   \<or> (\<exists>a t e. fr = Delivering a \<and> p = Sub (SubFail t e) \<and> S' = S
        \<and> qs = [after_failure a (mp_lbs (multi S)) t e, In i Nobody p])
   \<or> (\<exists>n. fr = Tuning n \<and> p = Tun TuneDone \<and> S' = S \<and> qs = [MpTune n (i + 1), In i Nobody p])
   \<or> (fr = Rebooting \<and> p = Reb RebDone \<and> S' = S \<and> qs = [MpRebootNext (i + 1), In i Nobody p])
   \<or> (\<exists>j k r. fr = Releasing j \<and> p = Ctx (CtxResult k r)
        \<and> S' = S\<lparr>handles := finish_handle j (Returned r) (handles S)\<rparr> \<and> qs = [In i Nobody p])
   \<or> (\<exists>j. fr = Releasing j \<and> p = Rel RelAborted
        \<and> S' = S\<lparr>handles := finish_handle j Panicked (handles S)\<rparr> \<and> qs = [In i Nobody p])"
proof (cases fr)
  case (Delivering a)
  then show ?thesis by (cases p; rename_tac q; case_tac q) (auto simp: resume_def)
next
  case (Releasing j)
  then show ?thesis by (cases p; rename_tac q; case_tac q) (auto simp: resume_def)
qed (auto simp: resume_def)

lemma after_failure_cases: "after_failure a lbs t e = MpFail t e \<or> after_failure a lbs t e = MpNext Second t"
  by (simp add: after_failure_def)

lemma resume_effect:
  assumes "(S', qs) \<in> set (resume S j fr p)"
  shows "multi S' = multi S \<and> sum_list (map (proj i) qs) = proj i (In j Nobody p)"
  using assms unfolding in_resume by (auto simp: after_failure_def)

lemma in_projects:
  assumes "i < length (mpools S)" and "pool_system E cfg s0 (mpools S ! i) (proj i (In j fr p) + X)"
    and "(S', qs) \<in> set (in_moves cfg S j fr p)"
  shows "length (mpools S') = length (mpools S) \<and> pool_system E cfg s0 (mpools S' ! i) (sum_list (map (proj i) qs) + X)"
  using assms(3)
proof (cases rule: in_moves_cases)
  case (inside s' ps)
  with assms(1,2) show ?thesis by (cases "j = i") (auto simp: proj_tag intro: reachable.move)
next
  case returns
  from resume_effect [OF returns(2), of i] assms(2) show ?thesis by simp
qed

lemma multi_projects:
  assumes i: "i < length (mpools S)" and reach: "pool_system E cfg s0 (mpools S ! i) (proj i q + X)"
    and calls: "usual_calls E" "calls_fit E q" and step: "(S', qs) \<in> set (multi_moves cfg S q)"
  shows "length (mpools S') = length (mpools S) \<and> pool_system E cfg s0 (mpools S' ! i) (sum_list (map (proj i) qs) + X)"
proof (cases q)
  case (In j fr p)
  with in_projects [OF i] reach step show ?thesis by simp
next
  case (MpTimeout d)
  let ?s = "mpools S ! i"
  have "(?s\<lparr>ctxs := ctxs ?s @ [with_timeout (instant ?s) d]\<rparr>, [Env (UserCtx (length (ctxs ?s)))])
      \<in> set (env_moves ?s (NewCtx (Some (instant ?s + to_std d))))"
    by (simp add: with_timeout_def)
  from env_enter_move [OF _ _ this] reach MpTimeout step i calls show ?thesis by (auto simp: usual_calls_def)
next
  case (MpClocks w d)
  let ?s = "mpools S ! i"
  have "(?s\<lparr>wall_clock := w, instant := instant ?s + d\<rparr>, [Env EnvDone]) \<in> set (env_moves ?s (Clocks w d))" by simp
  from env_enter_move [OF _ _ this] reach MpClocks step i calls show ?thesis by (auto simp: usual_calls_def)
next
  case (MpNewCtx dl)
  let ?s = "mpools S ! i"
  have "(?s\<lparr>ctxs := ctxs ?s @ [\<lparr>cancelled = event_new, deadline = dl\<rparr>]\<rparr>, [Env (UserCtx (length (ctxs ?s)))])
      \<in> set (env_moves ?s (NewCtx dl))" by simp
  from env_enter_move [OF _ _ this] reach MpNewCtx step i calls show ?thesis by (auto simp: usual_calls_def)
next
  case (MpUserCtx cs)
  have "pool_system E cfg s0 (cancel_ctx (cs ! i) (mpools S ! i)) (mset [Env EnvDone] + X)"
    by (rule reachable.move) (use reach MpUserCtx in auto)
  with MpUserCtx step i show ?thesis by auto
next
  case (MpReturn k r)
  show ?thesis
  proof (cases k)
    case (TimeoutRelease cs)
    have "pool_system E cfg s0 (cancel_ctx (cs ! i) (mpools S ! i)) (mset [Env EnvDone] + X)"
      by (rule reachable.move) (use reach MpReturn TimeoutRelease in auto)
    with MpReturn TimeoutRelease step i show ?thesis by auto
  qed (use MpReturn step reach in auto)
next
  case (MpNext a t)
  with step reach show ?thesis by (auto simp: Let_def split: if_splits option.splits dest: next_pool_pools)
qed (use calls step reach in \<open>auto simp: Let_def usual_calls_def split: if_splits option.splits intro: reachable.enter\<close>)

section \<open>All steps\<close>

lemma calls_fit_step:
  assumes "calls_fit E q" and "(S', qs) \<in> set (multi_moves cfg S q)"
  shows "list_all (calls_fit E) qs"
proof (cases q)
  case (In j fr p)
  with assms(2) have "(S', qs) \<in> set (in_moves cfg S j fr p)" by simp
  then show ?thesis
  proof (cases rule: in_moves_cases)
    case (inside s' ps)
    have "list_all (calls_fit E) (map (In j Nobody) (rs :: 'a pc list))" for rs by (induction rs) simp_all
    with inside assms(1) In show ?thesis by (cases ps; cases fr) (auto simp: tag_def)
  next
    case returns
    with assms(1) In show ?thesis by (auto simp: in_resume after_failure_def)
  qed
qed (use assms in \<open>auto simp: Let_def split: if_splits option.splits multi_call.splits\<close>)

lemma total_sum: "finite A \<Longrightarrow> total f (\<Sum>a\<in>A. g a) = (\<Sum>a\<in>A. total f (g a))"
  by (induction rule: finite_induct) simp_all

lemma total_image: "total f (image_mset g M) = total (\<lambda>x. f (g x)) M"
  by (induction M) simp_all

lemma total_single: "total (\<lambda>p. {#p#}) M = M"
  by (induction M) simp_all

lemma total_const_zero: "total (\<lambda>p. 0) M = 0"
  by (induction M) simp_all

lemma proj_start:
  assumes "i < length (mpools S)"
  shows "total (proj i) (multi_start S) = initial_threads (options (mpools S ! i))"
proof -
  have "total (proj i) (image_mset (In j Nobody) N) = (if j = i then N else {#})" for j and N :: "'a pc multiset"
    by (simp add: total_image total_single total_const_zero)
  then have "total (proj i) (multi_start S) =
      (\<Sum>j<length (mpools S). if j = i then initial_threads (options (mpools S ! i)) else {#})"
    by (auto simp: multi_start_def total_sum intro!: sum.cong)
  also have "\<dots> = initial_threads (options (mpools S ! i))" using assms by simp
  finally show ?thesis .
qed

lemma multi_start_fits: "q \<in># multi_start S \<Longrightarrow> calls_fit E q"
  by (auto simp: multi_start_def set_mset_sum)

lemma entry_unseen: "multi_entry q \<Longrightarrow> proj i q = {#}"
  by (auto elim!: multi_entry.cases)

text \<open>The systems whose multi-pool makes only calls in \<open>E\<close>.\<close>

abbreviation multi_system ::
  "('t pc \<Rightarrow> bool) \<Rightarrow> ('t, 'l) config \<Rightarrow> ('t, 'h, 'l) multi_state \<Rightarrow> ('t, 'h, 'l) multi_state \<Rightarrow> 't mpc multiset \<Rightarrow> bool" where
  "multi_system E cfg S0 \<equiv> reachable (multi_moves cfg) S0 (multi_start S0) (\<lambda>q. multi_entry q \<and> calls_fit E q)"

lemma multi_system_reachable: "multi_system E cfg S0 S M \<Longrightarrow> multi_reachable cfg S0 S M"
  unfolding multi_reachable_def by (erule reachable_mono) simp_all

lemma multi_reachable_system: "multi_reachable cfg S0 S M \<Longrightarrow> multi_system pool_entry cfg S0 S M"
  unfolding multi_reachable_def by (erule reachable_mono) (auto elim!: multi_entry.cases)

lemma pools_of_multi_system:
  assumes "multi_system E cfg S0 S M" and "usual_calls E" and "i < length (mpools S0)"
  shows "length (mpools S) = length (mpools S0) \<and> (\<forall>q \<in># M. calls_fit E q)
    \<and> pool_system E cfg (mpools S0 ! i) (mpools S ! i) (total (proj i) M)"
  using assms(1)
proof (induction rule: reachable.induct)
  case start
  show ?case using assms(3) multi_start_fits by (auto simp: proj_start reachable.start)
next
  case (enter S M q)
  then show ?case by (simp add: entry_unseen)
next
  case (move S q M S' qs)
  from move.IH have fit: "calls_fit E q" "\<forall>q \<in># M. calls_fit E q" and n: "length (mpools S) = length (mpools S0)"
    and r: "pool_system E cfg (mpools S0 ! i) (mpools S ! i) (proj i q + total (proj i) M)" by simp_all
  have "length (mpools S') = length (mpools S)
      \<and> pool_system E cfg (mpools S0 ! i) (mpools S' ! i) (sum_list (map (proj i) qs) + total (proj i) M)"
    by (rule multi_projects [OF _ r assms(2) fit(1) move.hyps(2)]) (use n assms(3) in simp)
  with n fit(2) calls_fit_step [OF fit(1) move.hyps(2)] show ?case by (auto simp: list_all_iff)
qed

lemma pools_of_multi:
  assumes "multi_reachable cfg S0 S M" and "i < length (mpools S0)"
  shows "pool_reachable cfg (mpools S0 ! i) (mpools S ! i) (total (proj i) M)"
  using pools_of_multi_system [OF multi_reachable_system [OF assms(1)] _ assms(2)]
  by (simp add: usual_calls_def pool_reachable_def)

end
