(* ===== verification/Multi_Tasks.thy ===== *)
theory Multi_Tasks
  imports Multi_System
begin

text \<open>
  What the pools of a multi-pool make of its tasks: a task that \<open>submit\<close> of the multi-pool has accepted is
  in exactly one of its pools, and the errors that its callers see are those of a pool.
\<close>

section \<open>Callers\<close>

text \<open>
  A thread of nobody is not on its way through \<open>try_submit\<close>, and every thread inside a pool is inside one
  that exists.
\<close>

fun submitting :: "'t pc \<Rightarrow> bool" where
  "submitting (Sub (SubClosed t)) \<longleftrightarrow> True" | "submitting (Sub (SubInput t w)) \<longleftrightarrow> True"
| "submitting (Ret p) \<longleftrightarrow> True"
| "submitting p \<longleftrightarrow> False"

fun placed :: "nat \<Rightarrow> 't mpc \<Rightarrow> bool" where
  "placed n (In i fr p) \<longleftrightarrow> i < n \<and> (fr = Nobody \<longrightarrow> \<not> submitting p)"
| "placed n q \<longleftrightarrow> True"

definition no_caller :: "'t pc \<Rightarrow> bool" where
  "no_caller p \<longleftrightarrow> \<not> submitting p \<and> (\<forall>t. p \<noteq> Sub (SubDone t))"

lemma not_submitting_step:
  assumes "\<not> submitting p" and "(s', ps) \<in> set (pool_moves cfg s p)"
  shows "list_all no_caller ps"
  using assms
  by (cases p; rename_tac q; case_tac q;
      auto simp: no_caller_def step_iffs split: step_splits call_result.splits)

lemma spawned_step:
  assumes "(s', p' # spawned) \<in> set (pool_moves cfg s p)"
  shows "list_all no_caller spawned"
  using assms
  by (cases p; rename_tac q; case_tac q;
      auto simp: no_caller_def step_iffs split: step_splits call_result.splits)

lemma placed_tag:
  assumes "i < n" and "(s', ps) \<in> set (pool_moves cfg s p)" and "fr = Nobody \<longrightarrow> \<not> submitting p"
  shows "list_all (placed n) (tag i fr ps)"
proof (cases ps)
  case (Cons p' spawned)
  have "list_all no_caller spawned" using spawned_step assms(2) Cons by blast
  then have "list_all (placed n) (map (In i Nobody) spawned)"
    using assms(1) by (auto simp: list_all_iff no_caller_def)
  moreover have "fr = Nobody \<longrightarrow> \<not> submitting p'"
    using not_submitting_step [OF _ assms(2)] assms(3) Cons by (auto simp: no_caller_def)
  ultimately show ?thesis using assms(1) Cons by (simp add: tag_def)
qed (simp add: tag_def)

lemma placed_step:
  assumes "placed (length (mpools S)) q" and "(S', qs) \<in> set (multi_moves cfg S q)"
  shows "list_all (placed (length (mpools S))) qs"
proof (cases q)
  case (In j fr p)
  with assms(2) have "(S', qs) \<in> set (in_moves cfg S j fr p)" by simp
  then show ?thesis
  proof (cases rule: in_moves_cases)
    case (inside s' ps)
    with assms(1) In show ?thesis by (simp add: placed_tag)
  next
    case returns
    then show ?thesis by (auto simp: in_resume after_failure_def)
  qed
qed (use assms in \<open>auto simp: Let_def split: if_splits option.splits multi_call.splits\<close>)

lemma length_step: "(S', qs) \<in> set (multi_moves cfg S q) \<Longrightarrow> length (mpools S') = length (mpools S)"
proof (cases q)
  case (In j fr p)
  moreover assume "(S', qs) \<in> set (multi_moves cfg S q)"
  ultimately have "(S', qs) \<in> set (in_moves cfg S j fr p)" by simp
  then show ?thesis by (cases rule: in_moves_cases) (auto dest: resume_effect)
next
  case (MpReturn k r)
  moreover assume "(S', qs) \<in> set (multi_moves cfg S q)"
  ultimately show ?thesis by (cases k) auto
qed (auto simp: Let_def split: if_splits option.splits dest: next_pool_pools)

lemma multi_placed:
  assumes "multi_reachable cfg S0 S M"
  shows "length (mpools S) = length (mpools S0) \<and> (\<forall>q \<in># M. placed (length (mpools S0)) q)"
  using assms unfolding multi_reachable_def
proof (induction rule: reachable.induct)
  case start
  show ?case by (auto simp: multi_start_def set_mset_sum dest!: initial_member)
next
  case (enter S M q)
  then show ?case by (auto elim: multi_entry.cases)
next
  case (move S q M S' qs)
  have "list_all (placed (length (mpools S))) qs" by (rule placed_step [OF _ move.hyps(2)]) (use move.IH in simp)
  with move.IH length_step [OF move.hyps(2)] show ?case by (auto simp: list_all_iff)
qed

section \<open>Accepted tasks\<close>

text \<open>The callers that \<open>submit\<close> has returned to, less the threads that were left behind in a pool.\<close>

fun returned_to :: "'t \<Rightarrow> 't mpc \<Rightarrow> int" where
  "returned_to t (MpDone u) = (if u = t then 1 else 0)"
| "returned_to t (In i Nobody (Sub (SubDone u))) = (if u = t then - 1 else 0)"
| "returned_to t q = 0"

lemma returned_to_no_caller: "no_caller p \<Longrightarrow> returned_to t (In i fr p) = 0"
  by (cases "(t, In i fr p)" rule: returned_to.cases) (auto simp: no_caller_def)

lemma returned_to_framed: "fr \<noteq> Nobody \<Longrightarrow> returned_to t (In i fr p) = 0"
  by (cases "(t, In i fr p)" rule: returned_to.cases) auto

lemma returned_to_tag:
  assumes "(s', ps) \<in> set (pool_moves cfg s p)" and "fr = Nobody \<longrightarrow> \<not> submitting p"
  shows "sum_list (map (returned_to t) (tag i fr ps)) = 0"
proof (cases ps)
  case (Cons p' spawned)
  have "list_all no_caller spawned" using spawned_step assms(1) Cons by blast
  then have "sum_list (map (returned_to t) (map (In i Nobody) spawned)) = 0"
    by (induction spawned) (simp_all add: returned_to_no_caller)
  moreover have "returned_to t (In i fr p') = 0"
    using not_submitting_step [OF _ assms(1)] assms(2) Cons returned_to_no_caller returned_to_framed by (cases fr) auto
  ultimately show ?thesis using Cons by (simp add: tag_def)
qed (simp add: tag_def)

lemma returned_to_step:
  assumes "placed n q" and "(S', qs) \<in> set (multi_moves cfg S q)"
  shows "sum_list (map (returned_to t) qs) = returned_to t q"
proof (cases q)
  case (In j fr p)
  with assms(2) have "(S', qs) \<in> set (in_moves cfg S j fr p)" by simp
  then show ?thesis
  proof (cases rule: in_moves_cases)
    case (inside s' ps)
    have "returned_to t (In j fr p) = 0"
      using inside(2) by (cases "(t, In j fr p)" rule: returned_to.cases) auto
    with inside assms(1) In show ?thesis using returned_to_tag [of s' ps cfg "mpools S ! j" p fr t j] by simp
  next
    case returns
    with In show ?thesis by (auto simp: in_resume after_failure_def)
  qed
qed (use assms in \<open>auto simp: Let_def split: if_splits option.splits multi_call.splits\<close>)

lemma returned_ledger:
  "ledger (multi_moves cfg) S0 (multi_start S0) multi_entry (\<lambda>S M. \<forall>q \<in># M. placed (length (mpools S0)) q)
    (returned_to t) (\<lambda>_ x. x = 0)"
proof (unfold_locales, goal_cases)
  case (1 S M)
  then have "multi_reachable cfg S0 S M" by (simp add: multi_reachable_def)
  from multi_placed [OF this] show ?case by blast
next
  case 2
  show ?case by (rule total_zero) (auto simp: multi_start_def set_mset_sum dest!: initial_member)
next
  case (3 q S x)
  then show ?case by (auto elim: multi_entry.cases)
next
  case (4 S q M S' qs)
  then show ?case using returned_to_step [of "length (mpools S0)" q S' qs cfg S t] by simp
qed

lemma returned_balanced: "multi_reachable cfg S0 S M \<Longrightarrow> total (returned_to t) M = 0"
  unfolding multi_reachable_def by (rule ledger.balanced [OF returned_ledger])

text \<open>The pools' accounts of a task, added up.\<close>

fun settled_in :: "'t \<Rightarrow> 't mpc \<Rightarrow> int" where
  "settled_in t (In i fr p) = settled t p"
| "settled_in t q = 0"

lemma settled_holder [simp]: "total (settled t) (context_holder i k) = 0"
  by (cases k) simp_all

lemma settled_proj: "total (settled t) (proj i q) = (case q of In j fr p \<Rightarrow> if j = i then settled t p else 0 | _ \<Rightarrow> 0)"
  by (cases q) (auto split: multi_call.splits)

lemma settled_pools:
  "\<forall>q \<in># M. placed n q \<Longrightarrow> (\<Sum>i<n. total (settled t) (total (proj i) M)) = total (settled_in t) M"
proof (induction M)
  case (add q M)
  have "(\<Sum>i<n. total (settled t) (proj i q)) = settled_in t q"
  proof (cases q)
    case (In j fr p)
    then have "(\<Sum>i<n. total (settled t) (proj i q)) = (\<Sum>i<n. if i = j then settled t p else 0)"
      unfolding settled_proj by (intro sum.cong) auto
    also have "\<dots> = settled t p" using In add.prems by simp
    finally show ?thesis using In by simp
  qed (simp_all split: multi_call.split)
  with add show ?case by (simp add: sum.distrib)
qed simp

definition carried_out :: "'t \<Rightarrow> ('t, 'h, 'l) multi_state \<Rightarrow> nat" where
  "carried_out t S = (\<Sum>i<length (mpools S). count_list (executed (mpools S ! i)) t + in_mail t (mail (mpools S ! i)))"

lemma tasks_split:
  "total (settled_in t) M + total (returned_to t) M
     = int (count M (MpDone t)) + int (size (filter_mset (\<lambda>q. \<exists>i fr. fr \<noteq> Nobody \<and> q = In i fr (Sub (SubDone t))) M))
       - int (size (filter_mset (\<lambda>q. \<exists>i fr w. q = In i fr (Wrk (WorkCall w t))) M))"
proof (induction M)
  case (add q M)
  show ?case
  proof (cases q)
    case (In i fr p)
    with add show ?thesis
      by (cases p; rename_tac r; case_tac r; cases fr) auto
  qed (use add in auto)
qed simp

lemma multi_tasks_balanced:
  assumes "multi_reachable cfg S0 S M" and "\<forall>s0 \<in> set (mpools S0). started s0"
  shows "total (settled_in t) M = int (carried_out t S)"
proof -
  let ?n = "length (mpools S0)"
  note p = multi_placed [OF assms(1)]
  have "total (settled t) (total (proj i) M)
      = int (count_list (executed (mpools S ! i)) t + in_mail t (mail (mpools S ! i)))" if "i < ?n" for i
    using task_balanced [OF _ pools_of_multi [OF assms(1) that], of t] assms(2) that
    by (simp add: task_book_def)
  then have "(\<Sum>i<?n. total (settled t) (total (proj i) M)) = int (carried_out t S)"
    using p by (simp add: carried_out_def)
  with settled_pools [of M ?n t] p show ?thesis by simp
qed

section \<open>Errors\<close>

fun error_seen :: "'t mpc \<Rightarrow> bool" where
  "error_seen (MpFail t e) \<longleftrightarrow> e = PoolClosed \<or> e = PoolOverload"
| "error_seen q \<longleftrightarrow> True"

lemma multi_errors:
  assumes "multi_reachable cfg S0 S M"
  shows "\<forall>q \<in># M. error_seen q"
  using assms unfolding multi_reachable_def
proof (induction rule: reachable.induct)
  case start
  show ?case by (auto simp: multi_start_def set_mset_sum)
next
  case (enter S M q)
  then show ?case by (auto elim: multi_entry.cases)
next
  case (move S q M S' qs)
  have reach: "multi_reachable cfg S0 S (add_mset q M)" using move.hyps(1) by (simp add: multi_reachable_def)
  have "list_all error_seen qs"
  proof (cases "\<exists>i fr p. q = In i fr p")
    case True
    then obtain i fr p where q: "q = In i fr p" by blast
    have i: "i < length (mpools S0)" using multi_placed [OF reach] q by simp
    have "p \<in># total (proj i) (add_mset q M)" using q by simp
    then have fits: "error_fits (options (mpools S0 ! i)) p"
      using errors_fit pools_of_multi [OF reach i] by blast
    have "(S', qs) \<in> set (in_moves cfg S i fr p)" using move.hyps(2) q by simp
    then show ?thesis
    proof (cases rule: in_moves_cases)
      case (inside s' ps)
      then show ?thesis by (cases ps) (auto simp: tag_def list_all_iff)
    next
      case returns
      then show ?thesis using fits by (auto simp: in_resume after_failure_def overload_possible_def)
    qed
  next
    case False
    with move.hyps(2) show ?thesis
      by (cases q) (auto simp: Let_def split: if_splits option.splits multi_call.splits)
  qed
  with move.IH show ?case by (auto simp: list_all_iff)
qed

section \<open>The choice of a pool\<close>

text \<open>A pool that \<open>next\<close> picked exists, so that no caller panics on an index out of bounds.\<close>

fun picks_exist :: "nat \<Rightarrow> 't mpc \<Rightarrow> bool" where
  "picks_exist n (MpDeliver a t i) \<longleftrightarrow> 0 \<le> i \<and> i < int n"
| "picks_exist n (MpLeast a t l b c) \<longleftrightarrow> 0 \<le> b \<and> b < int n"
| "picks_exist n (MpPanic t) \<longleftrightarrow> False"
| "picks_exist n q \<longleftrightarrow> True"

definition multi_valid :: "('t, 'h, 'l) multi_state \<Rightarrow> bool" where
  "multi_valid S \<longleftrightarrow> mp_sized (multi S) \<and> (mp_lbs (multi S) = ROUND_ROBIN \<or> mp_lbs (multi S) = LEAST_TASKS)"

lemma valid_step:
  assumes "multi_valid S" and "(S', qs) \<in> set (multi_moves cfg S q)"
  shows "multi_valid S'"
proof (cases q)
  case (In j fr p)
  with assms(2) have "(S', qs) \<in> set (in_moves cfg S j fr p)" by simp
  then show ?thesis
  proof (cases rule: in_moves_cases)
    case (inside s' ps)
    with assms(1) show ?thesis by (auto simp: multi_valid_def mp_sized_def set_pools_def)
  next
    case returns
    with resume_effect [OF returns(2)] assms(1) show ?thesis by (simp add: multi_valid_def)
  qed
next
  case (MpNext a t)
  with assms next_round_robin [of "multi S" "core_poolish cfg 0"] show ?thesis
    by (auto simp: multi_valid_def mp_sized_def Let_def split: if_splits)
qed (use assms in \<open>auto simp: multi_valid_def mp_sized_def all_pools_def set_pools_def Let_def
      split: if_splits option.splits multi_call.splits\<close>)

lemma picks_exist_In [simp]: "list_all (picks_exist n) (tag i fr ps)"
  by (cases ps) (auto simp: tag_def list_all_iff)

lemma picks_exist_step:
  assumes valid: "multi_valid S" and "picks_exist (length (mpools S)) q" and "(S', qs) \<in> set (multi_moves cfg S q)"
  shows "list_all (picks_exist (length (mpools S))) qs"
proof (cases q)
  case (In j fr p)
  with assms(3) have "(S', qs) \<in> set (in_moves cfg S j fr p)" by simp
  then show ?thesis
    by (cases rule: in_moves_cases) (auto simp: in_resume after_failure_def)
next
  case (MpNext a t)
  have "0 < length (mpools S)" using valid by (simp add: multi_valid_def mp_sized_def)
  with MpNext assms next_round_robin [of "multi S" "core_poolish cfg 0"] show ?thesis
    by (auto simp: multi_valid_def Let_def of_nat_mod split: if_splits)
next
  case (MpLeast a t l b c)
  have "wrap_i32 (int c) = int c" if "c < length (mpools S)"
    using that valid by (simp add: multi_valid_def mp_sized_def wrap_i32_in in_i32_def)
  with MpLeast assms show ?thesis by (auto simp: Let_def split: if_splits)
next
  case (MpDeliver a t i)
  then have "in_i32 i" using assms(1,2) by (simp add: multi_valid_def mp_sized_def in_i32_def)
  with MpDeliver assms(2,3) show ?thesis by (auto simp: usize_of_i32_nonneg)
qed (use assms in \<open>auto simp: Let_def split: if_splits option.splits multi_call.splits\<close>)

lemma multi_picks:
  assumes "multi_reachable cfg S0 S M" and "multi_valid S0"
  shows "multi_valid S \<and> (\<forall>q \<in># M. picks_exist (length (mpools S0)) q)"
  using assms(1) unfolding multi_reachable_def
proof (induction rule: reachable.induct)
  case start
  show ?case using assms(2) by (auto simp: multi_start_def set_mset_sum)
next
  case (enter S M q)
  then show ?case by (auto elim: multi_entry.cases)
next
  case (move S q M S' qs)
  have "length (mpools S) = length (mpools S0)"
    using multi_placed [of cfg S0 S "add_mset q M"] move.hyps(1) by (simp add: multi_reachable_def)
  with move.IH valid_step [OF _ move.hyps(2)] picks_exist_step [OF _ _ move.hyps(2)] show ?case
    by (auto simp: list_all_iff)
qed

end
