(* ===== verification/Pool_Typing.thy ===== *)
theory Pool_Typing
  imports Pool_Locking
begin

text \<open>
  Well-formedness of a pool at every moment: the counters are 32-bit values, the flags and the state
  have one of their values, the capacity is positive or minus one, and no reference dangles: the
  contexts and latches that the pool and its threads refer to exist, so that no step of Pool_Threads reads
  a list of heap objects out of range. (That the workers exist is part of the accounting in
  Pool_Ownership.) A context that a user passes to \<open>release_context\<close> is the user's.
\<close>

section \<open>References\<close>

abbreviation refs_of :: "nat option \<Rightarrow> nat list" where
  "refs_of r \<equiv> (case r of None \<Rightarrow> [] | Some c \<Rightarrow> [c])"

fun call_refs :: "ctx_call \<Rightarrow> nat list" where
  "call_refs (ContextCall c) = []"
| "call_refs (TimeoutCall c) = [c]"

fun after_refs :: "after_release \<Rightarrow> nat list" where
  "after_refs ReleaseReturns = []"
| "after_refs (ContextGoesOn k p t) = call_refs k @ refs_of p @ refs_of t"

text \<open>The contexts a thread refers to, other than one a user passed to it.\<close>

primrec rel_ctxs :: "release_pc \<Rightarrow> nat list" where
  "rel_ctxs (RelCas a) = after_refs a" | "rel_ctxs (RelTakePurge a) = after_refs a"
| "rel_ctxs (RelCancelPurge a c) = c # after_refs a" | "rel_ctxs (RelTakeTick a) = after_refs a"
| "rel_ctxs (RelCancelTick a c) = c # after_refs a" | "rel_ctxs (RelLock a) = after_refs a"
| "rel_ctxs (RelReset a) = after_refs a" | "rel_ctxs (RelFinish a ws) = after_refs a"
| "rel_ctxs (RelBroadcast a) = after_refs a" | "rel_ctxs (RelRunning a) = after_refs a"
| "rel_ctxs (RelAllDone a) = after_refs a" | "rel_ctxs (RelClose a e) = after_refs a"
| "rel_ctxs (RelReturn a) = after_refs a" | "rel_ctxs RelDone = []" | "rel_ctxs RelUnwind = []"
| "rel_ctxs RelAborted = []"

primrec call_ctxs :: "context_pc \<Rightarrow> nat list" where
  "call_ctxs (CtxClosed k) = call_refs k" | "call_ctxs (CtxStopPurge k) = call_refs k"
| "call_ctxs (CtxStopTick k) = call_refs k" | "call_ctxs (CtxPurgeCtx k) = call_refs k"
| "call_ctxs (CtxTickCtx k p) = call_refs k @ refs_of p"
| "call_ctxs (CtxAllDone k x p t) = call_refs k @ refs_of p @ refs_of t"
| "call_ctxs (CtxLoop k x p t e) = call_refs k @ refs_of p @ refs_of t"
| "call_ctxs (CtxErr k x p t e) = call_refs k @ refs_of p @ refs_of t"
| "call_ctxs (CtxSlice k x p t e) = call_refs k @ refs_of p @ refs_of t"
| "call_ctxs (CtxPurgeWait k x p t e) = call_refs k @ refs_of p @ refs_of t"
| "call_ctxs (CtxTickWait k x p t e) = call_refs k @ refs_of p @ refs_of t"
| "call_ctxs (CtxRunning k x p t e) = call_refs k @ refs_of p @ refs_of t"
| "call_ctxs (CtxPurgeDone k x p t e) = call_refs k @ refs_of p @ refs_of t"
| "call_ctxs (CtxTickDone k x p t e) = call_refs k @ refs_of p @ refs_of t"
| "call_ctxs (CtxErrAgain k x p t e) = call_refs k @ refs_of p @ refs_of t"
| "call_ctxs (CtxReturn k r) = call_refs k" | "call_ctxs (CtxResult k r) = call_refs k"

fun pc_ctxs :: "'t pc \<Rightarrow> nat list" where
  "pc_ctxs (Rel p) = rel_ctxs p" | "pc_ctxs (Ctx p) = call_ctxs p"
| "pc_ctxs (Tmo (TimeoutCancel c r)) = [c]"
| "pc_ctxs (Reb (RebPurgeStop c)) = [c]" | "pc_ctxs (Reb (RebTickStop c)) = [c]"
| "pc_ctxs (Pur (PurgeTick c)) = [c]" | "pc_ctxs (Pur (PurgeClosed c)) = [c]" | "pc_ctxs (Pur (PurgeLock c)) = [c]"
| "pc_ctxs (Pur (PurgeRefresh c)) = [c]" | "pc_ctxs (Pur (PurgeRunning c ws)) = [c]"
| "pc_ctxs (Pur (PurgeUnlock c ws d)) = [c]" | "pc_ctxs (Pur (PurgeFinish c ws d)) = [c]"
| "pc_ctxs (Pur (PurgeWaiting c d)) = [c]" | "pc_ctxs (Pur (PurgeBroadcast c)) = [c]"
| "pc_ctxs (Tck (TickTick c)) = [c]" | "pc_ctxs (Tck (TickClosed c)) = [c]" | "pc_ctxs (Tck (TickStore c)) = [c]"
| "pc_ctxs (Env (UserCtx c)) = [c]"
| "pc_ctxs _ = []"

text \<open>The latches a thread has read.\<close>

fun pc_events :: "'t pc \<Rightarrow> nat list" where
  "pc_events (Wrk (WorkClose w p e)) = [e]" | "pc_events (Rel (RelClose a e)) = [e]"
| "pc_events (Reb (RebWait e)) = [e]"
| "pc_events (Ctx (CtxLoop k x p t e)) = [e]" | "pc_events (Ctx (CtxErr k x p t e)) = [e]"
| "pc_events (Ctx (CtxSlice k x p t e)) = [e]" | "pc_events (Ctx (CtxPurgeWait k x p t e)) = [e]"
| "pc_events (Ctx (CtxTickWait k x p t e)) = [e]" | "pc_events (Ctx (CtxRunning k x p t e)) = [e]"
| "pc_events (Ctx (CtxPurgeDone k x p t e)) = [e]" | "pc_events (Ctx (CtxTickDone k x p t e)) = [e]"
| "pc_events (Ctx (CtxErrAgain k x p t e)) = [e]"
| "pc_events _ = []"

text \<open>The size a call of \<open>tune\<close> still has to store.\<close>

fun tunes_sanely :: "'t pc \<Rightarrow> bool" where
  "tunes_sanely (Tun (TuneCap n)) \<longleftrightarrow> in_i32 n"
| "tunes_sanely (Tun (TuneStore n k)) \<longleftrightarrow> 0 < n \<and> in_i32 n"
| "tunes_sanely _ \<longleftrightarrow> True"

section \<open>The invariant\<close>

definition counters_wf :: "('t, 'h, 'l) pool \<Rightarrow> bool" where
  "counters_wf s \<longleftrightarrow> in_i32 (running s) \<and> in_i32 (waiting s) \<and> (pool_state s = OPENED \<or> pool_state s = CLOSED)
     \<and> (purge_done s = 0 \<or> purge_done s = 1) \<and> (ticktock_done s = 0 \<or> ticktock_done s = 1)"

definition capacity_wf :: "('t, 'h, 'l) pool \<Rightarrow> bool" where
  "capacity_wf s \<longleftrightarrow> in_i32 (capacity s) \<and> (capacity s = - 1 \<or> 0 < capacity s)"

definition below :: "nat \<Rightarrow> nat option \<Rightarrow> bool" where
  "below n r \<longleftrightarrow> (case r of None \<Rightarrow> True | Some c \<Rightarrow> c < n)"

definition refs_wf :: "('t, 'h, 'l) pool \<Rightarrow> bool" where
  "refs_wf s \<longleftrightarrow> all_done s < length (events s)
     \<and> below (length (ctxs s)) (purge_ctx s) \<and> below (length (ctxs s)) (stop_purge s)
     \<and> below (length (ctxs s)) (ticktock_ctx s) \<and> below (length (ctxs s)) (stop_ticktock s)"

definition pc_wf :: "('t, 'h, 'l) pool \<Rightarrow> 't pc \<Rightarrow> bool" where
  "pc_wf s p \<longleftrightarrow> list_all (\<lambda>c. c < length (ctxs s)) (pc_ctxs p) \<and> list_all (\<lambda>e. e < length (events s)) (pc_events p)"

definition pool_wf :: "('t, 'h, 'l) pool \<Rightarrow> 't pc multiset \<Rightarrow> bool" where
  "pool_wf s M \<longleftrightarrow> counters_wf s \<and> capacity_wf s \<and> refs_wf s \<and> (\<forall>p \<in># M. pc_wf s p \<and> tunes_sanely p)"

definition grows :: "('t, 'h, 'l) pool \<Rightarrow> ('t, 'h, 'l) pool \<Rightarrow> bool" where
  "grows s s' \<longleftrightarrow> length (ctxs s) \<le> length (ctxs s') \<and> length (events s) \<le> length (events s')"

lemma below_simps [simp]: "below n None" "below n (Some c) \<longleftrightarrow> c < n"
  by (simp_all add: below_def)

lemma below_eq: "Some c = r \<Longrightarrow> below n r \<Longrightarrow> c < n"
  by auto

lemma below_mono: "below n r \<Longrightarrow> n \<le> m \<Longrightarrow> below m r"
  by (cases r) auto

lemma list_all_below: "list_all (\<lambda>c. c < n) (refs_of r) \<longleftrightarrow> below n r"
  by (cases r) simp_all

lemma list_all_le: "list_all (\<lambda>c. c < n) xs \<Longrightarrow> n \<le> (m :: nat) \<Longrightarrow> list_all (\<lambda>c. c < m) xs"
  by (auto simp: list_all_iff)

lemma pc_wf_grows: "pc_wf s p \<Longrightarrow> grows s s' \<Longrightarrow> pc_wf s' p"
  by (auto simp: pc_wf_def grows_def intro: list_all_le)

lemma tune_plan_positive: "tune_plan opts c n = Some k \<Longrightarrow> 0 < n"
  by (simp add: tune_plan_def split: if_splits)

lemma grows_step: "(s', ps) \<in> set (pool_moves cfg s p) \<Longrightarrow> grows s s'"
  by (cases p; rename_tac q; case_tac q; auto simp: grows_def step_iffs pool_updates split: step_splits)

lemma counters_step:
  "counters_wf s \<Longrightarrow> (s', ps) \<in> set (pool_moves cfg s p) \<Longrightarrow> counters_wf s'"
  by (cases p; rename_tac q; case_tac q; auto simp: counters_wf_def step_iffs pool_updates split: step_splits)

lemma capacity_step:
  "capacity_wf s \<Longrightarrow> tunes_sanely p \<Longrightarrow> (s', ps) \<in> set (pool_moves cfg s p) \<Longrightarrow>
    capacity_wf s' \<and> list_all tunes_sanely ps"
  by (cases p; rename_tac q; case_tac q;
      auto simp: capacity_wf_def step_iffs pool_updates tune_plan_positive split: step_splits call_result.splits)

lemma refs_step_other:
  assumes "refs_wf s" and "\<forall>q. p \<noteq> Reb q" and "(s', ps) \<in> set (pool_moves cfg s p)"
  shows "refs_wf s'"
  using assms
  by (cases p; rename_tac q; case_tac q;
      auto simp: refs_wf_def step_iffs pool_updates less_SucI intro: below_mono split: step_splits)

lemma refs_step_reboot:
  "refs_wf s \<Longrightarrow> pc_wf s (Reb q) \<Longrightarrow> (s', ps) \<in> set (reboot_moves s q) \<Longrightarrow> refs_wf s'"
  by (cases q) (auto simp: refs_wf_def pc_wf_def pool_updates intro: below_mono split: if_splits)

lemma refs_step:
  assumes "refs_wf s" and "pc_wf s p" and "(s', ps) \<in> set (pool_moves cfg s p)"
  shows "refs_wf s'"
proof (cases "\<exists>q. p = Reb q")
  case True
  with assms refs_step_reboot show ?thesis by auto
next
  case False
  then show ?thesis using refs_step_other [OF assms(1) _ assms(3)] by blast
qed

section \<open>What a thread refers to\<close>

lemma after_wf: "pc_wf s p \<Longrightarrow> set (pc_ctxs q) \<subseteq> set (pc_ctxs p) \<Longrightarrow> set (pc_events q) \<subseteq> set (pc_events p) \<Longrightarrow> pc_wf s q"
  by (auto simp: pc_wf_def list_all_iff)

text \<open>A step keeps the references of its thread and adds only ones that exist.\<close>

definition new_refs :: "('t, 'h, 'l) pool \<Rightarrow> 't pc \<Rightarrow> ('t, 'h, 'l) pool \<Rightarrow> 't pc \<Rightarrow> bool" where
  "new_refs s p s' q \<longleftrightarrow>
     (\<forall>c \<in> set (pc_ctxs q). c \<in> set (pc_ctxs p) \<or> c < length (ctxs s'))
   \<and> (\<forall>e \<in> set (pc_events q). e \<in> set (pc_events p) \<or> e < length (events s'))"

lemma new_refs_wf: "pc_wf s p \<Longrightarrow> grows s s' \<Longrightarrow> new_refs s p s' q \<Longrightarrow> pc_wf s' q"
  by (fastforce simp: pc_wf_def new_refs_def grows_def list_all_iff)

lemma release_new_refs:
  "refs_wf s \<Longrightarrow> (s', ps) \<in> set (release_moves cfg s q) \<Longrightarrow> list_all (new_refs s (Rel q) s') ps"
  by (cases q) (auto simp: refs_wf_def new_refs_def step_iffs pool_updates split: if_splits option.splits)

lemma context_new_refs:
  "refs_wf s \<Longrightarrow> (s', ps) \<in> set (context_moves s q) \<Longrightarrow> list_all (new_refs s (Ctx q) s') ps"
  by (cases q) (auto simp: refs_wf_def new_refs_def dest: below_eq split: if_splits option.splits ctx_call.splits)

lemma reboot_new_refs:
  "refs_wf s \<Longrightarrow> (s', ps) \<in> set (reboot_moves s q) \<Longrightarrow> list_all (new_refs s (Reb q) s') ps"
  by (cases q) (auto simp: refs_wf_def new_refs_def pool_updates split: if_splits)

lemma purge_new_refs:
  "refs_wf s \<Longrightarrow> (s', ps) \<in> set (purge_moves cfg s q) \<Longrightarrow> list_all (new_refs s (Pur q) s') ps"
  by (cases q) (auto simp: refs_wf_def new_refs_def step_iffs pool_updates split: if_splits option.splits)

lemma ticktock_new_refs:
  "refs_wf s \<Longrightarrow> (s', ps) \<in> set (ticktock_moves s q) \<Longrightarrow> list_all (new_refs s (Tck q) s') ps"
  by (cases q) (auto simp: refs_wf_def new_refs_def split: if_splits option.splits)

lemma worker_new_refs:
  "refs_wf s \<Longrightarrow> (s', ps) \<in> set (worker_moves cfg s q) \<Longrightarrow> list_all (new_refs s (Wrk q) s') ps"
  by (cases q) (auto simp: refs_wf_def new_refs_def step_iffs pool_updates split: if_splits)

lemma step_new_refs:
  assumes "refs_wf s" and "(s', ps) \<in> set (pool_moves cfg s p)"
  shows "list_all (new_refs s p s') ps"
proof (cases p)
  case (Sub q)
  with assms(2) show ?thesis by (cases q) (auto simp: new_refs_def step_iffs)
next
  case (Ret q)
  with assms(2) show ?thesis by (cases q) (auto simp: new_refs_def step_iffs)
next
  case (Rev q)
  with assms(2) show ?thesis by (cases q) (auto simp: new_refs_def step_iffs)
next
  case (Tmo q)
  with assms(2) show ?thesis by (cases q) (auto simp: new_refs_def)
next
  case (Tun q)
  with assms(2) show ?thesis by (cases q) (auto simp: new_refs_def step_iffs)
next
  case (Env q)
  with assms(2) show ?thesis by (cases q) (auto simp: new_refs_def)
qed (use assms release_new_refs context_new_refs reboot_new_refs purge_new_refs ticktock_new_refs worker_new_refs in auto)

lemma pool_wf_reachable:
  assumes new: "counters_wf s0" "capacity_wf s0" "refs_wf s0" and "pool_reachable cfg s0 s M"
  shows "pool_wf s M"
  using assms(4) unfolding pool_reachable_def
proof (induction rule: reachable.induct)
  case start
  show ?case using new by (auto simp: pool_wf_def pc_wf_def dest!: initial_member)
next
  case (enter s M p)
  then show ?case by (auto simp: pool_wf_def pc_wf_def elim!: pool_entry.cases)
next
  case (move s p M s' ps)
  from move.IH have wf: "counters_wf s" "capacity_wf s" "refs_wf s" "pc_wf s p" "tunes_sanely p"
    and rest: "\<forall>q \<in># M. pc_wf s q \<and> tunes_sanely q" by (simp_all add: pool_wf_def)
  note step = move.hyps(2)
  have "\<forall>q \<in> set ps. pc_wf s' q"
    using step_new_refs [OF wf(3) step] new_refs_wf [OF wf(4) grows_step [OF step]] by (simp add: list_all_iff)
  with rest pc_wf_grows [OF _ grows_step [OF step]] counters_step [OF wf(1) step]
    capacity_step [OF wf(2,5) step] refs_step [OF wf(3,4) step]
  show ?case by (auto simp: pool_wf_def list_all_iff)
qed

lemma core_new_wf:
  assumes "core_new dflt clock n opts = Some (Inr s)" and "n \<le> i32_max"
  shows "counters_wf s \<and> capacity_wf s \<and> refs_wf s"
  using assms
  by (auto simp: core_new_def Let_def normal_size_def empty_pool_def go_purge_def go_ticktock_def
      publish_purge_ctx_def publish_ticktock_ctx_def counters_wf_def capacity_wf_def refs_wf_def in_i32_def
      split: if_splits)

end
