(* ===== verification/Pool_Release.thy ===== *)
theory Pool_Release
  imports Pool_Shutdown Pool_Typing
begin

text \<open>
  What a caller of \<open>release_context\<close> or \<open>release_timeout\<close> may rely on: a release that reports success
  after waiting leaves a closed pool whose background threads have exited, and the error it reports
  otherwise says what happened. The latter needs that nobody else can cancel the private context of
  \<open>release_timeout\<close>: every context that is still live has one holder of its cancel function.
\<close>

section \<open>A completed release\<close>

text \<open>\<open>True\<close> for a thread in \<open>purge_stale_workers\<close>, \<open>False\<close> for one in \<open>ticktock\<close>.\<close>

fun background_of :: "'t pc \<Rightarrow> bool multiset" where
  "background_of (Pur PurgeDone) = {#}" | "background_of (Pur p) = {#True#}"
| "background_of (Tck TickDone) = {#}" | "background_of (Tck q) = {#False#}"
| "background_of _ = {#}"

text \<open>
  How far a release has got: the pool is closed (1), \<open>purge_done\<close> has been seen (2),
  \<open>ticktock_done\<close> as well (3).
\<close>

definition result_level :: "ctx_call \<Rightarrow> error + unit \<Rightarrow> nat" where
  "result_level k r = (if r \<noteq> Inr () then 0 else if callers_ctx k = None then 1 else 3)"

fun release_level :: "'t pc \<Rightarrow> nat" where
  "release_level (Rel (RelCas a)) = 0" | "release_level (Rel RelUnwind) = 0"
| "release_level (Rel RelAborted) = 0" | "release_level (Rel p) = 1"
| "release_level (Ctx (CtxClosed k)) = 0" | "release_level (Ctx (CtxStopPurge k)) = 0"
| "release_level (Ctx (CtxStopTick k)) = 0" | "release_level (Ctx (CtxPurgeCtx k)) = 0"
| "release_level (Ctx (CtxTickCtx k p)) = 0" | "release_level (Ctx (CtxTickDone k x p t e)) = 2"
| "release_level (Ctx (CtxReturn k r)) = result_level k r"
| "release_level (Ctx (CtxResult k r)) = result_level k r"
| "release_level (Ctx p) = 1"
| "release_level (Tmo (TimeoutCancel c r)) = result_level (TimeoutCall c) r"
| "release_level (Tmo (TimeoutResult r)) = (if r = Inr () then 3 else 0)"
| "release_level _ = 0"

definition level_fits :: "('t, 'h, 'l) pool \<Rightarrow> nat \<Rightarrow> bool" where
  "level_fits s n \<longleftrightarrow> (1 \<le> n \<longrightarrow> pool_state s = CLOSED) \<and>
     (2 \<le> n \<longrightarrow> disable_purge (options s) \<or> purge_done s = 1) \<and> (3 \<le> n \<longrightarrow> ticktock_done s = 1)"

definition progress_of :: "'t pc \<Rightarrow> nat multiset" where
  "progress_of p = {#release_level p#}"

definition progress_book :: "('t, 'h, 'l) pool \<Rightarrow> nat multiset \<Rightarrow> bool" where
  "progress_book s X \<longleftrightarrow> (pool_state s = OPENED \<or> pool_state s = CLOSED) \<and> (\<forall>n \<in># X. level_fits s n)"

definition background_book :: "('t, 'h, 'l) pool \<Rightarrow> bool multiset \<Rightarrow> bool" where
  "background_book s X \<longleftrightarrow>
     count X True = (if disable_purge (options s) \<or> purge_done s = 1 then 0 else 1) \<and>
     count X False = (if ticktock_done s = 1 then 0 else 1)"

definition reboot_free :: "('t, 'h, 'l) pool \<Rightarrow> 't pc multiset \<Rightarrow> bool" where
  "reboot_free s M \<longleftrightarrow> (\<forall>p \<in># M. no_reboot p)"

lemma reboot_free_known: "started s0 \<Longrightarrow> system no_reboot cfg s0 s M \<Longrightarrow> reboot_free s M"
  using thread_invariant.invariant [OF latch_invariant] unfolding reboot_free_def by blast

text \<open>Threads that start or end neither of the two.\<close>

lemma foreground_step:
  assumes "no_reboot p" and "(s', ps) \<in> set (pool_moves cfg s p)"
    and "p \<noteq> Pur PurgeExit" and "p \<noteq> Tck TickExit"
  shows "sum_list (map background_of ps) = background_of p
    \<and> options s' = options s \<and> purge_done s' = purge_done s \<and> ticktock_done s' = ticktock_done s"
  using assms
  by (cases p; rename_tac q; case_tac q;
      auto simp: step_iffs pool_updates split: step_splits call_result.splits)

lemma background_step:
  assumes "no_reboot p" and "background_book s (background_of p + X)" and "(s', ps) \<in> set (pool_moves cfg s p)"
  shows "background_book s' (sum_list (map background_of ps) + X)"
proof (cases "p = Pur PurgeExit \<or> p = Tck TickExit")
  case True
  with assms(2,3) show ?thesis by (auto simp: background_book_def split: if_splits)
next
  case False
  with foreground_step [OF assms(1,3)] assms(2) show ?thesis by (simp add: background_book_def)
qed

lemma level_fits_mono:
  assumes "level_fits s n" and "pool_state s = CLOSED \<longrightarrow> pool_state s' = CLOSED"
    and "options s' = options s" and "purge_done s = 1 \<longrightarrow> purge_done s' = 1"
    and "ticktock_done s = 1 \<longrightarrow> ticktock_done s' = 1"
  shows "level_fits s' n"
  using assms by (auto simp: level_fits_def)

text \<open>Without reboots nothing that a release waits for is taken back.\<close>

lemma shutdown_mono:
  assumes "no_reboot p" and "(s', ps) \<in> set (pool_moves cfg s p)"
  shows "(pool_state s = CLOSED \<longrightarrow> pool_state s' = CLOSED) \<and> (purge_done s = 1 \<longrightarrow> purge_done s' = 1)
    \<and> (ticktock_done s = 1 \<longrightarrow> ticktock_done s' = 1)"
  using assms
  by (cases p; rename_tac q; case_tac q;
      auto simp: step_iffs pool_updates split: step_splits call_result.splits)

lemma level_step:
  assumes "no_reboot p" and "level_fits s (release_level p)" and "(s', ps) \<in> set (pool_moves cfg s p)"
    and "pool_state s = OPENED \<or> pool_state s = CLOSED"
  shows "list_all (\<lambda>q. level_fits s' (release_level q)) ps \<and> (pool_state s' = OPENED \<or> pool_state s' = CLOSED)"
  using assms
  by (cases p; rename_tac q; case_tac q;
      auto simp: level_fits_def result_level_def timeout_result_def step_iffs pool_updates
        split: step_splits call_result.splits)

lemma progress_step:
  assumes "no_reboot p" and "progress_book s (progress_of p + X)" and "(s', ps) \<in> set (pool_moves cfg s p)"
  shows "progress_book s' (sum_list (map progress_of ps) + X)"
proof -
  have "pool_state s = OPENED \<or> pool_state s = CLOSED" "level_fits s (release_level p)"
    and rest: "\<forall>n \<in># X. level_fits s n"
    using assms(2) by (simp_all add: progress_book_def progress_of_def)
  with level_step [OF assms(1) _ assms(3)]
  have own: "list_all (\<lambda>q. level_fits s' (release_level q)) ps" "pool_state s' = OPENED \<or> pool_state s' = CLOSED"
    by blast+
  have "\<forall>n \<in># X. level_fits s' n"
    using rest level_fits_mono shutdown_mono [OF assms(1,3)] options_step [OF assms(3)] by metis
  moreover have "\<forall>n \<in># sum_list (map progress_of ps). level_fits s' n"
    using own(1) by (induction ps) (auto simp: progress_of_def)
  ultimately show ?thesis using own(2) by (auto simp: progress_book_def)
qed

lemma core_new_flags:
  assumes "core_new dflt clock n opts = Some (Inr s)"
  shows "purge_done s = 0 \<and> ticktock_done s = 0"
  using assms
  by (auto simp: core_new_def Let_def empty_pool_def go_purge_def go_ticktock_def publish_purge_ctx_def
      publish_ticktock_ctx_def split: if_splits)

lemma background_ledger:
  assumes "started s0" and "purge_done s0 = 0 \<and> ticktock_done s0 = 0"
  shows "ledger (pool_moves cfg) s0 (initial_threads (options s0)) (\<lambda>p. pool_entry p \<and> no_reboot p)
    reboot_free background_of background_book"
proof (unfold_locales, goal_cases)
  case (1 s M)
  then show ?case by (rule reboot_free_known [OF assms(1)])
next
  case 2
  with assms show ?case by (simp add: background_book_def initial_threads_def)
next
  case (3 p s x)
  then show ?case by (auto elim!: pool_entry.cases)
next
  case (4 s p M s' ps)
  then show ?case using background_step by (auto simp: reboot_free_def)
qed

lemma progress_ledger:
  assumes "started s0"
  shows "ledger (pool_moves cfg) s0 (initial_threads (options s0)) (\<lambda>p. pool_entry p \<and> no_reboot p)
    reboot_free progress_of progress_book"
proof (unfold_locales, goal_cases)
  case (1 s M)
  then show ?case by (rule reboot_free_known [OF assms(1)])
next
  case 2
  with assms show ?case
    by (simp add: progress_book_def progress_of_def level_fits_def initial_threads_def started_def fresh_pool_def)
next
  case (3 p s x)
  then show ?case by (auto elim!: pool_entry.cases simp: progress_book_def progress_of_def level_fits_def)
next
  case (4 s p M s' ps)
  then show ?case using progress_step by (auto simp: reboot_free_def)
qed

lemma release_progress:
  assumes "started s0" and "system no_reboot cfg s0 s M" and "p \<in># M"
  shows "level_fits s (release_level p)"
proof -
  have "release_level p \<in># total progress_of M"
    using assms(3) by (rule total_mset_mem) (simp add: progress_of_def)
  then show ?thesis
    using ledger.balanced [OF progress_ledger [OF assms(1)] assms(2)] by (simp add: progress_book_def)
qed

text \<open>Nothing of the background threads is left once their flags say so.\<close>

lemma background_gone:
  assumes "started s0" and flags: "purge_done s0 = 0 \<and> ticktock_done s0 = 0" and "system no_reboot cfg s0 s M"
    and "disable_purge (options s) \<or> purge_done s = 1" and "ticktock_done s = 1"
  shows "(Pur g \<in># M \<longrightarrow> g = PurgeDone) \<and> (Tck q \<in># M \<longrightarrow> q = TickDone)"
proof -
  have "count (total background_of M) b = 0" for b
    using ledger.balanced [OF background_ledger [OF assms(1,2)] assms(3)] assms(4,5)
    by (cases b) (auto simp: background_book_def)
  then have "background_of p = {#}" if "p \<in># M" for p
    using total_mset_mem [OF that, of _ background_of] by (metis count_eq_zero_iff multiset_eqI count_empty)
  from this [of "Pur g"] this [of "Tck q"] show ?thesis
    by (cases g; cases q; auto)
qed

section \<open>Who can cancel a context\<close>

text \<open>The contexts a thread holds the cancel function of.\<close>

fun after_calls :: "after_release \<Rightarrow> nat list" where
  "after_calls ReleaseReturns = []"
| "after_calls (ContextGoesOn k p t) = call_refs k"

primrec caller_refs :: "context_pc \<Rightarrow> nat list" where
  "caller_refs (CtxClosed k) = call_refs k" | "caller_refs (CtxStopPurge k) = call_refs k"
| "caller_refs (CtxStopTick k) = call_refs k" | "caller_refs (CtxPurgeCtx k) = call_refs k"
| "caller_refs (CtxTickCtx k p) = call_refs k" | "caller_refs (CtxAllDone k x p t) = call_refs k"
| "caller_refs (CtxLoop k x p t e) = call_refs k" | "caller_refs (CtxErr k x p t e) = call_refs k"
| "caller_refs (CtxSlice k x p t e) = call_refs k" | "caller_refs (CtxPurgeWait k x p t e) = call_refs k"
| "caller_refs (CtxTickWait k x p t e) = call_refs k" | "caller_refs (CtxRunning k x p t e) = call_refs k"
| "caller_refs (CtxPurgeDone k x p t e) = call_refs k" | "caller_refs (CtxTickDone k x p t e) = call_refs k"
| "caller_refs (CtxErrAgain k x p t e) = call_refs k" | "caller_refs (CtxReturn k r) = call_refs k"
| "caller_refs (CtxResult k r) = call_refs k"

fun cancels :: "'t pc \<Rightarrow> nat multiset" where
  "cancels (Rel (RelCancelPurge a c)) = add_mset c (mset (after_calls a))"
| "cancels (Rel (RelCancelTick a c)) = add_mset c (mset (after_calls a))"
| "cancels (Rel (RelCas a)) = mset (after_calls a)" | "cancels (Rel (RelTakePurge a)) = mset (after_calls a)"
| "cancels (Rel (RelTakeTick a)) = mset (after_calls a)" | "cancels (Rel (RelLock a)) = mset (after_calls a)"
| "cancels (Rel (RelReset a)) = mset (after_calls a)" | "cancels (Rel (RelFinish a ws)) = mset (after_calls a)"
| "cancels (Rel (RelBroadcast a)) = mset (after_calls a)" | "cancels (Rel (RelRunning a)) = mset (after_calls a)"
| "cancels (Rel (RelAllDone a)) = mset (after_calls a)" | "cancels (Rel (RelClose a e)) = mset (after_calls a)"
| "cancels (Rel (RelReturn a)) = mset (after_calls a)"
| "cancels (Ctx p) = mset (caller_refs p)"
| "cancels (Tmo (TimeoutCancel c r)) = {#c#}"
| "cancels (Reb (RebPurgeStop c)) = {#c#}" | "cancels (Reb (RebTickStop c)) = {#c#}"
| "cancels (Env (UserCtx c)) = {#c#}"
| "cancels _ = {#}"

definition stops :: "('t, 'h, 'l) pool \<Rightarrow> nat multiset" where
  "stops s = mset (refs_of (stop_purge s)) + mset (refs_of (stop_ticktock s))"

text \<open>Each of the contexts in \<open>Y\<close> exists, is not cancelled and occurs once.\<close>

definition uncancelled :: "inner list \<Rightarrow> nat multiset \<Rightarrow> bool" where
  "uncancelled cs Y \<longleftrightarrow> (\<forall>c. count Y c \<le> 1) \<and> (\<forall>c \<in># Y. c < length cs \<and> \<not> event_is_closed (cancelled (cs ! c)))"

definition cancel_book :: "('t, 'h, 'l) pool \<Rightarrow> nat multiset \<Rightarrow> bool" where
  "cancel_book s X \<longleftrightarrow> uncancelled (ctxs s) (X + stops s)"

lemma uncancelled_subset: "uncancelled cs Y \<Longrightarrow> Z \<subseteq># Y \<Longrightarrow> uncancelled cs Z"
  unfolding uncancelled_def by (meson le_trans mset_subset_eqD mset_subset_eq_count)

lemma uncancelled_append:
  assumes "uncancelled cs Y" and "\<not> event_is_closed (cancelled x)"
  shows "uncancelled (cs @ [x]) (add_mset (length cs) Y)"
proof -
  have "length cs \<notin># Y" using assms(1) by (auto simp: uncancelled_def)
  with assms show ?thesis by (auto simp: uncancelled_def nth_append not_in_iff)
qed

lemma uncancelled_cancel:
  assumes "uncancelled cs (add_mset c Y)"
  shows "uncancelled (cs[c := cancel (cs ! c)]) Y"
proof -
  have "count (add_mset c Y) c \<le> 1" using assms unfolding uncancelled_def by blast
  then have "\<forall>d \<in># Y. d \<noteq> c" by (auto simp flip: count_greater_zero_iff)
  then have "\<forall>d \<in># Y. cs[c := cancel (cs ! c)] ! d = cs ! d" by (metis nth_list_update_neq)
  moreover have "uncancelled cs Y" using assms by (rule uncancelled_subset) simp
  ultimately show ?thesis by (simp add: uncancelled_def)
qed

text \<open>A step hands cancel functions on or drops them, makes a new one, or uses one.\<close>

inductive cancel_effect :: "inner list \<Rightarrow> nat multiset \<Rightarrow> inner list \<Rightarrow> nat multiset \<Rightarrow> bool" where
  hand_on: "Z \<subseteq># Y \<Longrightarrow> cancel_effect cs Y cs Z"
| make: "\<not> event_is_closed (cancelled x) \<Longrightarrow> Z \<subseteq># add_mset (length cs) Y \<Longrightarrow> cancel_effect cs Y (cs @ [x]) Z"
| use_up: "Y = add_mset c Z \<Longrightarrow> cancel_effect cs Y (cs[c := cancel (cs ! c)]) Z"

lemma cancel_effect_ok: "cancel_effect cs Y cs' Z \<Longrightarrow> uncancelled cs Y \<Longrightarrow> uncancelled cs' Z"
  by (induction rule: cancel_effect.induct)
    (blast intro: uncancelled_subset uncancelled_append uncancelled_cancel)+

lemma quiet_cancels:
  assumes "(s', ps) \<in> set (pool_moves cfg s p)"
    and "\<forall>q. p \<noteq> Rel q" and "\<forall>q. p \<noteq> Tmo q" and "\<forall>q. p \<noteq> Reb q" and "\<forall>q. p \<noteq> Env q"
    and "\<forall>q. p \<noteq> Ctx q"
  shows "ctxs s' = ctxs s \<and> stops s' = stops s \<and> sum_list (map cancels ps) = {#} \<and> cancels p = {#}"
  using assms
  by (cases p; rename_tac q; case_tac q;
      auto simp: stops_def step_iffs pool_updates split: step_splits call_result.splits)

lemma release_cancels:
  assumes "(s', ps) \<in> set (release_moves cfg s q)"
  shows "cancel_effect (ctxs s) (cancels (Rel q) + X + stops s) (ctxs s') (sum_list (map cancels ps) + X + stops s')"
  using assms
  by (cases q) (auto simp: stops_def step_iffs pool_updates intro!: cancel_effect.intros split: step_splits)

lemma context_cancels:
  assumes "(s', ps) \<in> set (context_moves s q)"
  shows "cancel_effect (ctxs s) (cancels (Ctx q) + X + stops s) (ctxs s') (sum_list (map cancels ps) + X + stops s')"
  using assms
  by (cases q) (auto simp: stops_def step_iffs pool_updates intro!: cancel_effect.hand_on split: step_splits)

lemma reboot_cancels:
  assumes "(s', ps) \<in> set (reboot_moves s q)"
  shows "cancel_effect (ctxs s) (cancels (Reb q) + X + stops s) (ctxs s') (sum_list (map cancels ps) + X + stops s')"
  using assms
  by (cases q) (auto simp: stops_def with_cancel_def event_is_closed_def pool_updates
    intro!: cancel_effect.hand_on cancel_effect.make split: step_splits)

lemma timeout_cancels:
  assumes "(s', ps) \<in> set (timeout_moves s q)"
  shows "cancel_effect (ctxs s) (cancels (Tmo q) + X + stops s) (ctxs s') (sum_list (map cancels ps) + X + stops s')"
  using assms
  by (cases q) (auto simp: stops_def with_timeout_def event_is_closed_def pool_updates
    intro!: cancel_effect.use_up cancel_effect.make)

lemma env_cancels:
  assumes "(s', ps) \<in> set (env_moves s q)"
  shows "cancel_effect (ctxs s) (cancels (Env q) + X + stops s) (ctxs s') (sum_list (map cancels ps) + X + stops s')"
  using assms
  by (cases q) (auto simp: stops_def event_is_closed_def pool_updates
    intro!: cancel_effect.hand_on cancel_effect.use_up cancel_effect.make)

lemma cancel_step:
  assumes "cancel_book s (cancels p + X)" and "(s', ps) \<in> set (pool_moves cfg s p)"
  shows "cancel_book s' (sum_list (map cancels ps) + X)"
proof -
  have "cancel_effect (ctxs s) (cancels p + X + stops s) (ctxs s') (sum_list (map cancels ps) + X + stops s')"
    using assms(2)
  proof (cases p)
    case (Rel q)
    with assms(2) release_cancels show ?thesis by simp
  next
    case (Ctx q)
    with assms(2) context_cancels show ?thesis by (metis pool_moves.simps(6))
  next
    case (Tmo q)
    with assms(2) timeout_cancels show ?thesis by (metis pool_moves.simps(7))
  next
    case (Reb q)
    with assms(2) reboot_cancels show ?thesis by (metis pool_moves.simps(9))
  next
    case (Env q)
    with assms(2) env_cancels show ?thesis by (metis pool_moves.simps(12))
  qed (use quiet_cancels [OF assms(2)] in \<open>simp add: cancel_effect.hand_on\<close>)+
  with assms(1) cancel_effect_ok show ?thesis unfolding cancel_book_def by blast
qed

lemma core_new_cancels:
  assumes "core_new dflt clock n opts = Some (Inr s)"
  shows "cancel_book s {#}"
  using assms
  by (auto simp: core_new_def Let_def empty_pool_def go_purge_def go_ticktock_def publish_purge_ctx_def
      publish_ticktock_ctx_def cancel_book_def stops_def uncancelled_def with_cancel_def event_is_closed_def
      less_Suc_eq split: if_splits)

lemma cancel_ledger:
  assumes "cancel_book s0 {#}"
  shows "ledger (pool_moves cfg) s0 (initial_threads (options s0)) pool_entry (\<lambda>_ _. True) cancels cancel_book"
proof (unfold_locales, goal_cases)
  case 2
  with assms show ?case by (simp add: total_initial)
next
  case (3 p s x)
  then show ?case by (auto elim!: pool_entry.cases)
next
  case (4 s p M s' ps)
  then show ?case using cancel_step by blast
qed simp

section \<open>The errors of a release\<close>

definition result_fits :: "ctx_call \<Rightarrow> error + unit \<Rightarrow> bool" where
  "result_fits k r \<longleftrightarrow> r = Inr () \<or> r = Inl PoolClosed
     \<or> callers_ctx k \<noteq> None \<and> (r = Inl DeadlineExceeded \<or> r = Inl Canceled \<and> call_refs k = [])"

fun release_fits :: "'t pc \<Rightarrow> bool" where
  "release_fits (Ctx (CtxAllDone k x p t)) \<longleftrightarrow> callers_ctx k = Some x"
| "release_fits (Ctx (CtxLoop k x p t e)) \<longleftrightarrow> callers_ctx k = Some x"
| "release_fits (Ctx (CtxErr k x p t e)) \<longleftrightarrow> callers_ctx k = Some x"
| "release_fits (Ctx (CtxSlice k x p t e)) \<longleftrightarrow> callers_ctx k = Some x"
| "release_fits (Ctx (CtxPurgeWait k x p t e)) \<longleftrightarrow> callers_ctx k = Some x"
| "release_fits (Ctx (CtxTickWait k x p t e)) \<longleftrightarrow> callers_ctx k = Some x"
| "release_fits (Ctx (CtxRunning k x p t e)) \<longleftrightarrow> callers_ctx k = Some x"
| "release_fits (Ctx (CtxPurgeDone k x p t e)) \<longleftrightarrow> callers_ctx k = Some x"
| "release_fits (Ctx (CtxTickDone k x p t e)) \<longleftrightarrow> callers_ctx k = Some x"
| "release_fits (Ctx (CtxErrAgain k x p t e)) \<longleftrightarrow> callers_ctx k = Some x"
| "release_fits (Ctx (CtxReturn k r)) \<longleftrightarrow> result_fits k r"
| "release_fits (Ctx (CtxResult k r)) \<longleftrightarrow> result_fits k r"
| "release_fits (Tmo (TimeoutCancel c r)) \<longleftrightarrow> result_fits (TimeoutCall c) r"
| "release_fits (Tmo (TimeoutResult r)) \<longleftrightarrow> r = Inr () \<or> r = Inl PoolClosed \<or> r = Inl Timeout"
| "release_fits _ \<longleftrightarrow> True"

definition cancel_known :: "('t, 'h, 'l) pool \<Rightarrow> 't pc multiset \<Rightarrow> bool" where
  "cancel_known s M \<longleftrightarrow> cancel_book s (total cancels M)"

lemma own_error:
  assumes "cancel_known s (add_mset p M)" and "c \<in># cancels p" and "ctx_err c s = Some er"
  shows "er = DeadlineExceeded"
  using assms by (auto simp: cancel_known_def cancel_book_def uncancelled_def ctx_err_def err_def split: if_splits)

lemma ctx_err_cases: "ctx_err c s = Some er \<Longrightarrow> er = Canceled \<or> er = DeadlineExceeded"
  by (auto simp: ctx_err_def err_def split: if_splits)

lemma err_fits:
  assumes "cancel_known s (add_mset p M)" and "callers_ctx k = Some x" and "mset (call_refs k) \<subseteq># cancels p"
    and "ctx_err x s = Some er"
  shows "result_fits k (Inl er)"
proof (cases k)
  case (TimeoutCall c)
  with assms own_error [OF assms(1), of x er] show ?thesis by (simp add: result_fits_def)
next
  case (ContextCall c)
  with assms(2,4) ctx_err_cases [of x s er] show ?thesis by (auto simp: result_fits_def)
qed

lemma release_fits_step:
  assumes "cancel_known s (add_mset p M)" and "release_fits p" and "(s', ps) \<in> set (pool_moves cfg s p)"
  shows "list_all release_fits ps"
proof (cases "(\<exists>q. p = Ctx q) \<or> (\<exists>q. p = Tmo q) \<or> (\<exists>q. p = Rel q)")
  case False
  with assms(2,3) show ?thesis
    by (cases p; rename_tac q; case_tac q; auto simp: step_iffs split: step_splits call_result.splits)
next
  case True
  then show ?thesis
  proof (elim exE disjE)
    fix q assume "p = Ctx q"
    with assms err_fits [OF assms(1)] show ?thesis
      by (cases q) (auto simp: result_fits_def split: step_splits)
  next
    fix q assume "p = Tmo q"
    with assms show ?thesis by (cases q) (auto simp: result_fits_def timeout_result_def)
  next
    fix q assume "p = Rel q"
    with assms show ?thesis by (cases q) (auto simp: result_fits_def step_iffs split: step_splits)
  qed
qed

lemma fits_invariant:
  assumes "cancel_book s0 {#}"
  shows "thread_invariant (pool_moves cfg) s0 (initial_threads (options s0)) pool_entry cancel_known
    (\<lambda>_. True) release_fits"
proof (unfold_locales, goal_cases)
  case (1 s M)
  then show ?case using ledger.balanced [OF cancel_ledger [OF assms]] unfolding cancel_known_def by blast
next
  case (3 p)
  then show ?case by (auto dest: initial_member)
next
  case (4 p)
  then show ?case by (auto elim!: pool_entry.cases)
next
  case (5 s p M s' ps)
  then show ?case using release_fits_step by blast
qed simp_all

lemma releases_fit:
  "cancel_book s0 {#} \<Longrightarrow> pool_reachable cfg s0 s M \<Longrightarrow> p \<in># M \<Longrightarrow> release_fits p"
  using thread_invariant.invariant [OF fits_invariant] unfolding pool_reachable_def by blast

end
