(* ===== verification/Multi_Release.thy ===== *)
theory Multi_Release
  imports Multi_Tasks Pool_Release
begin

text \<open>
  Releasing a multi-pool while everything else goes on: \<open>release_pools\<close> runs one thread for each pool and
  joins them. What the joins return is what the pools' own calls of \<open>release_context\<close> have returned, so a
  release that reports success has shut down every pool.
\<close>

section \<open>The call a thread is in\<close>

fun after_call_of :: "after_release \<Rightarrow> ctx_call option" where
  "after_call_of ReleaseReturns = None"
| "after_call_of (ContextGoesOn k p t) = Some k"

primrec rel_call :: "release_pc \<Rightarrow> ctx_call option" where
  "rel_call (RelCas a) = after_call_of a" | "rel_call (RelTakePurge a) = after_call_of a"
| "rel_call (RelCancelPurge a c) = after_call_of a" | "rel_call (RelTakeTick a) = after_call_of a"
| "rel_call (RelCancelTick a c) = after_call_of a" | "rel_call (RelLock a) = after_call_of a"
| "rel_call (RelReset a) = after_call_of a" | "rel_call (RelFinish a ws) = after_call_of a"
| "rel_call (RelBroadcast a) = after_call_of a" | "rel_call (RelRunning a) = after_call_of a"
| "rel_call (RelAllDone a) = after_call_of a" | "rel_call (RelClose a e) = after_call_of a"
| "rel_call (RelReturn a) = after_call_of a" | "rel_call RelDone = None" | "rel_call RelUnwind = None"
| "rel_call RelAborted = None"

primrec ctx_call :: "context_pc \<Rightarrow> ctx_call" where
  "ctx_call (CtxClosed k) = k" | "ctx_call (CtxStopPurge k) = k" | "ctx_call (CtxStopTick k) = k"
| "ctx_call (CtxPurgeCtx k) = k" | "ctx_call (CtxTickCtx k p) = k" | "ctx_call (CtxAllDone k x p t) = k"
| "ctx_call (CtxLoop k x p t e) = k" | "ctx_call (CtxErr k x p t e) = k" | "ctx_call (CtxSlice k x p t e) = k"
| "ctx_call (CtxPurgeWait k x p t e) = k" | "ctx_call (CtxTickWait k x p t e) = k"
| "ctx_call (CtxRunning k x p t e) = k" | "ctx_call (CtxPurgeDone k x p t e) = k"
| "ctx_call (CtxTickDone k x p t e) = k" | "ctx_call (CtxErrAgain k x p t e) = k"
| "ctx_call (CtxReturn k r) = k" | "ctx_call (CtxResult k r) = k"

text \<open>A thread that \<open>release_context\<close> with the user's context \<open>c\<close> has become.\<close>

fun releases :: "nat option \<Rightarrow> 't pc \<Rightarrow> bool" where
  "releases c (Ctx q) \<longleftrightarrow> ctx_call q = ContextCall c"
| "releases c (Rel q) \<longleftrightarrow> rel_call q = Some (ContextCall c) \<or> q = RelUnwind \<or> q = RelAborted"
| "releases c p \<longleftrightarrow> False"

lemma releases_step:
  assumes "releases c p" and "(s', ps) \<in> set (pool_moves cfg s p)"
  shows "\<exists>q. ps = [q] \<and> releases c q"
proof (cases p)
  case (Ctx q)
  with assms show ?thesis by (cases q) (auto split: step_splits)
next
  case (Rel q)
  with assms show ?thesis by (cases q) (auto simp: step_iffs split: step_splits)
qed (use assms in auto)

section \<open>What the joins return\<close>

text \<open>The thread that a call of \<open>release_context\<close> of pool \<open>i\<close> has left behind.\<close>

fun left :: "'t mpc multiset \<Rightarrow> nat \<Rightarrow> nat option \<Rightarrow> outcome \<Rightarrow> bool" where
  "left M i c (Returned r) \<longleftrightarrow> In i Nobody (Ctx (CtxResult (ContextCall c) r)) \<in># M"
| "left M i c Panicked \<longleftrightarrow> In i Nobody (Rel RelAborted) \<in># M"

definition handle_for :: "handle list \<Rightarrow> multi_call \<Rightarrow> nat \<Rightarrow> nat \<Rightarrow> bool" where
  "handle_for hs k i j \<longleftrightarrow> j < length hs \<and> handle_pool (hs ! j) = i \<and> handle_ctx (hs ! j) = context_of k i"

definition fine_outcome :: "outcome \<Rightarrow> bool" where
  "fine_outcome r \<longleftrightarrow> r = Returned (Inr ()) \<or> r = Panicked"

definition all_left :: "'t mpc multiset \<Rightarrow> nat \<Rightarrow> multi_call \<Rightarrow> bool" where
  "all_left M n k \<longleftrightarrow> (\<forall>i < n. \<exists>r. left M i (context_of k i) r \<and> fine_outcome r)"

primrec told :: "nat \<Rightarrow> handle list \<Rightarrow> 't mpc multiset \<Rightarrow> 't mpc \<Rightarrow> bool" where
  "told n hs M (In i fr p) \<longleftrightarrow>
     (\<forall>j. fr = Releasing j \<longrightarrow> j < length hs \<and> handle_pool (hs ! j) = i \<and> releases (handle_ctx (hs ! j)) p)"
| "told n hs M (MpSpawn k js) \<longleftrightarrow> length js \<le> n \<and> (\<forall>i < length js. handle_for hs k i (js ! i))"
| "told n hs M (MpJoin k js rs) \<longleftrightarrow> length js = n \<and> (\<forall>i < n. handle_for hs k i (js ! i)) \<and> length rs \<le> n
     \<and> (\<forall>i < length rs. left M i (context_of k i) (rs ! i))"
| "told n hs M (MpReturn k r) \<longleftrightarrow> (r = Inr () \<longrightarrow> all_left M n k)"
| "told n hs M (MpReleased k r) \<longleftrightarrow> (r = Inr () \<longrightarrow> all_left M n k)"
| "told n hs M (MpSubmit t) \<longleftrightarrow> True" | "told n hs M (MpNext a t) \<longleftrightarrow> True" | "told n hs M (MpLeast a t l b c) \<longleftrightarrow> True"
| "told n hs M (MpDeliver a t i) \<longleftrightarrow> True" | "told n hs M (MpDone t) \<longleftrightarrow> True" | "told n hs M (MpFail t e) \<longleftrightarrow> True"
| "told n hs M (MpPanic t) \<longleftrightarrow> True" | "told n hs M (MpTune z i) \<longleftrightarrow> True" | "told n hs M MpTuned \<longleftrightarrow> True"
| "told n hs M (MpTimeout d) \<longleftrightarrow> True" | "told n hs M (MpRelease k) \<longleftrightarrow> True" | "told n hs M MpReboot \<longleftrightarrow> True"
| "told n hs M MpIndex \<longleftrightarrow> True" | "told n hs M (MpRebootNext i) \<longleftrightarrow> True" | "told n hs M MpRebooted \<longleftrightarrow> True"
| "told n hs M (MpClocks w d) \<longleftrightarrow> True" | "told n hs M (MpNewCtx dl) \<longleftrightarrow> True" | "told n hs M (MpUserCtx cs) \<longleftrightarrow> True"
| "told n hs M MpEnvDone \<longleftrightarrow> True"

definition results_left :: "handle list \<Rightarrow> 't mpc multiset \<Rightarrow> bool" where
  "results_left hs M \<longleftrightarrow>
     (\<forall>h \<in> set hs. \<forall>r. handle_result h = Some r \<longrightarrow> left M (handle_pool h) (handle_ctx h) r)"

definition same_calls :: "handle list \<Rightarrow> handle list \<Rightarrow> bool" where
  "same_calls hs hs' \<longleftrightarrow> length hs \<le> length hs' \<and>
     (\<forall>j < length hs. handle_pool (hs' ! j) = handle_pool (hs ! j) \<and> handle_ctx (hs' ! j) = handle_ctx (hs ! j))"

text \<open>What a thread was told stays true: handles keep their calls, and threads that were left stay.\<close>

definition left_more :: "'t mpc multiset \<Rightarrow> 't mpc multiset \<Rightarrow> bool" where
  "left_more M M' \<longleftrightarrow> (\<forall>i c r. left M i c r \<longrightarrow> left M' i c r)"

lemma all_left_mono: "all_left M n k \<Longrightarrow> left_more M M' \<Longrightarrow> all_left M' n k"
  unfolding all_left_def left_more_def by blast

lemma told_mono:
  assumes "told n hs M q" and "same_calls hs hs'" and "left_more M M'"
  shows "told n hs' M' q"
proof -
  have h: "handle_for hs' k i j" if "handle_for hs k i j" for k i j
    using that assms(2) by (auto simp: handle_for_def same_calls_def)
  show ?thesis
    using assms h all_left_mono [OF _ assms(3)] by (cases q) (auto simp: same_calls_def left_more_def)
qed

lemma aggregate_fine:
  assumes "aggregate (map (\<lambda>(i, r). pool_outcome i r) (enumerate 0 rs)) = Inr ()" and "r \<in> set rs"
  shows "fine_outcome r"
proof -
  let ?os = "map (\<lambda>(i, r). pool_outcome i r) (enumerate 0 rs)"
  have "push_errors [] ?os = []" using assms(1) by (auto simp: aggregate_def Let_def split: if_splits)
  then have none: "\<forall>e. Inl e \<notin> set ?os" by (fastforce simp: push_errors_concat failures_def separator_def split: sum.splits)
  obtain i where i: "i < length rs" "rs ! i = r" using assms(2) by (auto simp: in_set_conv_nth)
  then have "(i, r) \<in> set (enumerate 0 rs)" by (auto simp: in_set_enumerate_eq)
  then have "pool_outcome i r \<in> set ?os" by force
  with none have "\<forall>e. pool_outcome i r \<noteq> Inl e" by metis
  then show ?thesis by (auto simp: fine_outcome_def pool_outcome_def split: outcome.splits sum.splits)
qed

text \<open>Only a thread that a call has left behind is of nobody and in its last state.\<close>

definition left_behind :: "'t mpc \<Rightarrow> bool" where
  "left_behind q \<longleftrightarrow> (\<exists>i k r. q = In i Nobody (Ctx (CtxResult k r))) \<or> (\<exists>i. q = In i Nobody (Rel RelAborted))"

lemma left_more_step: "\<not> left_behind q \<Longrightarrow> left_more (add_mset q M) (N + M)"
proof -
  assume q: "\<not> left_behind q"
  have "left (N + M) i c r" if "left (add_mset q M) i c r" for i c r
    using that q by (cases r) (auto simp: left_behind_def)
  then show ?thesis by (simp add: left_more_def)
qed

lemma left_behind_stays: "left_behind q \<Longrightarrow> multi_moves cfg S q = []"
  by (auto simp: left_behind_def in_moves_def resume_def)

lemma same_calls_finish: "same_calls hs (finish_handle j r hs)"
proof -
  have "handle_pool (hs[j := h] ! i) = handle_pool (hs ! i) \<and> handle_ctx (hs[j := h] ! i) = handle_ctx (hs ! i)"
    if "h = (hs ! j)\<lparr>handle_result := Some r\<rparr>" and "i < length hs" for i h
    using that by (cases "i = j") simp_all
  then show ?thesis by (simp add: same_calls_def finish_handle_def)
qed

lemma same_calls_append: "same_calls hs (hs @ hs')"
  by (simp add: same_calls_def nth_append)

lemma same_calls_refl: "same_calls hs hs"
  by (simp add: same_calls_def)

lemma results_left_mono: "results_left hs M \<Longrightarrow> left_more M M' \<Longrightarrow> results_left hs M'"
  by (auto simp: results_left_def left_more_def)

lemma results_left_finish:
  assumes "results_left hs M" and "j < length hs" and "left M (handle_pool (hs ! j)) (handle_ctx (hs ! j)) r"
  shows "results_left (finish_handle j r hs) M"
  using assms by (auto simp: results_left_def finish_handle_def dest!: set_update_subset_insert [THEN subsetD])

text \<open>What a step tells its own threads.\<close>

lemma told_step_in:
  assumes "told n hs (add_mset q M) q" and "q = In i fr p" and "(S', qs) \<in> set (in_moves cfg S i fr p)" and "hs = handles S"
    and "results_left hs (add_mset q M)"
  shows "(\<forall>q' \<in> set qs. told n (handles S') (mset qs + M) q') \<and> same_calls hs (handles S')
    \<and> results_left (handles S') (mset qs + M)"
  using assms(3)
proof (cases rule: in_moves_cases)
  case (inside s' ps)
  have "\<not> left_behind q" using inside(2) assms(2) by (auto simp: left_behind_def)
  then have "left_more (add_mset q M) (mset qs + M)" by (rule left_more_step)
  with assms(5) have "results_left hs (mset qs + M)" by (rule results_left_mono)
  moreover have "\<forall>q' \<in> set qs. told n hs (mset qs + M) q'"
  proof (cases "\<exists>j. fr = Releasing j")
    case True
    then obtain j where j: "fr = Releasing j" "releases (handle_ctx (hs ! j)) p" using assms(1,2) by auto
    from releases_step [OF j(2) inside(2)] obtain p' where "ps = [p']" "releases (handle_ctx (hs ! j)) p'" by blast
    with inside j assms(1,2) show ?thesis by (simp add: tag_def)
  next
    case False
    with inside(4) show ?thesis by (cases ps) (auto simp: tag_def)
  qed
  ultimately show ?thesis using inside(3) assms(4) by (simp add: same_calls_refl set_pools_def)
next
  case returns
  have "\<not> left_behind q" using returns(2) assms(2) by (auto simp: left_behind_def in_resume)
  then have more: "left_more (add_mset q M) (mset qs + M)" by (rule left_more_step)
  note results = results_left_mono [OF assms(5) more]
  show ?thesis
  proof (cases "\<exists>j. fr = Releasing j")
    case True
    then obtain j where j: "fr = Releasing j" by blast
    with assms(1,2) have h: "j < length hs" "handle_pool (hs ! j) = i" "releases (handle_ctx (hs ! j)) p" by auto
    from returns(2) j h consider k r where "p = Ctx (CtxResult k r)" "k = ContextCall (handle_ctx (hs ! j))"
        "handles S' = finish_handle j (Returned r) hs" "qs = [In i Nobody p]"
      | "p = Rel RelAborted" "handles S' = finish_handle j Panicked hs" "qs = [In i Nobody p]"
      using assms(4) by (auto simp: in_resume)
    then show ?thesis
      using results_left_finish [OF results h(1)] h(2) by cases (simp_all add: same_calls_finish)
  next
    case False
    with returns(2) have "handles S' = hs" "\<forall>q' \<in> set qs. told n hs (mset qs + M) q'"
      using assms(4) by (auto simp: in_resume after_failure_def)
    with results show ?thesis by (simp add: same_calls_refl)
  qed
qed

lemma told_step:
  assumes told: "told n (handles S) (add_mset q M) q" and results: "results_left (handles S) (add_mset q M)"
    and n: "length (mpools S) = n" and step: "(S', qs) \<in> set (multi_moves cfg S q)"
  shows "(\<forall>q' \<in> set qs. told n (handles S') (mset qs + M) q') \<and> same_calls (handles S) (handles S')
    \<and> results_left (handles S') (mset qs + M)"
proof (cases "\<exists>i fr p. q = In i fr p")
  case True
  then obtain i fr p where q: "q = In i fr p" by blast
  have "(S', qs) \<in> set (in_moves cfg S i fr p)" using step q by simp
  from told_step_in [OF told q this refl results] show ?thesis .
next
  case False
  have alive: "\<not> left_behind q" using False by (auto simp: left_behind_def)
  then have more: "left_more (add_mset q M) (mset qs + M)" by (rule left_more_step)
  note left = results_left_mono [OF results more]
  show ?thesis
  proof (cases q)
    case (MpSpawn k js)
    let ?h = "\<lparr>handle_pool = length js, handle_ctx = context_of k (length js), handle_result = None\<rparr>"
    show ?thesis
    proof (cases "length js < n")
      case True
      with MpSpawn step n have s: "handles S' = handles S @ [?h]"
        "qs = [MpSpawn k (js @ [length (handles S)]),
          In (length js) (Releasing (length (handles S))) (Ctx (CtxClosed (ContextCall (context_of k (length js)))))]"
        by (simp_all add: Let_def)
      have "handle_for (handles S @ [?h]) k i ((js @ [length (handles S)]) ! i)" if "i < Suc (length js)" for i
        using that told MpSpawn by (auto simp: handle_for_def nth_append less_Suc_eq)
      with True s left show ?thesis
        by (auto simp: same_calls_append results_left_def)
    next
      case False
      with MpSpawn step n told left show ?thesis by (auto simp: same_calls_refl)
    qed
  next
    case (MpJoin k js rs)
    show ?thesis
    proof (cases "length rs < n")
      case True
      let ?j = "js ! length rs"
      have h: "handle_for (handles S) k (length rs) ?j" using told MpJoin True by simp
      from MpJoin step told True obtain r where r: "handle_result (handles S ! ?j) = Some r" "S' = S"
        "qs = [MpJoin k js (rs @ [r])]" by (cases "handle_result (handles S ! ?j)") auto
      have "handles S ! ?j \<in> set (handles S)" using h by (simp add: handle_for_def)
      with left r(1) have "left (mset qs + M) (handle_pool (handles S ! ?j)) (handle_ctx (handles S ! ?j)) r"
        unfolding results_left_def by blast
      then have "left (mset qs + M) (length rs) (context_of k (length rs)) r"
        using h by (simp add: handle_for_def)
      moreover have "left (mset qs + M) i (context_of k i) (rs ! i)" if "i < length rs" for i
        using that told MpJoin more by (simp add: left_more_def)
      ultimately show ?thesis
        using told MpJoin r left True by (auto simp: same_calls_refl nth_append less_Suc_eq)
    next
      case False
      then have len: "length rs = n" using told MpJoin by simp
      let ?r = "aggregate (map (\<lambda>(i, r). pool_outcome i r) (enumerate 0 rs))"
      have s: "S' = S" "qs = [MpReturn k ?r]" using MpJoin step told False by simp_all
      have "all_left (mset qs + M) n k" if "?r = Inr ()"
        unfolding all_left_def
      proof (intro allI impI)
        fix i assume i: "i < n"
        have "left (mset qs + M) i (context_of k i) (rs ! i)"
          using i len told MpJoin more by (simp add: left_more_def)
        moreover have "fine_outcome (rs ! i)" using aggregate_fine [OF that] i len by simp
        ultimately show "\<exists>r. left (mset qs + M) i (context_of k i) r \<and> fine_outcome r" by blast
      qed
      with s left show ?thesis by (simp add: same_calls_refl)
    qed
  next
    case (MpReturn k r)
    have "all_left (mset qs + M) n k" if "r = Inr ()"
      using that told MpReturn all_left_mono [OF _ more] by simp
    with MpReturn step left show ?thesis
      by (auto simp: same_calls_refl all_pools_def set_pools_def split: multi_call.splits)
  qed (use False step left in \<open>auto simp: same_calls_refl all_pools_def set_pools_def Let_def
        split: if_splits option.splits\<close>)
qed

lemma multi_told:
  assumes "multi_reachable cfg S0 S M" and "handles S0 = []"
  shows "results_left (handles S) M \<and> (\<forall>q \<in># M. told (length (mpools S0)) (handles S) M q)"
  using assms(1) unfolding multi_reachable_def
proof (induction rule: reachable.induct)
  case start
  show ?case using assms(2) by (auto simp: results_left_def multi_start_def set_mset_sum)
next
  case (enter S M q)
  have more: "left_more M (add_mset q M)"
    unfolding left_more_def
  proof (intro allI impI)
    fix i c r show "left M i c r \<Longrightarrow> left (add_mset q M) i c r" by (cases r) auto
  qed
  have "told (length (mpools S0)) (handles S) (add_mset q M) q" using enter.hyps(2) by (auto elim: multi_entry.cases)
  with enter.IH results_left_mono [OF _ more] told_mono [OF _ same_calls_refl more] show ?case by auto
next
  case (move S q M S' qs)
  let ?n = "length (mpools S0)"
  have n: "length (mpools S) = ?n"
    using multi_placed [of cfg S0 S "add_mset q M"] move.hyps(1) by (simp add: multi_reachable_def)
  from move.IH have told: "told ?n (handles S) (add_mset q M) q" and rest: "\<forall>q' \<in># M. told ?n (handles S) (add_mset q M) q'"
    and results: "results_left (handles S) (add_mset q M)" by simp_all
  note step = told_step [OF told results n move.hyps(2)]
  have "\<not> left_behind q" using left_behind_stays [of q cfg S] move.hyps(2) by auto
  then have more: "left_more (add_mset q M) (mset qs + M)" by (rule left_more_step)
  have "\<forall>q' \<in># M. told ?n (handles S') (mset qs + M) q'"
    using rest step more told_mono by blast
  with step show ?case by auto
qed

section \<open>A completed release of all pools\<close>

lemma In_proj: "In i fr p \<in># M \<Longrightarrow> p \<in># total (proj i) M"
  by (rule total_mset_mem [of "In i fr p"]) simp_all

lemma multi_release_complete:
  assumes sys: "multi_system (\<lambda>p. pool_entry p \<and> no_reboot p) cfg S0 S M" and handles: "handles S0 = []"
    and pools: "\<forall>s0 \<in> set (mpools S0). started s0 \<and> purge_done s0 = 0 \<and> ticktock_done s0 = 0"
    and released: "MpReleased k (Inr ()) \<in># M" and i: "i < length (mpools S0)" and ctx: "context_of k i \<noteq> None"
  shows "is_closed (mpools S ! i) \<and> (In i fr (Pur g) \<in># M \<longrightarrow> g = PurgeDone) \<and> (In i fr (Tck q) \<in># M \<longrightarrow> q = TickDone)"
proof -
  let ?s = "mpools S ! i" and ?N = "total (proj i) M"
  have s0: "started (mpools S0 ! i)" "purge_done (mpools S0 ! i) = 0 \<and> ticktock_done (mpools S0 ! i) = 0"
    using pools i by simp_all
  have "usual_calls (\<lambda>p. pool_entry p \<and> no_reboot (p :: 'a pc))" by (simp add: usual_calls_def)
  then have pool: "system no_reboot cfg (mpools S0 ! i) ?s ?N"
    using pools_of_multi_system [OF sys _ i] by blast
  have "told (length (mpools S0)) (handles S) M (MpReleased k (Inr ()))"
    using multi_told [OF multi_system_reachable [OF sys] handles] released by blast
  then have "\<exists>r. left M i (context_of k i) r \<and> fine_outcome r" using i by (simp add: all_left_def)
  then obtain r where r: "left M i (context_of k i) r" "fine_outcome r" by blast
  have "r \<noteq> Panicked"
  proof
    assume "r = Panicked"
    then have "Rel RelAborted \<in># ?N" using r(1) In_proj by fastforce
    from queue_total [OF s0(1) system_pool_reachable [OF pool] this] show False by simp
  qed
  then have "Ctx (CtxResult (ContextCall (context_of k i)) (Inr ())) \<in># ?N"
    using r In_proj by (fastforce simp: fine_outcome_def)
  from release_progress [OF s0(1) pool this] ctx
  have "pool_state ?s = CLOSED" and flags: "disable_purge (options ?s) \<or> purge_done ?s = 1" "ticktock_done ?s = 1"
    by (simp_all add: level_fits_def result_level_def)
  then show ?thesis
    using background_gone [OF s0 pool flags, of g q] In_proj by (auto simp: is_closed_def)
qed

end
