(* ===== verification/Multi_Demo.thy ===== *)
theory Multi_Demo
  imports Multi_Release Pool_Demo
begin

text \<open>Concrete runs of a multi-pool of two pools of capacity one, for the witnesses of the properties.\<close>

definition demo_two :: "(nat, unit, unit) multi_state" where
  "demo_two = \<lparr>multi = \<lparr>pools = [demo_pool, demo_pool], index = - 1, mp_state = OPENED, mp_lbs = ROUND_ROBIN\<rparr>, handles = []\<rparr>"

lemmas demo_multi_eval = in_moves_def resume_def tag_def set_pools_def all_pools_def ctx_copies_def mp_is_closed_def
  next_pool_def after_failure_def finish_handle_def pool_outcome_def aggregate_def upt_rec

lemma demo_two_start: "multi_start demo_two = mset [In 0 Nobody (Tck TickStart), In 1 Nobody (Tck TickStart)]"
  by (simp add: multi_start_def demo_two_def demo_initial lessThan_Suc)

lemma multi_play:
  assumes "play (multi_moves demo_config) demo_two (calls @ [In 0 Nobody (Tck TickStart), In 1 Nobody (Tck TickStart)]) schedule
      = Some (S, qs)"
    and "list_all (\<lambda>q. multi_entry q \<and> calls_fit E q) calls"
  shows "multi_system E demo_config demo_two S (mset qs)"
proof (rule play_reachable [OF _ assms(1)])
  have "multi_system E demo_config demo_two demo_two (mset calls + multi_start demo_two)"
    by (rule reachable_enter_all [OF reachable.start assms(2)])
  then show "multi_system E demo_config demo_two demo_two
    (mset (calls @ [In 0 Nobody (Tck TickStart), In 1 Nobody (Tck TickStart)]))"
    by (simp add: demo_two_start)
qed

text \<open>The first task went to the first pool.\<close>

definition demo_first :: "(nat, unit, unit) multi_state" where
  "demo_first = demo_two\<lparr>multi := (multi demo_two)\<lparr>pools := [demo_sent, demo_pool], index := 0\<rparr>\<rparr>"

lemma demo_first_system:
  "multi_system E demo_config demo_two demo_first
     {#MpDone 7, In 0 Nobody (Sub (SubDone 7)), In 0 Nobody (Wrk (Work 0)), In 0 Nobody (Tck TickStart), In 1 Nobody (Tck TickStart)#}"
proof -
  have "play (multi_moves demo_config) demo_two ([MpSubmit 7] @ [In 0 Nobody (Tck TickStart), In 1 Nobody (Tck TickStart)])
      (replicate 14 (0, 0)) = Some (demo_first,
        [MpDone 7, In 0 Nobody (Sub (SubDone 7)), In 0 Nobody (Wrk (Work 0)), In 0 Nobody (Tck TickStart), In 1 Nobody (Tck TickStart)])"
    by (simp add: demo_multi_eval demo_eval demo_pool_eval demo_two_def demo_first_def demo_sent_def numeral_eq_Suc)
  from multi_play [OF this, of E] show ?thesis by (simp add: multi_entry.intros)
qed

text \<open>Both pools were released with a timeout, and their clocks have stopped.\<close>

definition demo_both :: "(nat, unit, unit) multi_state" where
  "demo_both = \<lparr>multi = (multi demo_two)\<lparr>pools := [demo_released, demo_released], mp_state := CLOSED\<rparr>,
     handles = [\<lparr>handle_pool = 0, handle_ctx = Some 1, handle_result = Some (Returned (Inr ()))\<rparr>,
       \<lparr>handle_pool = 1, handle_ctx = Some 1, handle_result = Some (Returned (Inr ()))\<rparr>]\<rparr>"

definition demo_both_threads :: "nat mpc list" where
  "demo_both_threads = [MpReleased (TimeoutRelease [1, 1]) (Inr ()),
     In 1 Nobody (Ctx (CtxResult (ContextCall (Some 1)) (Inr ()))), In 1 Nobody (Tck TickDone),
     In 0 Nobody (Ctx (CtxResult (ContextCall (Some 1)) (Inr ()))), In 0 Nobody (Tck TickDone)]"

lemma demo_both_system: "multi_system E demo_config demo_two demo_both (mset demo_both_threads)"
proof -
  have "play (multi_moves demo_config) demo_two ([MpTimeout (Duration 5)] @ [In 0 Nobody (Tck TickStart), In 1 Nobody (Tck TickStart)])
      (replicate 4 (0, 0) @ [(2, 0)] @ replicate 8 (0, 0) @ [(3, 0), (0, 0), (0, 0), (1, 0)] @ replicate 16 (0, 0)
        @ [(3, 0)] @ replicate 8 (0, 0) @ [(4, 0), (0, 0), (0, 0), (1, 0)] @ replicate 16 (0, 0) @ [(4, 0)] @ replicate 4 (0, 0))
     = Some (demo_both, demo_both_threads)"
    by (simp add: demo_multi_eval demo_eval demo_pool_eval demo_two_def demo_both_def demo_released_def demo_release_eval
        demo_both_threads_def numeral_eq_Suc)
  from multi_play [OF this, of E] show ?thesis by (simp add: multi_entry.intros)
qed

end
