(* ===== verification/Spec2Isabelle.thy ===== *)
theory Spec2Isabelle
  imports Spin_Lock Pool_Nonblocking Pool_Races Pool_Background Panic_Hook Public_Api Multi_Demo
begin

text \<open>
  A model of ants, a pool of worker threads that a caller hands tasks to (crate under src/, in
  src/src/), and the theorems that make it correct.

  THE PROGRAM. A pool (\<open>PoolCore\<close>, src/src/pool_common.rs) owns worker threads (src/src/worker.rs). A
  caller of \<open>submit\<close> takes an idle worker from the queue (src/src/worker_stack.rs, or the pre-allocated
  ring of src/src/worker_loop_queue.rs, behind the trait of src/src/worker_queue.rs), starts a new one while the
  capacity allows, waits on a condition variable (src/src/deps/cond.rs) or is refused, and sends its task
  down the worker's channel. The worker runs it and parks itself again. The queue is guarded by a spin lock
  (src/src/pkg/sync/spinlock.rs). Two background threads evict workers that were idle too long and refresh the
  pool's clock; they stop when a context (src/src/deps/context.rs) is cancelled. A pool can be tuned,
  released (at once, or waiting for its workers with a time-out or a context) and rebooted. Three flavours
  (src/src/pool.rs, pool_func.rs, pool_func_generic.rs) differ in what a task is. A multi-pool
  (src/src/multipool.rs, multipool_func.rs, multipool_func_generic.rs) spreads tasks over several pools.

  THE THEORIES, each with the files it models.
  Ants_Prelude: 32-bit and 64-bit integers as \<open>int\<close> with range check or wrap-around (the first argument
  \<open>oc\<close> of an operation says whether the build checks for overflow), panics as \<open>None\<close>, generic lemmas.
  Ants_Error: src/src/lib.rs (errors and their text, constants, channel capacity).
  Go_Time, Go_Log: src/src/deps/gotime.rs, src/src/deps/golog.rs.
  Go_Context: src/src/deps/event.rs (the latch) and src/src/deps/context.rs.
  Pool_Options: src/src/options.rs.
  Worker_Queue: the contract of the trait as a locale \<open>worker_queue\<close>, with its LIFO and FIFO extensions;
  Worker_Stack, Loop_Queue: the two queues, each an interpretation of it; Queue_Factory: the boxed queue.
  Interleaving: threads as program counters over shared state, reachability, the two locales by which
  invariants are proved, \<open>ledger\<close> (the state accounts for a total over the threads) and
  \<open>thread_invariant\<close>, and the locale \<open>potential\<close> for bounds on the number of steps.
  Spin_Lock, Cond_Var: the lock and the condition variable with their own small systems of threads.
  Pool_State: the record of \<open>PoolCore\<close> and \<open>GoWorker\<close> and every operation that is one access to it.
  Pool_Threads: \<open>submit\<close>, \<open>retrieve_worker\<close>, \<open>work\<close>, \<open>revert_worker\<close>, \<open>release\<close>, \<open>release_context\<close>,
  \<open>release_timeout\<close>, \<open>tune\<close>, \<open>reboot\<close>, \<open>purge_stale_workers\<close> and \<open>ticktock\<close> as step functions, one step per
  access to shared state, and \<open>pool_reachable\<close>: what any number of callers can lead to.
  Pool_Steps: the steps by inversion. Pool_Locking, Pool_Ownership, Pool_Counting, Pool_Shutdown,
  Pool_Wakeups, Pool_Typing, Pool_Release: the invariants (lock, queue and condition variable; where workers,
  threads and tasks are; counters, limit and capacity; errors, panics, draining, the latch; wake-ups;
  well-formedness; the outcome of a waiting release and the holders of cancel functions).
  Pool_Flavours: the flavours' constructors and tasks, the default pool.
  Pool_Alone, Pool_Lifecycle: whole calls of \<open>submit\<close>, \<open>release\<close> and \<open>reboot\<close> that nobody interferes with;
  Pool_Background: one round of each background thread on its own.
  Pool_Progress, Pool_Nonblocking: bounds on the steps of worker threads and of callers, by accounting (the locale
  \<open>potential\<close> of Interleaving), and what the workers on their own achieve.
  Panic_Hook: the process-wide panic hook of src/src/worker.rs, its \<open>Once\<close> and the thread-local flag that
  \<open>call\<close> sets, with threads of their own.
  Multi_Pool: the trait \<open>Poolish\<close> as a record of operations and \<open>MultiPoolCore\<close> on top of it; Multi_Pool_Core:
  the crate's pools as \<open>Poolish\<close>, an interpretation of the contract that dispatching relies on.
  Multi_Threads: the operations of \<open>MultiPoolCore\<close> as threads that interleave with each other and with all
  threads of all pools; a call of a pool is a thread of Pool_Threads with a frame that says how its caller goes
  on. Multi_System: the projection onto one pool. Multi_Tasks, Multi_Release: where tasks are, errors, the pick
  of a pool, and what a release of all pools has done.
  Public_Api: every public method; the entries of the interleaving model are exactly these calls.
  Pool_Demo, Multi_Demo: concrete runs for the witnesses. Pool_Races: runs that go against expectation.

  WHAT IS SHOWN. Of a pool, under any interleaving of any calls: mutual exclusion; accepted tasks are
  neither lost nor run twice, and the workers on their own can always finish them; \<open>k\<close> submissions cause at
  most \<open>20 k\<close> steps of worker threads; a nonblocking pool lets each caller return after ten steps of its own;
  every worker is in one place; messages go only to workers that listen; lock
  holders are never blocked; capacity and waiting limit are respected; the errors of \<open>submit\<close>; no panics
  below 2 ^ 31 workers; a released pool is drained and closes its latch; a waiting release that succeeds
  has ended the background threads, one that fails says why; no caller sleeps beside an idle worker;
  \<open>tune\<close> has no effect on unlimited and pre-allocated pools; no reference dangles. Of single calls: the
  constructor's outcomes, the specification of a submission, termination and effect of \<open>release\<close> and
  \<open>reboot\<close>. Of the parts: the queues against their contract (binary search, bounded FIFO, exact eviction,
  conservation), the lock, the condition variable, contexts, options, log lines, durations. Of the panic hook:
  silent exactly inside tasks. Of multi-pools: fairness of round robin, dispatch, construction, aggregation of
  errors, sums; and under any interleaving: each pool runs as it would on its own (so all invariants carry over),
  accepted tasks are neither lost nor run twice, the errors of \<open>submit\<close>, a release of all pools that
  succeeds has ended them. Against expectation: a wake-up can be lost for good, by a race
  or by a panic handler that panics, a thread that the system refuses takes a slot of the capacity for good,
  a reboot can leave a pool that
  nothing makes usable again, a task can run after a release that has returned, a purge can keep an expired worker.

  BOUNDS AND FUEL. The invariants of running pools assume \<open>started\<close>: a new pool whose ring, if it has one, has
  at most 715827883 slots. That is the size up to which the 32-bit sum at the end of the ring's binary search
  cannot overflow, and \<open>ring_search_overflows\<close> shows that it is the largest such size. \<open>run_alone\<close> takes
  fuel: a submission that does not wait needs at most ten steps (12 are given), a release fourteen and one per parked
  worker, a reboot seventeen; the theorems prove that this is enough. \<open>solo\<close> counts steps exactly: a purge round takes
  at most nine and one per evicted worker. The 64-bit generation of the condition
  variable and the 32-bit ticket of round robin wrap around; theorems that would need otherwise say so in
  their hypotheses (\<open>open_system\<close> stops at the wrap-around of the generation).

  MODELLING CHOICES. Atomics are sequentially consistent. A mutex of the standard library is held within one
  step. A channel of capacity zero lets its sender go on as soon as its message is the only one, which adds
  runs and removes none. The standard condition variable may wake any sleeper, and spuriously. Clocks and user
  contexts are moved by the environment. A user function returns or panics; it may call the pool, as one
  more caller. The system may refuse any thread of a worker or of a reboot. A panic handler or logger returns, or panics and so ends its worker at once. In Multi_Pool and
  Multi_Pool_Core a pool is called one call at a time, in Multi_Threads everything interleaves. A context that pools share is one copy in each pool; the copies are made, moved on in
  time and cancelled together. In Panic_Hook programs do not replace the panic hook themselves.

  NOT MODELLED. A constructor whose background thread the system refuses, and a \<open>release_pools\<close> whose scoped
  thread it refuses (both panic; refused workers and refused threads of a reboot are modelled); the
  calendar of chrono, which is an input of the log line; \<open>GoWorker::with_last_used\<close> and the module
  \<open>internal\<close>, which serve the tests.
\<close>

section \<open>Properties of a pool\<close>

text \<open>C1: The spin lock of a pool is a mutex: whatever the interleaving of callers, workers, background
  threads, releases, tunes and reboots, at most one thread is between taking and leaving the lock, and
  the lock's state says whether there is one.\<close>

theorem pool_mutual_exclusion:
  assumes "started s0" and "pool_reachable cfg s0 s M"
  shows "size (filter_mset (\<lambda>p. holds p = 1) M) \<le> 1
    \<and> lock_state s = size (filter_mset (\<lambda>p. holds p = 1) M)"
  using lock_balanced [OF assms] total_holds_size [of M] by simp

theorem pool_mutual_exclusion_witness:
  "size (filter_mset (\<lambda>p. holds p = 1) (mset demo_busy_threads)) \<le> 1
    \<and> lock_state demo_busy = size (filter_mset (\<lambda>p. holds p = 1) (mset demo_busy_threads))"
  by (rule pool_mutual_exclusion [OF demo_started demo_busy_reachable])

text \<open>C2: No accepted task is lost or run twice: as often as \<open>submit\<close> has returned \<open>Ok\<close> for a task, it
  has been executed, is being executed, or is on its way in a worker's channel.\<close>

theorem accepted_tasks_conserved:
  assumes "started s0" and "pool_reachable cfg s0 s M"
  shows "count M (Sub (SubDone t)) = count_list (executed s) t + in_mail t (mail s)
    + size (filter_mset (\<lambda>p. \<exists>w. p = Wrk (WorkCall w t)) M)"
  using task_balanced [OF assms, of t] settled_split [of t M] by (simp add: task_book_def)

theorem accepted_tasks_conserved_witness:
  "count (mset demo_busy_threads) (Sub (SubDone 7)) = count_list (executed demo_busy) 7
    + in_mail 7 (mail demo_busy) + size (filter_mset (\<lambda>p. \<exists>w. p = Wrk (WorkCall w 7)) (mset demo_busy_threads))"
  by (rule accepted_tasks_conserved [OF demo_started demo_busy_reachable])

text \<open>C5: Every worker is in one place at a time: parked in the queue once, retired in the cache once,
  addressed by at most one message, or in the hands of one thread; and no worker has two threads.\<close>

theorem worker_in_one_place:
  assumes "started s0" and "pool_reachable cfg s0 s M"
  shows "count (mset (wq_parked (workers s))) w + count (mset (worker_cache s)) w
      + length (channel w (mail s)) + count (total owned M) w \<le> 1
    \<and> count (total runs M) w \<le> 1"
  using worker_places [OF assms] one_thread [OF assms] by blast

theorem worker_in_one_place_witness:
  "count (mset (wq_parked (workers demo_busy))) 0 + count (mset (worker_cache demo_busy)) 0
      + length (channel 0 (mail demo_busy)) + count (total owned (mset demo_busy_threads)) 0 \<le> 1
    \<and> count (total runs (mset demo_busy_threads)) 0 \<le> 1"
  by (rule worker_in_one_place [OF demo_started demo_busy_reachable])

text \<open>C6: Nothing is sent into the void: whenever a message is on its way to a worker, or the worker is
  parked for the next caller, its thread is running and is receiving or about to receive.\<close>

theorem addressed_worker_listens:
  assumes "started s0" and "pool_reachable cfg s0 s M"
    and "w \<in> set (wq_parked (workers s)) \<or> channel w (mail s) \<noteq> []"
  shows "Wrk (Work w) \<in># M \<or> Rev (RevSignal w) \<in># M \<or> Rev (RevUnlock w) \<in># M"
  using listener [OF assms] by (auto elim: listens.elims)

theorem addressed_worker_listens_witness:
  "channel 0 (mail demo_sent) = [Payload 7] \<and>
    (let M = {#Sub (SubDone 7), Wrk (Work 0), Tck TickStart#} in
     Wrk (Work 0) \<in># M \<or> Rev (RevSignal 0) \<in># M \<or> Rev (RevUnlock 0) \<in># M)"
proof -
  have "channel 0 (mail demo_sent) = [Payload 7]" by (simp add: demo_sent_def channel_def)
  with addressed_worker_listens [OF demo_started demo_sent_reachable, of 0] show ?thesis
    unfolding Let_def by simp
qed



text \<open>C8: In a pool of finite capacity whose users never tune it above \<open>K\<close>, no more than \<open>K\<close> worker threads
  are alive, and \<open>running\<close> is their exact number: the wrap-around of the counter is out of reach. (A worker
  whose thread the system refused is in the count for good, in the code as in the model.)\<close>

theorem running_within_capacity:
  assumes "started s0" and "finite_upto K s0" and "system (tunes_upto K) cfg s0 s M"
  shows "running s = int (total alive M) \<and> 0 \<le> running s \<and> running s \<le> K"
  using capacity_respected [OF assms] by simp

theorem running_within_capacity_witness:
  "running demo_busy = int (total alive (mset demo_busy_threads)) \<and> 0 \<le> running demo_busy \<and> running demo_busy \<le> 1"
  by (rule running_within_capacity [OF demo_started demo_finite demo_busy_system]) simp_all

text \<open>C9: Callers that wait respect the options: none in a nonblocking pool, never more than
  \<open>max_blocking_tasks\<close> when that is set; and \<open>waiting\<close> counts them (modulo the wrap-around).\<close>

theorem waiting_within_limit:
  assumes "started s0" and "pool_reachable cfg s0 s M"
  shows "waiting s = wrap_i32 (int (total waits M))
    \<and> (nonblocking (options s0) \<longrightarrow> total waits M = 0)
    \<and> (max_blocking_tasks (options s0) \<noteq> 0 \<longrightarrow>
         int (total waits M) \<le> max 0 (max_blocking_tasks (options s0)))"
  using waiting_balanced [OF assms] limit_balanced [OF assms] waits_le_admitted [of M]
    options_constant [OF assms(2)]
  by (auto simp: limit_book_def)

theorem waiting_within_limit_witness:
  "total waits (mset demo_busy_threads) = 1 \<and> waiting demo_busy = wrap_i32 (int (total waits (mset demo_busy_threads)))
    \<and> int (total waits (mset demo_busy_threads)) \<le> max 0 (max_blocking_tasks (options demo_pool))"
proof -
  have "max_blocking_tasks (options demo_pool) \<noteq> 0"
    by (simp add: demo_pool_def empty_pool_def demo_options_def)
  moreover have "total waits (mset demo_busy_threads) = 1" by (simp add: demo_busy_threads_def)
  ultimately show ?thesis
    using waiting_within_limit [OF demo_started demo_busy_reachable] by blast
qed

text \<open>C10: A call of \<open>submit\<close> fails only with \<open>PoolClosed\<close> or \<open>PoolOverload\<close>, and with the latter only in a pool
  that is nonblocking or limits its waiting callers.\<close>

theorem submit_errors:
  assumes "pool_reachable cfg s0 s M" and "Sub (SubFail t e) \<in># M"
  shows "e = PoolClosed \<or> e = PoolOverload \<and>
    (nonblocking (options s0) \<or> max_blocking_tasks (options s0) \<noteq> 0)"
  using errors_fit [OF assms] by (simp add: overload_possible_def)

theorem submit_errors_witness:
  "Sub (SubFail 9 PoolOverload) \<in># mset demo_refused_threads
    \<and> (PoolOverload = PoolClosed \<or> PoolOverload = PoolOverload \<and>
        (nonblocking (options demo_pool) \<or> max_blocking_tasks (options demo_pool) \<noteq> 0))"
proof -
  have member: "Sub (SubFail 9 PoolOverload) \<in># mset demo_refused_threads"
    by (simp add: demo_refused_threads_def)
  with submit_errors [OF demo_refused_reachable member] show ?thesis by blast
qed

text \<open>As long as nobody releases the pool, it stays open and no caller is told that it is closed.\<close>

lemma unreleased_pool_serves:
  assumes "started s0" and "system keeps_open cfg s0 s M"
  shows "pool_state s = OPENED \<and> Sub (SubFail t PoolClosed) \<notin># M"
  using stays_open [OF assms] by (auto dest!: bspec)

lemma unreleased_pool_serves_example:
  "pool_state demo_busy = OPENED \<and> Sub (SubFail 8 PoolClosed) \<notin># mset demo_busy_threads"
  by (rule unreleased_pool_serves [OF demo_started demo_busy_system]) simp_all



text \<open>C13: A closed pool keeps no worker: once every release that closed it has reset the queue, the queue is
  empty, and no worker can park itself any more.\<close>

theorem closed_pool_is_drained:
  assumes "started s0" and "pool_reachable cfg s0 s M" and "pool_state s = CLOSED"
    and "True \<notin># total draining M"
  shows "wq_parked (workers s) = [] \<and> Rev (RevInsert w) \<notin># M"
  using drained [OF assms(1,2)] assms(3,4) total_mset_mem [of "Rev (RevInsert w)" M False draining]
  by (auto simp: drain_book_def)

theorem closed_pool_is_drained_witness:
  "pool_state demo_closed = CLOSED \<and> wq_parked (workers demo_closed) = []
    \<and> Rev (RevInsert 0) \<notin># mset demo_closed_threads"
proof -
  have c: "pool_state demo_closed = CLOSED" by (simp add: demo_closed_def)
  have "True \<notin># total draining (mset demo_closed_threads)" by (simp add: demo_closed_threads_def)
  from closed_pool_is_drained [OF demo_started demo_closed_reachable c this] c show ?thesis by blast
qed





text \<open>C17: A waiting release that reports success is final: in a pool that is not rebooted, once
  \<open>release_timeout\<close> has returned \<open>Ok\<close>, the pool is closed, its flags say that the background threads are
  done, and neither a \<open>purge_stale_workers\<close> nor a \<open>ticktock\<close> thread is left.\<close>

theorem completed_release_is_final:
  assumes "core_new dflt clock n opts = Some (Inr s0)" and "started s0" and "system no_reboot cfg s0 s M"
    and "Tmo (TimeoutResult (Inr ())) \<in># M"
  shows "is_closed s \<and> (disable_purge (options s) \<or> purge_done s = 1) \<and> ticktock_done s = 1
    \<and> (Pur g \<in># M \<longrightarrow> g = PurgeDone) \<and> (Tck q \<in># M \<longrightarrow> q = TickDone)"
proof -
  have "is_closed s" "disable_purge (options s) \<or> purge_done s = 1" "ticktock_done s = 1"
    using release_progress [OF assms(2-4)] by (simp_all add: level_fits_def is_closed_def)
  with background_gone [OF assms(2) core_new_flags [OF assms(1)] assms(3)] show ?thesis by blast
qed

theorem completed_release_is_final_witness:
  "Tmo (TimeoutResult (Inr ())) \<in># {#Tmo (TimeoutResult (Inr ())), Tck TickDone :: nat pc#}
    \<and> is_closed demo_released \<and> ticktock_done demo_released = 1"
proof -
  have "system no_reboot demo_config demo_pool demo_released {#Tmo (TimeoutResult (Inr ())), Tck TickDone#}"
    by (rule demo_released_system) simp
  from completed_release_is_final [OF demo_new demo_started this] show ?thesis by simp
qed

text \<open>C18: \<open>release_timeout\<close> succeeds or fails with \<open>PoolClosed\<close> or \<open>Timeout\<close>, whatever else happens to the pool: its
  caller never sees \<open>DeadlineExceeded\<close>, and since nobody else can cancel its private context, not \<open>Canceled\<close> either.\<close>

theorem release_timeout_errors:
  assumes "core_new dflt clock n opts = Some (Inr s0)" and "pool_reachable cfg s0 s M"
    and "Tmo (TimeoutResult r) \<in># M"
  shows "r = Inr () \<or> r = Inl PoolClosed \<or> r = Inl Timeout"
  using releases_fit [OF core_new_cancels [OF assms(1)] assms(2,3)] by simp

theorem release_timeout_errors_witness:
  "pool_reachable demo_config demo_pool demo_impatient
     {#Tmo (TimeoutResult (Inl Timeout)), Sub (SubDone 7), Wrk (Work 0), Tck TickStart#}
   \<and> (Inl Timeout = (Inr () :: error + unit) \<or> Inl Timeout = (Inl PoolClosed :: error + unit)
       \<or> Inl Timeout = (Inl Timeout :: error + unit))"
  using release_timeout_errors [OF demo_new demo_impatient_reachable, of "Inl Timeout"] demo_impatient_reachable
  by simp

section \<open>Capacity and submission\<close>

text \<open>Tuning has no effect on an unlimited or a pre-allocated pool: whatever the calls and however
  they interleave, its capacity stays what it was.\<close>

lemma tune_inert:
  assumes "capacity s0 = - 1 \<or> pre_alloc (options s0)" and "pool_reachable cfg s0 s M"
  shows "capacity s = capacity s0"
  using thread_invariant.invariant [OF untunable_invariant [OF assms(1)], of cfg s M] assms(2)
  by (simp add: pool_reachable_def untunable_def)

definition demo_unlimited :: "(nat, unit, unit) pool" where
  "demo_unlimited = go_ticktock (go_purge (empty_pool (- 1) (StackQ (stack_new 0)) demo_options 0))"

lemma demo_unlimited_initial: "initial_threads (options demo_unlimited) = {#Tck TickStart#}"
  by (simp add: initial_threads_def demo_unlimited_def demo_options_def empty_pool_def)

lemma demo_tuned_reachable:
  "pool_reachable demo_config demo_unlimited (demo_unlimited\<lparr>pool_state := CLOSED\<rparr>)
    (mset [Rel (RelTakePurge ReleaseReturns), Tun TuneDone, Tck TickStart])"
  unfolding pool_reachable_def
proof (rule play_reachable)
  show "reachable (pool_moves demo_config) demo_unlimited (initial_threads (options demo_unlimited)) pool_entry demo_unlimited
    (mset [Tun (TuneCap 5), Rel (RelCas ReleaseReturns), Tck TickStart])"
    using reachable_enter_all [OF reachable.start, of pool_entry "[Tun (TuneCap 5), Rel (RelCas ReleaseReturns)]"
        "pool_moves demo_config" demo_unlimited "initial_threads (options demo_unlimited)"]
    by (simp add: demo_unlimited_initial in_i32_def add_mset_commute)
  show "play (pool_moves demo_config) demo_unlimited [Tun (TuneCap 5), Rel (RelCas ReleaseReturns), Tck TickStart] [(0, 0), (1, 0)]
    = Some (demo_unlimited\<lparr>pool_state := CLOSED\<rparr>, [Rel (RelTakePurge ReleaseReturns), Tun TuneDone, Tck TickStart])"
    by (simp add: demo_unlimited_def tune_moves.simps tune_plan_def demo_eval empty_pool_def)
qed

lemma tune_inert_example: "capacity (demo_unlimited\<lparr>pool_state := CLOSED\<rparr>) = capacity demo_unlimited"
  by (rule tune_inert [OF _ demo_tuned_reachable]) (simp add: demo_unlimited_def empty_pool_def)


text \<open>C20: What one submission does, when no other thread interferes: the error, with the task handed back
  and the pool untouched, if the pool is closed or full; a parked worker if there is one; otherwise a new
  worker (from the cache if possible) while the capacity allows; and it waits only if all else fails.\<close>

theorem submission_specified:
  assumes "at_rest s"
  shows "deliver_alone cfg s t =
    (case retrieve_spec s of
       Refused e \<Rightarrow> Some (Inl (e, t), s)
     | Blocked \<Rightarrow> None
     | Reused w \<Rightarrow> Some (Inr (), reuse_effect w t s)
     | Started w \<Rightarrow> Some (Inr (), start_effect w t s))"
  using assms by (rule deliver_alone_spec)

theorem submission_specified_witness:
  "deliver_alone demo_config demo_pool 7 =
    (case retrieve_spec demo_pool of
       Refused e \<Rightarrow> Some (Inl (e, 7), demo_pool)
     | Blocked \<Rightarrow> None
     | Reused w \<Rightarrow> Some (Inr (), reuse_effect w 7 demo_pool)
     | Started w \<Rightarrow> Some (Inr (), start_effect w 7 demo_pool))"
  by (rule submission_specified)
    (simp add: at_rest_def demo_pool_def empty_pool_def stack_new_def wq_ok_def cond_new_def in_i32_def channel_def)


text \<open>The default pool of the crate can always be made (the \<open>expect\<close> in it never fires): it starts
  open with the largest capacity, and submissions to it wait without a limit when it is full.\<close>

lemma default_pool_valid:
  "\<exists>s. default_ants_pool env clock run = Some (Inr (env\<lparr>run_payload := pool_payload run\<rparr>, s)) \<and> started s
    \<and> get_cap s = i32_max \<and> \<not> is_closed s \<and> \<not> nonblocking (options s) \<and> max_blocking_tasks (options s) = 0"
  by (simp add: default_ants_pool_def pool_new_def with_core_Inr core_new_def load_options_def default_options_def
      ZERO_def less_duration_def normal_size_def DEFAULT_ANTS_POOL_SIZE_def new_worker_queue_stack started_def
      fresh_pool_def empty_pool_def stack_new_def in_i32_def is_closed_def get_cap_def Let_def)

section \<open>Lifecycle\<close>

text \<open>C21: A pool is well-formed at every moment, from its constructor on: the counters are 32-bit values, the
  state and the flags have one of their values, the capacity is positive or minus one, and no context or
  latch that the pool or one of its threads refers to is missing.\<close>

theorem pool_well_formed:
  assumes "core_new dflt clock n opts = Some (Inr s0)" and "n \<le> i32_max" and "pool_reachable cfg s0 s M"
  shows "pool_wf s M"
  using core_new_wf [OF assms(1,2)] pool_wf_reachable [OF _ _ _ assms(3)] by blast

theorem pool_well_formed_witness: "pool_wf demo_busy (mset demo_busy_threads)"
  by (rule pool_well_formed [OF demo_new _ demo_busy_reachable]) simp




text \<open>C23: A reboot of a quiet pool returns after at most seventeen steps and restores service: the pool is
  open, its background threads are started anew, its latch is a new, open one, and the next submission is
  served by a worker.\<close>

theorem reboot_restores_service:
  assumes "quiet s" and "at_rest s" and "wq_parked (workers s) = []" and "running s = 0"
    and "capacity s = - 1 \<or> 0 < capacity s"
  shows "\<exists>s' w. run_alone cfg 17 s (Reb RebState) = Some (s', Reb RebDone, background_threads (options s))
    \<and> \<not> is_closed s' \<and> \<not> event_closed (all_done s') s'
    \<and> deliver_alone cfg s' t = Some (Inr (), start_effect w t s')"
proof -
  let ?s = "reboot_effect s"
  have same: "workers ?s = workers s" "lock_state ?s = lock_state s" "running ?s = running s" "pool_cond ?s = pool_cond s"
    "mail ?s = mail s" "worker_cache ?s = worker_cache s" "next_worker ?s = next_worker s" "capacity ?s = capacity s"
    "pool_state ?s = OPENED" "\<not> event_closed (all_done ?s) ?s"
    by (simp_all add: reboot_effect_def Let_def event_closed_def event_is_closed_def)
  have "at_rest ?s" using assms(2) by (simp add: at_rest_def same)
  moreover have "\<exists>w. retrieve_spec ?s = Started w"
    using assms(3,4,5) by (auto simp: retrieve_spec_def same)
  ultimately have "\<exists>w. deliver_alone cfg ?s t = Some (Inr (), start_effect w t ?s)"
    by (auto simp: deliver_alone_spec)
  with reboot_alone [OF assms(1), of cfg] same show ?thesis by (auto simp: is_closed_def)
qed

definition demo_quiet :: "(nat, unit, unit) pool" where
  "demo_quiet = demo_pool\<lparr>pool_state := CLOSED, events := [event_close event_new], ticktock_done := 1\<rparr>"

theorem reboot_restores_service_witness:
  "\<exists>s' w. run_alone demo_config 17 demo_quiet (Reb RebState) = Some (s', Reb RebDone, background_threads (options demo_quiet))
    \<and> \<not> is_closed s' \<and> \<not> event_closed (all_done s') s'
    \<and> deliver_alone demo_config s' 7 = Some (Inr (), start_effect w 7 s')"
  by (rule reboot_restores_service)
    (simp_all add: demo_quiet_def demo_pool_def quiet_def at_rest_def wq_ok_def empty_pool_def stack_new_def channel_def
      cond_new_def in_i32_def demo_options_def event_closed_def event_is_closed_def)

section \<open>Multi-pools\<close>

lemma demo_at_rest: "at_rest demo_pool"
  by (simp add: at_rest_def demo_pool_def empty_pool_def stack_new_def wq_ok_def cond_new_def in_i32_def channel_def)

lemma demo_delivered: "deliver_alone demo_config demo_pool 7 = Some (Inr (), start_effect 0 7 demo_pool)"
proof -
  have "retrieve_spec demo_pool = Started 0"
    by (simp add: retrieve_spec_def demo_pool_def empty_pool_def stack_new_def)
  then show ?thesis using deliver_alone_spec [OF demo_at_rest] by simp
qed

definition demo_multi_pool :: "(nat, unit, unit) pool multi_pool" where
  "demo_multi_pool = \<lparr>pools = [demo_pool], index = - 1, mp_state = OPENED, mp_lbs = ROUND_ROBIN\<rparr>"

text \<open>A task that a multi-pool of this crate's pools accepts is delivered, and it is the task that was
  submitted, even when another pool refused it first: some pool, well-formed when it got the task, accepted
  exactly it, and is a pool of the multi-pool afterwards.\<close>

lemma accepted_task_reaches_a_pool:
  assumes "mp_sized mp" and "\<not> mp_is_closed mp" and "mp_lbs mp = ROUND_ROBIN \<or> mp_lbs mp = LEAST_TASKS"
    and "\<forall>p \<in> set (pools mp). i32_running p"
    and "dispatch (core_poolish cfg fuel) t mp = Some (Inr (), mp')"
  shows "\<exists>p p'. i32_running p \<and> p' \<in> set (pools mp') \<and> deliver_alone cfg p t = Some (Inr (), p')"
  using pools.dispatch_carries [OF assms] by (simp add: core_poolish_def)

lemma accepted_task_reaches_a_pool_example:
  "\<exists>p p'. i32_running p \<and> p' \<in> set (pools (demo_multi_pool\<lparr>pools := [start_effect 0 7 demo_pool], index := 0\<rparr>))
    \<and> deliver_alone demo_config p 7 = Some (Inr (), p')"
proof (rule accepted_task_reaches_a_pool [where mp = demo_multi_pool and fuel = 0])
  have sized: "mp_sized demo_multi_pool" by (simp add: mp_sized_def demo_multi_pool_def)
  then show "mp_sized demo_multi_pool" .
  have turn: "next_pool P ROUND_ROBIN demo_multi_pool = Some (0, demo_multi_pool\<lparr>index := 0\<rparr>)" for P :: "((nat, unit, unit) pool, nat, nat) poolish"
    using next_round_robin [OF sized, of P] by (simp add: demo_multi_pool_def)
  show "dispatch (core_poolish demo_config 0) 7 demo_multi_pool
    = Some (Inr (), demo_multi_pool\<lparr>pools := [start_effect 0 7 demo_pool], index := 0\<rparr>)"
    using turn demo_delivered
    by (simp add: dispatch_def deliver_by_def mp_is_closed_def demo_multi_pool_def core_poolish_def usize_of_i32_def)
qed (simp_all add: demo_multi_pool_def mp_is_closed_def i32_running_def demo_pool_def empty_pool_def in_i32_def)

text \<open>C35: Every pool of a multi-pool behaves like a pool on its own: whatever the calls of the multi-pool and however
  they interleave with each other and with the workers of all pools, what happens to one pool, its threads and
  the calls it gets is a run of that pool with callers of its own. All invariants of a pool hold for it.\<close>

theorem multi_pools_are_pools:
  assumes "multi_reachable cfg S0 S M" and "i < length (mpools S0)"
  shows "length (mpools S) = length (mpools S0)
    \<and> pool_reachable cfg (mpools S0 ! i) (mpools S ! i) (total (proj i) M)"
  using pools_of_multi [OF assms] multi_placed [OF assms(1)] by blast

lemma demo_first_reachable:
  "multi_reachable demo_config demo_two demo_first
     {#MpDone 7, In 0 Nobody (Sub (SubDone 7)), In 0 Nobody (Wrk (Work 0)), In 0 Nobody (Tck TickStart), In 1 Nobody (Tck TickStart)#}"
  using demo_first_system by (rule multi_system_reachable)

theorem multi_pools_are_pools_witness:
  "pool_reachable demo_config demo_pool demo_sent {#Sub (SubDone 7), Wrk (Work 0), Tck TickStart#}"
  using multi_pools_are_pools [OF demo_first_reachable, of 0]
  by (simp add: demo_two_def demo_first_def add_mset_commute)

text \<open>C36: No task that a multi-pool accepts is lost or run twice, even when a pool refused it first: as often as
  \<open>submit\<close> of the multi-pool has returned \<open>Ok\<close> for a task, or one of its pools has just accepted it, one of the pools has
  executed it, is executing it, or has it in a worker's channel.\<close>

theorem multi_tasks_conserved:
  assumes "multi_reachable cfg S0 S M" and "\<forall>s0 \<in> set (mpools S0). started s0"
  shows "count M (MpDone t) + size (filter_mset (\<lambda>q. \<exists>i fr. fr \<noteq> Nobody \<and> q = In i fr (Sub (SubDone t))) M)
    = (\<Sum>i<length (mpools S). count_list (executed (mpools S ! i)) t + in_mail t (mail (mpools S ! i)))
      + size (filter_mset (\<lambda>q. \<exists>i fr w. q = In i fr (Wrk (WorkCall w t))) M)"
  using multi_tasks_balanced [OF assms, of t] returned_balanced [OF assms(1), of t] tasks_split [of t M]
  unfolding carried_out_def by linarith

theorem multi_tasks_conserved_witness:
  "count {#MpDone 7, In 0 Nobody (Sub (SubDone 7)), In 0 Nobody (Wrk (Work 0)), In 0 Nobody (Tck TickStart), In 1 Nobody (Tck TickStart)#} (MpDone 7)
    = (\<Sum>i<length (mpools demo_first). count_list (executed (mpools demo_first ! i)) 7 + in_mail 7 (mail (mpools demo_first ! i)))"
proof -
  have "\<forall>s0 \<in> set (mpools demo_two). started s0" by (simp add: demo_two_def demo_started)
  from multi_tasks_conserved [OF demo_first_reachable this, of 7] show ?thesis by simp
qed

text \<open>C37: A release of a multi-pool that reports success is final: with a time-out or a context, and without reboots,
  once it has returned \<open>Ok\<close> every pool is closed and has neither a \<open>purge_stale_workers\<close> nor a
  \<open>ticktock\<close> thread left.\<close>

theorem multi_release_ends_all_pools:
  assumes "multi_system (\<lambda>p. pool_entry p \<and> no_reboot p) cfg S0 S M" and "handles S0 = []"
    and "\<forall>s0 \<in> set (mpools S0). started s0 \<and> purge_done s0 = 0 \<and> ticktock_done s0 = 0"
    and "MpReleased k (Inr ()) \<in># M" and "i < length (mpools S0)" and "context_of k i \<noteq> None"
  shows "is_closed (mpools S ! i) \<and> (In i fr (Pur g) \<in># M \<longrightarrow> g = PurgeDone) \<and> (In i fr (Tck q) \<in># M \<longrightarrow> q = TickDone)"
  using assms by (rule multi_release_complete)

theorem multi_release_ends_all_pools_witness:
  "MpReleased (TimeoutRelease [1, 1]) (Inr ()) \<in># mset demo_both_threads
    \<and> is_closed (mpools demo_both ! 0) \<and> is_closed (mpools demo_both ! 1)"
proof -
  have h: "handles demo_two = []" "length (mpools demo_two) = 2" by (simp_all add: demo_two_def)
  have p: "\<forall>s0 \<in> set (mpools demo_two). started s0 \<and> purge_done s0 = 0 \<and> ticktock_done s0 = 0"
    using core_new_flags [OF demo_new] by (simp add: demo_two_def demo_started)
  have r: "MpReleased (TimeoutRelease [1, 1]) (Inr ()) \<in># mset demo_both_threads" by (simp add: demo_both_threads_def)
  from multi_release_ends_all_pools [OF demo_both_system h(1) p r, of 0] multi_release_ends_all_pools [OF demo_both_system h(1) p r, of 1]
    r h(2) show ?thesis by simp
qed

text \<open>C38: \<open>submit\<close> of a multi-pool fails only with \<open>PoolClosed\<close> or \<open>PoolOverload\<close>, and it never panics: the pool
  that it picks, by rotation or by load, exists at every moment.\<close>

theorem multi_submit_errors:
  assumes "multi_reachable cfg S0 S M" and "multi_valid S0"
  shows "{e. MpFail t e \<in># M} \<subseteq> {PoolClosed, PoolOverload} \<and> MpPanic t \<notin># M
    \<and> {i. MpDeliver a t i \<in># M} \<subseteq> {0..<int (length (mpools S0))}"
proof -
  have "error_seen q" "picks_exist (length (mpools S0)) q" if "q \<in># M" for q
    using multi_errors [OF assms(1)] multi_picks [OF assms] that by blast+
  then show ?thesis by fastforce
qed

lemma demo_turned_away:
  "multi_reachable demo_config demo_two (demo_two\<lparr>multi := (multi demo_two)\<lparr>mp_state := CLOSED\<rparr>\<rparr>)
     (mset [MpFail 9 PoolClosed, MpSpawn (ContextRelease None) [], In 0 Nobody (Tck TickStart), In 1 Nobody (Tck TickStart)])"
proof -
  have "play (multi_moves demo_config) demo_two
      ([MpRelease (ContextRelease None), MpSubmit 9] @ [In 0 Nobody (Tck TickStart), In 1 Nobody (Tck TickStart)]) [(0, 0), (1, 0)]
    = Some (demo_two\<lparr>multi := (multi demo_two)\<lparr>mp_state := CLOSED\<rparr>\<rparr>,
        [MpFail 9 PoolClosed, MpSpawn (ContextRelease None) [], In 0 Nobody (Tck TickStart), In 1 Nobody (Tck TickStart)])"
    by (simp add: demo_two_def mp_is_closed_def)
  from multi_play [OF this, of "\<lambda>_. True"] show ?thesis
    using multi_system_reachable by (simp add: multi_entry.intros)
qed

theorem multi_submit_errors_witness:
  "multi_valid demo_two \<and> {e. MpFail (9 :: nat) e \<in># mset [MpFail 9 PoolClosed, MpSpawn (ContextRelease None) [],
      In 0 Nobody (Tck TickStart), In 1 Nobody (Tck TickStart)]} \<subseteq> {PoolClosed, PoolOverload}"
proof -
  have v: "multi_valid demo_two" by (simp add: multi_valid_def mp_sized_def demo_two_def)
  from multi_submit_errors [OF demo_turned_away v, of 9] v show ?thesis by blast
qed

end
